(* ===== verification/Prelude.thy ===== *)
theory Prelude
  imports Main "HOL-Library.Word" "HOL-Library.Code_Target_Numeral"
begin

text \<open>
  Shared vocabulary of the development: the names of the Go types that several components use
  (durations, 64-bit integers, string maps), the collection of the facts that an operation keeps its
  component's invariant, and the generic lemmas about maps, lists and options that more than one component needs.
\<close>

section \<open>Types\<close>

text \<open>A \<open>time.Duration\<close> is a signed number of nanoseconds.\<close>

type_synonym duration = int

text \<open>A Go \<open>map[string]string\<close>. A nil map reads as an empty one, so nil is \<open>Map.empty\<close>.\<close>

type_synonym meta = "string \<rightharpoonup> string"

text \<open>The library version of an index expression \<open>m[k]\<close>: the zero value when the key is absent.\<close>

definition mget :: "meta \<Rightarrow> string \<Rightarrow> string" where
  "mget m k = (case m k of None \<Rightarrow> [] | Some v \<Rightarrow> v)"

definition int64_range :: "int \<Rightarrow> bool" where
  "int64_range i \<longleftrightarrow> - (2 ^ 63) \<le> i \<and> i < 2 ^ 63"

text \<open>Signed 64-bit addition wraps around.\<close>

definition wrap64 :: "int \<Rightarrow> int" where
  "wrap64 i = sint (word_of_int i :: 64 word)"

abbreviation millisecond :: duration where "millisecond \<equiv> 1000000"
abbreviation second :: duration where "second \<equiv> 1000000000"

section \<open>Theorem collection\<close>

named_theorems inv_intros \<open>preservation of the components' invariants\<close>

section \<open>Generic lemmas\<close>

lemma mget_upd [simp]: "mget (m(k \<mapsto> v)) k' = (if k' = k then v else mget m k')"
  by (simp add: mget_def)

lemma mget_upd_None [simp]: "mget (m(k := None)) k' = (if k' = k then [] else mget m k')"
  by (simp add: mget_def)

lemma mget_empty [simp]: "mget Map.empty k = []"
  by (simp add: mget_def)

lemma wrap64_id [simp]: "int64_range i \<Longrightarrow> wrap64 i = i"
  by (simp add: wrap64_def int64_range_def sint_sbintrunc' signed_take_bit_int_eq_self)

lemma wrap64_range: "int64_range (wrap64 i)"
  using sint_range_size [of "word_of_int i :: 64 word"]
  by (simp add: wrap64_def int64_range_def word_size)

lemma take_while_append_stop:
  "\<forall>x \<in> set xs. P x \<Longrightarrow> (ys = [] \<or> \<not> P (hd ys)) \<Longrightarrow> takeWhile P (xs @ ys) = xs"
  by (induction xs) (cases ys, auto)

lemma drop_while_append_stop:
  "\<forall>x \<in> set xs. P x \<Longrightarrow> (ys = [] \<or> \<not> P (hd ys)) \<Longrightarrow> dropWhile P (xs @ ys) = ys"
  by (induction xs) (cases ys, auto)

end
