(* ===== verification/GoStrings.thy ===== *)
theory GoStrings
  imports Prelude
begin

text \<open>
  The pieces of Go's \<open>strings\<close> and \<open>strconv\<close> packages the library calls: \<open>TrimSpace\<close>,
  \<open>ToLower\<close>, \<open>HasPrefix\<close>, \<open>Contains\<close>, \<open>Join\<close>, \<open>Itoa\<close>, \<open>Atoi\<close> and \<open>ParseBool\<close>. A Go string is its
  bytes, so a string is a list of characters (one byte each). The last section proves that
  \<open>Atoi\<close> reads back what \<open>Itoa\<close> writes.
\<close>

section \<open>Digits and decimal integers\<close>

definition is_digit :: "char \<Rightarrow> bool" where
  "is_digit c \<longleftrightarrow> 48 \<le> (of_char c :: nat) \<and> (of_char c :: nat) \<le> 57"

definition digit_val :: "char \<Rightarrow> nat" where
  "digit_val c = of_char c - 48"

definition digit_char :: "nat \<Rightarrow> char" where
  "digit_char d = char_of (48 + d)"

fun nat_str :: "nat \<Rightarrow> string" where
  "nat_str n =
     (if n < 10 then [digit_char n] else nat_str (n div 10) @ [digit_char (n mod 10)])"

declare nat_str.simps [simp del]

definition itoa :: "int \<Rightarrow> string" where
  "itoa i = (if i < 0 then CHR ''-'' # nat_str (nat (- i)) else nat_str (nat i))"

definition digits_value :: "nat \<Rightarrow> string \<Rightarrow> nat" where
  "digits_value a s = foldl (\<lambda>a c. 10 * a + digit_val c) a s"

text \<open>\<open>strconv.Atoi\<close>: an optional sign, at least one digit, the value within 64 bits.\<close>

definition atoi :: "string \<Rightarrow> int option" where
  "atoi s =
     (let (neg, ds) =
        (case s of
           [] \<Rightarrow> (False, s)
         | c # cs \<Rightarrow> if c = CHR ''-'' then (True, cs) else if c = CHR ''+'' then (False, cs)
                    else (False, s))
      in if ds = [] \<or> \<not> list_all is_digit ds then None
         else let n = int (digits_value 0 ds); v = (if neg then - n else n)
              in if int64_range v then Some v else None)"

text \<open>\<open>strconv.ParseBool\<close>; None is its error.\<close>

definition parse_bool :: "string \<Rightarrow> bool option" where
  "parse_bool s =
     (if s \<in> set [''1'', ''t'', ''T'', ''TRUE'', ''true'', ''True''] then Some True
      else if s \<in> set [''0'', ''f'', ''F'', ''FALSE'', ''false'', ''False''] then Some False
      else None)"

section \<open>Strings\<close>

definition has_prefix :: "string \<Rightarrow> string \<Rightarrow> bool" where
  "has_prefix s p \<longleftrightarrow> take (length p) s = p"

fun contains :: "string \<Rightarrow> string \<Rightarrow> bool" where
  "contains s sub \<longleftrightarrow> has_prefix s sub \<or> (case s of [] \<Rightarrow> False | _ # cs \<Rightarrow> contains cs sub)"

declare contains.simps [simp del]

fun join :: "string \<Rightarrow> string list \<Rightarrow> string" where
  "join sep [] = []"
| "join sep [x] = x"
| "join sep (x # y # ys) = x @ sep @ join sep (y # ys)"

text \<open>
  The UTF-8 encoding of a Unicode space (\<open>unicode.IsSpace\<close>) at the front of a string: its
  length in bytes, 0 when there is none. \<open>TrimSpace\<close> removes them from both ends; at the far
  end the bytes are read backwards.
\<close>

definition byte :: "char \<Rightarrow> nat" where
  "byte c = of_char c"

definition space1 :: "nat \<Rightarrow> bool" where
  "space1 a \<longleftrightarrow> a \<in> set [9, 10, 11, 12, 13, 32]"

definition space2 :: "nat \<Rightarrow> nat \<Rightarrow> bool" where
  "space2 a b \<longleftrightarrow> a = 0xC2 \<and> (b = 0x85 \<or> b = 0xA0)"

definition space3 :: "nat \<Rightarrow> nat \<Rightarrow> nat \<Rightarrow> bool" where
  "space3 a b c \<longleftrightarrow>
     a = 0xE1 \<and> b = 0x9A \<and> c = 0x80
     \<or> a = 0xE2 \<and> b = 0x80 \<and> (0x80 \<le> c \<and> c \<le> 0x8A \<or> c \<in> set [0xA8, 0xA9, 0xAF])
     \<or> a = 0xE2 \<and> b = 0x81 \<and> c = 0x9F
     \<or> a = 0xE3 \<and> b = 0x80 \<and> c = 0x80"

fun trim_left :: "string \<Rightarrow> string" where
  "trim_left (a # s) =
     (if space1 (byte a) then trim_left s
      else case s of
        [] \<Rightarrow> a # s
      | b # s2 \<Rightarrow>
          if space2 (byte a) (byte b) then trim_left s2
          else (case s2 of
            [] \<Rightarrow> a # s
          | c # s3 \<Rightarrow>
              if space3 (byte a) (byte b) (byte c) then trim_left s3 else a # s))"
| "trim_left [] = []"

fun trim_right_rev :: "string \<Rightarrow> string" where
  "trim_right_rev (a # s) =
     (if space1 (byte a) then trim_right_rev s
      else case s of
        [] \<Rightarrow> a # s
      | b # s2 \<Rightarrow>
          if space2 (byte b) (byte a) then trim_right_rev s2
          else (case s2 of
            [] \<Rightarrow> a # s
          | c # s3 \<Rightarrow>
              if space3 (byte c) (byte b) (byte a) then trim_right_rev s3 else a # s))"
| "trim_right_rev [] = []"

definition trim_space :: "string \<Rightarrow> string" where
  "trim_space s = rev (trim_right_rev (rev (trim_left s)))"

text \<open>
  \<open>strings.ToLower\<close>: ASCII letters, and the two non-ASCII letters whose lower case is ASCII
  (U+0130 to \<open>i\<close> and the Kelvin sign U+212A to \<open>k\<close>). Every other non-ASCII letter stays non-ASCII
  when lowered; the library only compares the result with ASCII words, so those bytes are kept.
\<close>

definition lower_ascii :: "char \<Rightarrow> char" where
  "lower_ascii c = (if 65 \<le> byte c \<and> byte c \<le> 90 then char_of (byte c + 32) else c)"

fun to_lower :: "string \<Rightarrow> string" where
  "to_lower (a # b # s) =
     (if byte a = 0xC4 \<and> byte b = 0xB0 then CHR ''i'' # to_lower s
      else case s of
        [] \<Rightarrow> lower_ascii a # to_lower (b # s)
      | c # s3 \<Rightarrow>
          if byte a = 0xE2 \<and> byte b = 0x84 \<and> byte c = 0xAA then CHR ''k'' # to_lower s3
          else lower_ascii a # to_lower (b # s))"
| "to_lower [a] = [lower_ascii a]"
| "to_lower [] = []"

section \<open>Lemmas\<close>

lemma of_digit_char: "d < 10 \<Longrightarrow> of_char (digit_char d) = 48 + d"
  by (simp add: digit_char_def)

lemma digit_val_char [simp]: "d < 10 \<Longrightarrow> digit_val (digit_char d) = d"
  by (simp add: digit_val_def of_digit_char)

lemma is_digit_char [simp]: "d < 10 \<Longrightarrow> is_digit (digit_char d)"
  by (simp add: is_digit_def of_digit_char)

lemma nat_str_nonempty [simp]: "nat_str n \<noteq> []"
  by (subst nat_str.simps) simp

lemma nat_str_digits: "list_all is_digit (nat_str n)"
proof (induction n rule: nat_str.induct)
  case (1 n)
  then show ?case by (subst nat_str.simps) auto
qed

lemma digits_value_append: "digits_value a (s @ t) = digits_value (digits_value a s) t"
  by (simp add: digits_value_def)

lemma digits_value_nat_str [simp]: "digits_value 0 (nat_str n) = n"
proof (induction n rule: nat_str.induct)
  case (1 n)
  show ?case
  proof (cases "n < 10")
    case True
    then show ?thesis by (subst nat_str.simps) (simp add: digits_value_def)
  next
    case False
    then have "digits_value 0 (nat_str n) =
        10 * digits_value 0 (nat_str (n div 10)) + digit_val (digit_char (n mod 10))"
      by (subst nat_str.simps) (simp add: digits_value_def)
    with False 1 show ?thesis by simp
  qed
qed

lemma nat_str_hd_digit: "is_digit (hd (nat_str n))"
  using nat_str_digits [of n] by (cases "nat_str n") auto

lemma not_digit_signs [simp]: "\<not> is_digit (CHR ''-'')" "\<not> is_digit (CHR ''+'')"
  by (simp_all add: is_digit_def)

lemma atoi_itoa: "int64_range i \<Longrightarrow> atoi (itoa i) = Some i"
proof (cases "i < 0")
  case True
  assume "int64_range i"
  with True show ?thesis
    by (simp add: atoi_def itoa_def nat_str_digits)
next
  case False
  assume r: "int64_range i"
  obtain c cs where c: "nat_str (nat i) = c # cs"
    by (cases "nat_str (nat i)") auto
  have "is_digit c" using nat_str_hd_digit [of "nat i"] c by simp
  then have "c \<noteq> CHR ''-''" "c \<noteq> CHR ''+''" by auto
  with False r c nat_str_digits [of "nat i"] digits_value_nat_str [of "nat i"]
  show ?thesis by (simp add: atoi_def itoa_def)
qed

lemma atoi_range: "atoi s = Some i \<Longrightarrow> int64_range i"
  by (auto simp: atoi_def Let_def split: list.splits if_splits)

lemma has_prefix_append [simp]: "has_prefix (p @ s) p"
  by (simp add: has_prefix_def)

end
