(* ===== verification/Types.thy ===== *)
theory Types
  imports GoStrings
begin

text \<open>
  The domain types of \<open>types.go\<close>: the error values, endpoints, services, health checks, watch
  events, and the operations on them (the write-path normalisation of the endpoint pointers and
  the view selection). A Go pointer to an endpoint or a health check is an \<open>option\<close>; the methods
  with a pointer receiver return the updated service, and their nil-receiver guard is the
  \<open>None\<close> of the pointer version.
\<close>

section \<open>Errors\<close>

text \<open>
  The sentinel errors of the package; an error of other code, known by its text; and the
  result of \<open>fmt.Errorf\<close> with a \<open>%w\<close> verb, which keeps its format, the wrapped error and the
  other operands. \<open>Panic\<close> is not a returned error: it stands for a run-time panic that unwinds
  the call.
\<close>

datatype go_error =
    ErrNilManager
  | ErrNilRegistry
  | ErrEmptyAdvertiseAddr
  | ErrNoEndpoint
  | ErrEndpointViewUnavailable
  | ErrEmptyConsulAddr
  | ErrNoHealthyInstances
  | ErrDiscoveryDisabledNoFallback
  | ErrInvalidTTL
  | Foreign string
  | Errorf string go_error "string list"
  | Panic string

text \<open>\<open>errors.Is\<close> compares along the chain of wrapped errors.\<close>

fun errors_Is :: "go_error \<Rightarrow> go_error \<Rightarrow> bool" where
  "errors_Is (Errorf f e ops) target \<longleftrightarrow> Errorf f e ops = target \<or> errors_Is e target"
| "errors_Is e target \<longleftrightarrow> e = target"

text \<open>A panic, as an error and as the outcome of a call.\<close>

definition is_panic :: "go_error \<Rightarrow> bool" where
  "is_panic e = (case e of Panic _ \<Rightarrow> True | _ \<Rightarrow> False)"

definition panics :: "go_error + 'a \<Rightarrow> bool" where
  "panics res = (case res of Inl e \<Rightarrow> is_panic e | Inr _ \<Rightarrow> False)"

lemma panics_simps [simp]: "panics (Inl e) = is_panic e" "\<not> panics (Inr x)" "is_panic (Panic t)" "\<not> is_panic (Foreign t)"
  "\<not> is_panic ErrNoHealthyInstances" "\<not> is_panic (Errorf f e ops)" "\<not> is_panic ErrNilRegistry"
  by (simp_all add: panics_def is_panic_def)

lemma healthy_no_panic: "errors_Is e ErrNoHealthyInstances \<Longrightarrow> \<not> is_panic e"
  by (cases e) simp_all

section \<open>Endpoints and services\<close>

record endpoint =
  eAddress :: string
  ePort :: int
  eScheme :: string

text \<open>\<open>EndpointView\<close> is a string type: callers may pass any value.\<close>

type_synonym endpoint_view = string

abbreviation View_External :: endpoint_view where "View_External \<equiv> ''external''"
abbreviation View_Internal :: endpoint_view where "View_Internal \<equiv> ''internal''"

record health_check =
  hcHTTP :: string
  hcInterval :: string
  hcTimeout :: string
  hcPath :: string
  hcTTL :: string

record service =
  sID :: string
  sName :: string
  sAddress :: string
  sPort :: int
  sScheme :: string
  sExternal :: "endpoint option"
  sInternal :: "endpoint option"
  sTags :: "string list"
  sMeta :: meta
  sHealthCheck :: "health_check option"

definition empty_service :: service where
  "empty_service =
     \<lparr>sID = [], sName = [], sAddress = [], sPort = 0, sScheme = [], sExternal = None,
      sInternal = None, sTags = [], sMeta = Map.empty, sHealthCheck = None\<rparr>"

datatype event_type = EventRegistered | EventDeregistered

record event =
  evType :: event_type
  evService :: service

text \<open>The severity order of watch events: a deregistration dominates.\<close>

instantiation event_type :: linorder
begin

definition less_eq_event_type :: "event_type \<Rightarrow> event_type \<Rightarrow> bool" where
  "less_eq_event_type a b \<longleftrightarrow> a = EventRegistered \<or> b = EventDeregistered"

definition less_event_type :: "event_type \<Rightarrow> event_type \<Rightarrow> bool" where
  "less_event_type a b \<longleftrightarrow> a = EventRegistered \<and> b = EventDeregistered"

instance
proof
  fix x y z :: event_type
  show "x < y \<longleftrightarrow> x \<le> y \<and> \<not> y \<le> x"
    by (cases x; cases y) (simp_all add: less_eq_event_type_def less_event_type_def)
  show "x \<le> x" by (cases x) (simp_all add: less_eq_event_type_def)
  show "x \<le> y \<Longrightarrow> y \<le> z \<Longrightarrow> x \<le> z"
    by (cases x; cases y; cases z) (simp_all add: less_eq_event_type_def)
  show "x \<le> y \<Longrightarrow> y \<le> x \<Longrightarrow> x = y"
    by (cases x; cases y) (simp_all add: less_eq_event_type_def)
  show "x \<le> y \<or> y \<le> x"
    by (cases x; cases y) (simp_all add: less_eq_event_type_def)
qed

end

section \<open>Operations\<close>

definition host_port :: "string \<Rightarrow> int \<Rightarrow> string" where
  "host_port a p = a @ '':'' @ itoa p"

definition Endpoint_Addr :: "endpoint \<Rightarrow> string" where
  "Endpoint_Addr e = host_port (eAddress e) (ePort e)"

definition Service_Addr :: "service \<Rightarrow> string" where
  "Service_Addr s = host_port (sAddress s) (sPort s)"

definition externalEndpoint :: "service \<Rightarrow> endpoint option" where
  "externalEndpoint s =
     (case sExternal s of
        Some e \<Rightarrow> Some e
      | None \<Rightarrow>
          if sAddress s \<noteq> [] \<or> sPort s \<noteq> 0 \<or> sScheme s \<noteq> []
          then Some \<lparr>eAddress = sAddress s, ePort = sPort s, eScheme = sScheme s\<rparr>
          else None)"

definition rootEndpoint :: "service \<Rightarrow> endpoint option" where
  "rootEndpoint s = (case sExternal s of Some e \<Rightarrow> Some e | None \<Rightarrow> sInternal s)"

definition mirrorFlat :: "service \<Rightarrow> service" where
  "mirrorFlat s =
     (case rootEndpoint s of
        None \<Rightarrow> s\<lparr>sAddress := [], sPort := 0, sScheme := []\<rparr>
      | Some root \<Rightarrow>
          s\<lparr>sAddress := eAddress root, sPort := ePort root, sScheme := eScheme root\<rparr>)"

definition normalizeEndpoints :: "service \<Rightarrow> service" where
  "normalizeEndpoints s =
     mirrorFlat
       (if sExternal s = None \<and> sInternal s = None
        then s\<lparr>sExternal := externalEndpoint s\<rparr> else s)"

definition EndpointFor :: "service \<Rightarrow> endpoint_view \<Rightarrow> go_error + endpoint" where
  "EndpointFor s view =
     (if view = View_Internal
      then (case sInternal s of
              Some e \<Rightarrow> Inr e
            | None \<Rightarrow>
                (case sExternal s of
                   Some e \<Rightarrow> Inr e
                 | None \<Rightarrow> Inl ErrEndpointViewUnavailable))
      else (case sExternal s of
              Some e \<Rightarrow> Inr e
            | None \<Rightarrow> Inl ErrEndpointViewUnavailable))"

section \<open>Lemmas\<close>

lemma errors_Is_refl [simp]: "errors_Is e e"
  by (cases e) simp_all

lemma errors_Is_wrap: "errors_Is e t \<Longrightarrow> errors_Is (Errorf f e ops) t"
  by simp

lemma mirrorFlat_endpoints [simp]:
  "sExternal (mirrorFlat s) = sExternal s" "sInternal (mirrorFlat s) = sInternal s"
  "rootEndpoint (mirrorFlat s) = rootEndpoint s"
  by (simp_all add: mirrorFlat_def rootEndpoint_def split: option.splits)

lemma mirrorFlat_frame [simp]:
  "sID (mirrorFlat s) = sID s" "sName (mirrorFlat s) = sName s" "sTags (mirrorFlat s) = sTags s"
  "sMeta (mirrorFlat s) = sMeta s" "sHealthCheck (mirrorFlat s) = sHealthCheck s"
  by (simp_all add: mirrorFlat_def split: option.splits)

lemma normalizeEndpoints_frame [simp]:
  "sID (normalizeEndpoints s) = sID s" "sName (normalizeEndpoints s) = sName s"
  "sTags (normalizeEndpoints s) = sTags s" "sMeta (normalizeEndpoints s) = sMeta s"
  "sHealthCheck (normalizeEndpoints s) = sHealthCheck s"
  by (simp_all add: normalizeEndpoints_def)

lemma normalizeEndpoints_internal [simp]:
  "sInternal (normalizeEndpoints s) = sInternal s"
  by (simp add: normalizeEndpoints_def)

lemma normalizeEndpoints_external:
  "sExternal (normalizeEndpoints s) =
     (if sInternal s = None then externalEndpoint s else sExternal s)"
  by (auto simp: normalizeEndpoints_def externalEndpoint_def split: option.splits)

text \<open>The flat mirror agrees with the root endpoint.\<close>

definition flat_agrees :: "service \<Rightarrow> bool" where
  "flat_agrees s \<longleftrightarrow>
     (case rootEndpoint s of
        None \<Rightarrow> sAddress s = [] \<and> sPort s = 0 \<and> sScheme s = []
      | Some r \<Rightarrow> sAddress s = eAddress r \<and> sPort s = ePort r \<and> sScheme s = eScheme r)"

lemma mirrorFlat_agrees [simp, inv_intros]: "flat_agrees (mirrorFlat s)"
  by (auto simp: flat_agrees_def mirrorFlat_def rootEndpoint_def split: option.splits)

lemma mirrorFlat_fixed: "flat_agrees s \<Longrightarrow> mirrorFlat s = s"
  by (auto simp: flat_agrees_def mirrorFlat_def split: option.splits)

lemma normalize_agrees [simp, inv_intros]: "flat_agrees (normalizeEndpoints s)"
  by (simp add: normalizeEndpoints_def)

lemma normalize_fixed: "flat_agrees s \<Longrightarrow> normalizeEndpoints s = s"
  by (auto simp: normalizeEndpoints_def mirrorFlat_fixed externalEndpoint_def
      flat_agrees_def rootEndpoint_def)

lemma flat_agrees_addr:
  "flat_agrees s \<Longrightarrow> rootEndpoint s = Some r \<Longrightarrow> Service_Addr s = Endpoint_Addr r"
  by (simp add: flat_agrees_def Service_Addr_def Endpoint_Addr_def)

lemma host_port_inj: "host_port a p = host_port a q \<longleftrightarrow> itoa p = itoa q"
  by (simp add: host_port_def)

section \<open>Properties\<close>

text \<open>
  The write-path normalisation is a projection onto the services whose flat fields mirror
  their root endpoint: its results are fixed, its fixed points are exactly those services, and on
  them the flat address is the root endpoint's.
\<close>

lemma normalize_projects:
  "normalizeEndpoints (normalizeEndpoints s) = normalizeEndpoints s
   \<and> (normalizeEndpoints s = s \<longleftrightarrow> flat_agrees s)
   \<and> (\<forall>r. rootEndpoint (normalizeEndpoints s) = Some r \<longrightarrow>
        Service_Addr (normalizeEndpoints s) = Endpoint_Addr r)"
proof (intro conjI allI impI)
  show "normalizeEndpoints (normalizeEndpoints s) = normalizeEndpoints s"
    by (rule normalize_fixed) simp
  show "normalizeEndpoints s = s \<longleftrightarrow> flat_agrees s"
    using normalize_agrees [of s] normalize_fixed [of s] by metis
qed (auto intro: flat_agrees_addr)

text \<open>
  The view contract is asymmetric: the internal view serves the internal endpoint and degrades
  to the external one, every other view serves the external endpoint or nothing. So an external
  read never yields the internal endpoint of a service that has no external one.
\<close>

lemma view_contract:
  "(EndpointFor s v = Inr e \<longleftrightarrow>
      (v = View_Internal \<and> sInternal s = Some e)
      \<or> (sExternal s = Some e \<and> (v = View_Internal \<longrightarrow> sInternal s = None)))
   \<and> (EndpointFor s v = Inl err \<longleftrightarrow>
      err = ErrEndpointViewUnavailable \<and> sExternal s = None
      \<and> (v = View_Internal \<longrightarrow> sInternal s = None))"
  by (auto simp: EndpointFor_def split: option.splits if_splits)

end
