(* ===== verification/ConsulCodec.thy ===== *)
theory ConsulCodec
  imports Types
begin

text \<open>
  How a service is written to and read from the Consul catalog (\<open>consul.go\<close>): \<open>serviceMeta\<close>
  serialises the endpoints into the registration's Meta, \<open>serviceFromEntry\<close> rebuilds them from a
  health entry, \<open>eventTypeFor\<close> classifies an entry, \<open>registrationFor\<close> is the registration
  \<open>Register\<close> sends. The locale \<open>endpoint_codec\<close> is the contract between the writing and the
  reading side; its interpretation is the round trip.
\<close>

section \<open>The Consul client's data, as far as the library uses it\<close>

datatype check_status = HealthPassing | HealthCritical | OtherStatus string

record service_entry =
  enID :: string
  enService :: string
  enTags :: "string list"
  enMeta :: meta
  enAddress :: string
  enPort :: int
  enChecks :: "check_status list"

record agent_check =
  ckCheckID :: string
  ckTTL :: string
  ckHTTP :: string
  ckInterval :: string
  ckTimeout :: string
  ckDeregisterAfter :: string

record registration =
  rgID :: string
  rgName :: string
  rgTags :: "string list"
  rgMeta :: meta
  rgAddress :: string
  rgPort :: int
  rgCheck :: "agent_check option"

section \<open>Writing\<close>

definition reservedMetaKeys :: "string list" where
  "reservedMetaKeys =
     [''scheme'',
      ''external_address'', ''external_port'', ''external_scheme'',
      ''internal_address'', ''internal_port'', ''internal_scheme'']"

definition stripKeys :: "string list \<Rightarrow> meta \<Rightarrow> meta" where
  "stripKeys ks m = fold (\<lambda>k m. m(k := None)) ks m"

definition putExternal :: "endpoint option \<Rightarrow> meta \<Rightarrow> meta" where
  "putExternal ext m =
     (case ext of
        None \<Rightarrow> m
      | Some e \<Rightarrow>
          let m1 = m(''external_address'' \<mapsto> eAddress e);
              m2 = m1(''external_port'' \<mapsto> itoa (ePort e))
          in if eScheme e \<noteq> []
             then m2(''external_scheme'' \<mapsto> eScheme e, ''scheme'' \<mapsto> eScheme e)
             else m2)"

definition putInternal :: "endpoint option \<Rightarrow> meta \<Rightarrow> meta" where
  "putInternal inn m =
     (case inn of
        None \<Rightarrow> m
      | Some e \<Rightarrow>
          let m1 = m(''internal_address'' \<mapsto> eAddress e);
              m2 = m1(''internal_port'' \<mapsto> itoa (ePort e))
          in if eScheme e \<noteq> [] then m2(''internal_scheme'' \<mapsto> eScheme e) else m2)"

definition serviceMeta :: "service \<Rightarrow> meta" where
  "serviceMeta svc0 =
     (let svc = normalizeEndpoints svc0 in
      if sExternal svc = None \<and> sInternal svc = None then sMeta svc
      else putInternal (sInternal svc)
             (putExternal (sExternal svc) (stripKeys reservedMetaKeys (sMeta svc))))"

definition ttlCheckID :: "string \<Rightarrow> string" where
  "ttlCheckID serviceID = ''service:'' @ serviceID"

definition checkFor :: "service \<Rightarrow> agent_check option" where
  "checkFor svc =
     (case sHealthCheck svc of
        None \<Rightarrow> None
      | Some hc \<Rightarrow>
          if hcTTL hc \<noteq> []
          then Some \<lparr>ckCheckID = ttlCheckID (sID svc), ckTTL = hcTTL hc, ckHTTP = [],
                     ckInterval = [], ckTimeout = [], ckDeregisterAfter = ''1m''\<rparr>
          else Some \<lparr>ckCheckID = [], ckTTL = [], ckHTTP = hcHTTP hc,
                     ckInterval = hcInterval hc, ckTimeout = hcTimeout hc,
                     ckDeregisterAfter = ''30s''\<rparr>)"

text \<open>The registration \<open>Register\<close> builds: the root endpoint's address, the derived Meta, the check.\<close>

definition registrationFor :: "service \<Rightarrow> registration" where
  "registrationFor svc0 =
     (let svc = normalizeEndpoints svc0;
          (addr, port) =
            (case rootEndpoint svc of None \<Rightarrow> ([], 0) | Some r \<Rightarrow> (eAddress r, ePort r))
      in \<lparr>rgID = sID svc, rgName = sName svc, rgTags = sTags svc, rgMeta = serviceMeta svc,
          rgAddress = addr, rgPort = port, rgCheck = checkFor svc\<rparr>)"

section \<open>Reading\<close>

definition atoiSafe :: "string \<Rightarrow> int" where
  "atoiSafe s = (case atoi s of None \<Rightarrow> 0 | Some n \<Rightarrow> n)"

definition serviceFromEntry :: "service_entry \<Rightarrow> service" where
  "serviceFromEntry e =
     (let m = enMeta e;
          ext = (if mget m ''external_address'' \<noteq> []
                 then Some \<lparr>eAddress = mget m ''external_address'',
                            ePort = atoiSafe (mget m ''external_port''),
                            eScheme = mget m ''external_scheme''\<rparr>
                 else if mget m ''internal_address'' = []
                 then Some \<lparr>eAddress = enAddress e, ePort = enPort e,
                            eScheme = mget m ''scheme''\<rparr>
                 else None);
          inn = (if mget m ''internal_address'' \<noteq> []
                 then Some \<lparr>eAddress = mget m ''internal_address'',
                            ePort = atoiSafe (mget m ''internal_port''),
                            eScheme = mget m ''internal_scheme''\<rparr>
                 else None)
      in mirrorFlat
           \<lparr>sID = enID e, sName = enService e, sAddress = [], sPort = 0, sScheme = [],
            sExternal = ext, sInternal = inn, sTags = enTags e, sMeta = m,
            sHealthCheck = None\<rparr>)"

fun eventTypeForChecks :: "check_status list \<Rightarrow> event_type" where
  "eventTypeForChecks [] = EventRegistered"
| "eventTypeForChecks (c # cs) =
     (if c = HealthCritical then EventDeregistered else eventTypeForChecks cs)"

definition eventTypeFor :: "service_entry \<Rightarrow> event_type" where
  "eventTypeFor e = eventTypeForChecks (enChecks e)"

section \<open>The codec contract\<close>

text \<open>
  What the library relies on the catalog for: an entry of a registered instance carries the
  registration's identity, tags, Meta and root address.
\<close>

definition entry_reflects :: "service_entry \<Rightarrow> registration \<Rightarrow> bool" where
  "entry_reflects e r \<longleftrightarrow>
     enID e = rgID r \<and> enService e = rgName r \<and> enTags e = rgTags r \<and> enMeta e = rgMeta r
     \<and> enAddress e = rgAddress r \<and> enPort e = rgPort r"

definition ports_ok :: "service \<Rightarrow> bool" where
  "ports_ok s \<longleftrightarrow>
     (\<forall>e. sExternal s = Some e \<longrightarrow> int64_range (ePort e))
     \<and> (\<forall>e. sInternal s = Some e \<longrightarrow> int64_range (ePort e))"

text \<open>
  The services whose endpoints survive the catalog: the address of an internal endpoint is not
  empty, and that of an external one is not empty when there is an internal one too.
\<close>

definition codec_ok :: "service \<Rightarrow> bool" where
  "codec_ok s \<longleftrightarrow>
     (case (sExternal s, sInternal s) of
        (None, None) \<Rightarrow> False
      | (Some e, None) \<Rightarrow> True
      | (None, Some i) \<Rightarrow> eAddress i \<noteq> []
      | (Some e, Some i) \<Rightarrow> eAddress e \<noteq> [] \<and> eAddress i \<noteq> [])"

locale endpoint_codec =
  fixes enc :: "service \<Rightarrow> registration"
    and dec :: "service_entry \<Rightarrow> service"
    and ok :: "service \<Rightarrow> bool"
  assumes read_write:
    "ok s \<Longrightarrow> entry_reflects e (enc s) \<Longrightarrow>
       sExternal (dec e) = sExternal s \<and> sInternal (dec e) = sInternal s"
    and read_agrees: "flat_agrees (dec e)"
    and write_id: "rgID (enc s) = sID s \<and> rgName (enc s) = sName s \<and> rgTags (enc s) = sTags s"
    and read_id: "sID (dec e) = enID e \<and> sName (dec e) = enService e \<and> sTags (dec e) = enTags e"
begin

lemma view_preserved:
  assumes "ok s" "entry_reflects e (enc s)"
  shows "EndpointFor (dec e) v = EndpointFor s v"
  using read_write [OF assms] by (auto simp: EndpointFor_def split: option.splits)

lemma addr_preserved:
  assumes "ok s" "entry_reflects e (enc s)" "rootEndpoint s = Some r"
  shows "Service_Addr (dec e) = Endpoint_Addr r"
  using read_write [OF assms(1,2)] assms(3)
  by (intro flat_agrees_addr read_agrees) (auto simp: rootEndpoint_def split: option.splits)

lemma identity_preserved:
  "entry_reflects e (enc s) \<Longrightarrow>
     sID (dec e) = sID s \<and> sName (dec e) = sName s \<and> sTags (dec e) = sTags s"
  by (simp add: entry_reflects_def write_id read_id)

end

section \<open>Lemmas\<close>

lemma stripKeys_apply: "stripKeys ks m k = (if k \<in> set ks then None else m k)"
  unfolding stripKeys_def by (induction ks arbitrary: m) auto

lemma mget_strip: "mget (stripKeys ks m) k = (if k \<in> set ks then [] else mget m k)"
  by (simp add: mget_def stripKeys_apply)

lemma atoiSafe_itoa [simp]: "int64_range i \<Longrightarrow> atoiSafe (itoa i) = i"
  by (simp add: atoiSafe_def atoi_itoa)

lemma serviceMeta_none:
  "externalEndpoint s = None \<Longrightarrow> sInternal s = None \<Longrightarrow> serviceMeta s = sMeta s"
  by (simp add: serviceMeta_def normalizeEndpoints_external)

lemma mget_putInternal:
  "mget (putInternal i m) k =
     (case i of None \<Rightarrow> mget m k
      | Some e \<Rightarrow>
          if k = ''internal_address'' then eAddress e
          else if k = ''internal_port'' then itoa (ePort e)
          else if k = ''internal_scheme'' \<and> eScheme e \<noteq> [] then eScheme e
          else mget m k)"
  by (auto simp: putInternal_def Let_def split: option.splits)

lemma mget_putExternal:
  "mget (putExternal x m) k =
     (case x of None \<Rightarrow> mget m k
      | Some e \<Rightarrow>
          if k = ''external_address'' then eAddress e
          else if k = ''external_port'' then itoa (ePort e)
          else if k = ''external_scheme'' \<and> eScheme e \<noteq> [] then eScheme e
          else if k = ''scheme'' \<and> eScheme e \<noteq> [] then eScheme e
          else mget m k)"
  by (auto simp: putExternal_def Let_def split: option.splits)

lemma flat_normalize_twice: "normalizeEndpoints (normalizeEndpoints s) = normalizeEndpoints s"
  by (rule normalize_fixed) simp

lemma serviceMeta_normalize [simp]: "serviceMeta (normalizeEndpoints s) = serviceMeta s"
  by (simp add: serviceMeta_def flat_normalize_twice)

text \<open>What the derived Meta holds under each reserved key, when there is an endpoint.\<close>

lemma serviceMeta_keys:
  assumes "sExternal n \<noteq> None \<or> sInternal n \<noteq> None" and n: "n = normalizeEndpoints s"
  shows
    "mget (serviceMeta s) ''external_address'' = (case sExternal n of None \<Rightarrow> [] | Some e \<Rightarrow> eAddress e)"
    "mget (serviceMeta s) ''external_port'' = (case sExternal n of None \<Rightarrow> [] | Some e \<Rightarrow> itoa (ePort e))"
    "mget (serviceMeta s) ''external_scheme'' = (case sExternal n of None \<Rightarrow> [] | Some e \<Rightarrow> eScheme e)"
    "mget (serviceMeta s) ''scheme'' = (case sExternal n of None \<Rightarrow> [] | Some e \<Rightarrow> eScheme e)"
    "mget (serviceMeta s) ''internal_address'' = (case sInternal n of None \<Rightarrow> [] | Some e \<Rightarrow> eAddress e)"
    "mget (serviceMeta s) ''internal_port'' = (case sInternal n of None \<Rightarrow> [] | Some e \<Rightarrow> itoa (ePort e))"
    "mget (serviceMeta s) ''internal_scheme'' = (case sInternal n of None \<Rightarrow> [] | Some e \<Rightarrow> eScheme e)"
  using assms(1) unfolding n
  by (auto simp: serviceMeta_def Let_def mget_putInternal mget_putExternal mget_strip
      reservedMetaKeys_def split: option.splits)

lemma serviceMeta_other:
  "k \<notin> set reservedMetaKeys \<Longrightarrow> mget (serviceMeta s) k = mget (sMeta s) k"
  by (auto simp: serviceMeta_def Let_def mget_putInternal mget_putExternal mget_strip
      reservedMetaKeys_def split: option.splits)

lemma serviceFromEntry_frame [simp]:
  "sID (serviceFromEntry e) = enID e" "sName (serviceFromEntry e) = enService e"
  "sTags (serviceFromEntry e) = enTags e" "sMeta (serviceFromEntry e) = enMeta e"
  "sHealthCheck (serviceFromEntry e) = None"
  by (simp_all add: serviceFromEntry_def Let_def)

lemma serviceFromEntry_agrees [inv_intros]: "flat_agrees (serviceFromEntry e)"
  by (simp add: serviceFromEntry_def Let_def)

lemma serviceFromEntry_ext:
  "sExternal (serviceFromEntry e) =
     (if mget (enMeta e) ''external_address'' \<noteq> []
      then Some \<lparr>eAddress = mget (enMeta e) ''external_address'',
                 ePort = atoiSafe (mget (enMeta e) ''external_port''),
                 eScheme = mget (enMeta e) ''external_scheme''\<rparr>
      else if mget (enMeta e) ''internal_address'' = []
      then Some \<lparr>eAddress = enAddress e, ePort = enPort e, eScheme = mget (enMeta e) ''scheme''\<rparr>
      else None)"
  by (simp add: serviceFromEntry_def Let_def)

lemma serviceFromEntry_int:
  "sInternal (serviceFromEntry e) =
     (if mget (enMeta e) ''internal_address'' \<noteq> []
      then Some \<lparr>eAddress = mget (enMeta e) ''internal_address'',
                 ePort = atoiSafe (mget (enMeta e) ''internal_port''),
                 eScheme = mget (enMeta e) ''internal_scheme''\<rparr>
      else None)"
  by (simp add: serviceFromEntry_def Let_def)

lemmas codec_simps = serviceFromEntry_ext serviceFromEntry_int serviceMeta_keys
  serviceMeta_other registrationFor_def entry_reflects_def

lemma registration_frame [simp]:
  "rgID (registrationFor s) = sID s" "rgName (registrationFor s) = sName s"
  "rgTags (registrationFor s) = sTags s" "rgMeta (registrationFor s) = serviceMeta s"
  by (simp_all add: registrationFor_def Let_def split: prod.splits)

lemma registration_addr:
  "rootEndpoint (normalizeEndpoints s) = Some r \<Longrightarrow>
     rgAddress (registrationFor s) = eAddress r \<and> rgPort (registrationFor s) = ePort r"
  by (simp add: registrationFor_def Let_def)

text \<open>The round trip, for a service with at least one endpoint: exactly the services of \<open>codec_ok\<close>.\<close>

lemma endpoints_roundtrip_iff:
  assumes adv: "sExternal n \<noteq> None \<or> sInternal n \<noteq> None" and n: "n = normalizeEndpoints s"
    and ports: "ports_ok n" and refl: "entry_reflects e (registrationFor s)"
  shows "sExternal (serviceFromEntry e) = sExternal n \<and> sInternal (serviceFromEntry e) = sInternal n
     \<longleftrightarrow> codec_ok n"
proof -
  have m: "enMeta e = serviceMeta s" using refl by (simp add: entry_reflects_def)
  have root: "enAddress e = eAddress r \<and> enPort e = ePort r" if "rootEndpoint n = Some r" for r
    using refl registration_addr [of s r] that n by (simp add: entry_reflects_def)
  note keys = serviceMeta_keys [OF adv n]
  show ?thesis
    using adv ports root
    by (cases "sExternal n"; cases "sInternal n")
       (auto simp: serviceFromEntry_ext serviceFromEntry_int m keys codec_ok_def ports_ok_def
          rootEndpoint_def)
qed

text \<open>The write side of the contract works on normalised services.\<close>

definition codec_ready :: "service \<Rightarrow> bool" where
  "codec_ready s \<longleftrightarrow> flat_agrees s \<and> codec_ok s \<and> ports_ok s"

interpretation consul_codec: endpoint_codec registrationFor serviceFromEntry codec_ready
proof
  fix s e
  assume "codec_ready s" and refl: "entry_reflects e (registrationFor s)"
  then have s: "s = normalizeEndpoints s" "codec_ok s" "ports_ok s"
    by (simp_all add: codec_ready_def normalize_fixed)
  moreover have "sExternal s \<noteq> None \<or> sInternal s \<noteq> None"
    using s(2) by (auto simp: codec_ok_def split: option.splits)
  ultimately show
    "sExternal (serviceFromEntry e) = sExternal s \<and> sInternal (serviceFromEntry e) = sInternal s"
    using endpoints_roundtrip_iff [of s s e] refl by blast
qed (simp_all add: serviceFromEntry_agrees)

lemma read_root: "rootEndpoint (serviceFromEntry e) \<noteq> None"
  by (auto simp: rootEndpoint_def serviceFromEntry_ext serviceFromEntry_int)

lemma eventTypeForChecks_crit:
  "eventTypeForChecks cs = EventDeregistered \<longleftrightarrow> HealthCritical \<in> set cs"
  by (induction cs) auto

section \<open>Properties\<close>

text \<open>The services of the witnesses.\<close>

definition dual_service :: service where
  "dual_service =
     \<lparr>sID = ''a-1'', sName = ''a'', sAddress = [], sPort = 0, sScheme = [],
      sExternal = Some \<lparr>eAddress = ''a.example.com'', ePort = 443, eScheme = ''https''\<rparr>,
      sInternal = Some \<lparr>eAddress = ''a.svc'', ePort = 8080, eScheme = ''http''\<rparr>,
      sTags = [''v1''], sMeta = [''team'' \<mapsto> ''core''], sHealthCheck = None\<rparr>"

definition entry_of :: "registration \<Rightarrow> service_entry" where
  "entry_of r =
     \<lparr>enID = rgID r, enService = rgName r, enTags = rgTags r, enMeta = rgMeta r,
      enAddress = rgAddress r, enPort = rgPort r, enChecks = [HealthPassing]\<rparr>"

lemma entry_of_reflects [simp]: "entry_reflects (entry_of r) r"
  by (simp add: entry_reflects_def entry_of_def)

text \<open>
  C18. The catalog round trip. For a service with at least one endpoint and ports of Go's int, an
  entry that reflects its registration is read back with the same two endpoints exactly when the
  service is in the codec's domain: no internal endpoint with an empty address, and no external
  one with an empty address next to an internal one. In that domain the flat address read back is
  the root endpoint's.
\<close>

theorem catalog_roundtrip:
  assumes "sExternal n \<noteq> None \<or> sInternal n \<noteq> None" and "n = normalizeEndpoints s"
    and "ports_ok n" and "entry_reflects e (registrationFor s)"
  shows "(sExternal (serviceFromEntry e) = sExternal n
            \<and> sInternal (serviceFromEntry e) = sInternal n \<longleftrightarrow> codec_ok n)
     \<and> (codec_ok n \<longrightarrow> serviceFromEntry e = n\<lparr>sMeta := serviceMeta s, sHealthCheck := None\<rparr>)"
proof -
  let ?g = "serviceFromEntry e"
  have iff: "sExternal ?g = sExternal n \<and> sInternal ?g = sInternal n \<longleftrightarrow> codec_ok n"
    using assms by (rule endpoints_roundtrip_iff)
  have "?g = n\<lparr>sMeta := serviceMeta s, sHealthCheck := None\<rparr>" if "codec_ok n"
  proof -
    have ends: "sExternal ?g = sExternal n" "sInternal ?g = sInternal n" using iff that by auto
    then have root: "rootEndpoint ?g = rootEndpoint n" by (simp only: rootEndpoint_def)
    have fr: "sID ?g = sID n" "sName ?g = sName n" "sTags ?g = sTags n"
      "sMeta ?g = serviceMeta s" "sHealthCheck ?g = None"
      using assms(2,4) by (simp_all add: entry_reflects_def)
    have "flat_agrees ?g" "flat_agrees n" by (simp_all add: serviceFromEntry_agrees assms(2))
    with root have "sAddress ?g = sAddress n" "sPort ?g = sPort n" "sScheme ?g = sScheme n"
      by (auto simp: flat_agrees_def split: option.splits)
    with ends fr show ?thesis by (cases ?g; cases n) simp
  qed
  with iff show ?thesis by blast
qed

theorem catalog_roundtrip_witness:
  "sInternal (serviceFromEntry (entry_of (registrationFor dual_service)))
     = Some \<lparr>eAddress = ''a.svc'', ePort = 8080, eScheme = ''http''\<rparr>
   \<and> Service_Addr (serviceFromEntry (entry_of (registrationFor dual_service)))
     = ''a.example.com:443''"
proof -
  let ?n = "normalizeEndpoints dual_service"
  have "ports_ok ?n" by (simp add: ports_ok_def normalizeEndpoints_external dual_service_def int64_range_def)
  moreover have "codec_ok ?n" by (simp add: codec_ok_def normalizeEndpoints_external dual_service_def)
  ultimately have "serviceFromEntry (entry_of (registrationFor dual_service))
      = ?n\<lparr>sMeta := serviceMeta dual_service, sHealthCheck := None\<rparr>"
    using catalog_roundtrip [of ?n dual_service "entry_of (registrationFor dual_service)"]
    by (simp add: normalizeEndpoints_external dual_service_def)
  moreover have "sInternal ?n = Some \<lparr>eAddress = ''a.svc'', ePort = 8080, eScheme = ''http''\<rparr>"
    "Service_Addr ?n = ''a.example.com:443''"
    by code_simp+
  ultimately show ?thesis by (simp add: Service_Addr_def)
qed

text \<open>
  The reserved keys of the Meta are the library's: two services with the same endpoints whose
  Meta differ only under reserved keys are written with the same Meta, so a stale value read from
  the catalog cannot survive a re-registration; the other keys are the consumer's and pass through.
\<close>

lemma reserved_keys_derived:
  assumes "sExternal (normalizeEndpoints s) \<noteq> None \<or> sInternal (normalizeEndpoints s) \<noteq> None"
    and "sExternal (normalizeEndpoints s') = sExternal (normalizeEndpoints s)"
    and "sInternal (normalizeEndpoints s') = sInternal (normalizeEndpoints s)"
    and "\<And>k. k \<notin> set reservedMetaKeys \<Longrightarrow> sMeta s' k = sMeta s k"
  shows "serviceMeta s' = serviceMeta s \<and> (\<forall>k. k \<notin> set reservedMetaKeys \<longrightarrow> serviceMeta s k = sMeta s k)"
proof
  have "stripKeys reservedMetaKeys (sMeta s') = stripKeys reservedMetaKeys (sMeta s)"
    using assms(4) by (auto simp: stripKeys_apply fun_eq_iff)
  then show "serviceMeta s' = serviceMeta s"
    using assms(1-3) by (auto simp: serviceMeta_def)
  show "\<forall>k. k \<notin> set reservedMetaKeys \<longrightarrow> serviceMeta s k = sMeta s k"
    by (auto simp: serviceMeta_def Let_def putInternal_def putExternal_def stripKeys_apply
        reservedMetaKeys_def split: option.splits)
qed

text \<open>
  C37. Only a service with an endpoint has its reserved keys derived: the Meta of a service with
  none is written as it is, and a stale \<open>external_address\<close> in it comes back from the catalog as an
  external endpoint that nobody advertised.
\<close>

theorem phantom_endpoint:
  assumes "externalEndpoint s = None" "sInternal s = None"
    and "sMeta s ''external_address'' = Some a" "a \<noteq> []"
    and "entry_reflects e (registrationFor s)"
  shows "\<exists>ep. EndpointFor (serviceFromEntry e) View_External = Inr ep \<and> eAddress ep = a"
proof -
  have "mget (enMeta e) ''external_address'' = a"
    using assms by (simp add: entry_reflects_def serviceMeta_none mget_def)
  with assms(4) show ?thesis by (simp add: EndpointFor_def serviceFromEntry_ext)
qed

theorem phantom_endpoint_witness:
  "\<exists>ep. EndpointFor (serviceFromEntry (entry_of (registrationFor
       (empty_service\<lparr>sMeta := [''external_address'' \<mapsto> ''gone'']\<rparr>)))) View_External = Inr ep
     \<and> eAddress ep = ''gone''"
  by (rule phantom_endpoint [of "empty_service\<lparr>sMeta := [''external_address'' \<mapsto> ''gone'']\<rparr>"])
     (simp_all add: externalEndpoint_def empty_service_def)

text \<open>
  Whatever the catalog holds, a service read from it has a root endpoint and flat fields that
  mirror it; an entry without address keys is a single external endpoint at the catalog address
  (the legacy shape), one with only internal keys never gets an external endpoint from it.
\<close>

lemma read_wellformed:
  "(\<exists>r. rootEndpoint (serviceFromEntry e) = Some r
      \<and> Service_Addr (serviceFromEntry e) = Endpoint_Addr r)
   \<and> (mget (enMeta e) ''external_address'' = [] \<and> mget (enMeta e) ''internal_address'' = [] \<longrightarrow>
        sExternal (serviceFromEntry e)
          = Some \<lparr>eAddress = enAddress e, ePort = enPort e, eScheme = mget (enMeta e) ''scheme''\<rparr>
        \<and> sInternal (serviceFromEntry e) = None)
   \<and> (mget (enMeta e) ''external_address'' = [] \<and> mget (enMeta e) ''internal_address'' \<noteq> [] \<longrightarrow>
        EndpointFor (serviceFromEntry e) View_External = Inl ErrEndpointViewUnavailable)"
proof (intro conjI impI)
  obtain r where r: "rootEndpoint (serviceFromEntry e) = Some r" using read_root [of e] by auto
  with flat_agrees_addr [OF serviceFromEntry_agrees] show
    "\<exists>r. rootEndpoint (serviceFromEntry e) = Some r
       \<and> Service_Addr (serviceFromEntry e) = Endpoint_Addr r"
    by blast
qed (simp_all add: serviceFromEntry_ext serviceFromEntry_int EndpointFor_def)

text \<open>
  The event of a catalog entry is the worst of its checks: Deregistered as soon as one is
  critical, whatever the order of the checks.
\<close>

lemma event_is_worst_check:
  "eventTypeFor e = Max (insert EventRegistered
     ((\<lambda>c. if c = HealthCritical then EventDeregistered else EventRegistered) ` set (enChecks e)))"
  (is "_ = Max (insert _ (?f ` _))")
proof (cases "HealthCritical \<in> set (enChecks e)")
  case True
  then have "EventDeregistered \<in> insert EventRegistered (?f ` set (enChecks e))" by force
  moreover have "x \<le> EventDeregistered" for x by (simp add: less_eq_event_type_def)
  ultimately have "Max (insert EventRegistered (?f ` set (enChecks e))) = EventDeregistered"
    by (intro Max_eqI) auto
  with True show ?thesis by (simp add: eventTypeFor_def eventTypeForChecks_crit)
next
  case False
  then have "?f ` set (enChecks e) \<subseteq> {EventRegistered}" by auto
  then have "insert EventRegistered (?f ` set (enChecks e)) = {EventRegistered}" by blast
  moreover have "eventTypeFor e = EventRegistered"
    using False eventTypeForChecks_crit [of "enChecks e"]
    by (cases "eventTypeFor e") (simp_all add: eventTypeFor_def)
  ultimately show ?thesis by (simp only: Max_singleton)
qed

end
