(* ===== verification/Logger.thy ===== *)
theory Logger
  imports Types
begin

text \<open>
  The logging seam of \<open>logger.go\<close>: the nil test that also catches a typed nil, the adapter that
  turns the internal structured calls into slog-style calls on the consumer's logger, and the
  derivation of loggers with attributes and groups. A call on the consumer's logger is a value
  (method, message, arguments), so what the consumer sees is a list of such calls.
\<close>

section \<open>Values\<close>

text \<open>What \<open>reflect.ValueOf(l)\<close> tells: the kind of the dynamic value, and whether it is nil.\<close>

datatype reflect_kind = KPointer | KMap | KFunc | KChan | KSlice | KInterface | KOther

datatype logger = NilInterface | LoggerVal reflect_kind bool

datatype any_value = AStr string | AInt int | AErr go_error

record log_field =
  fKey :: string
  fValue :: any_value

datatype log_level = LevelError | LevelWarn | LevelInfo | LevelDebug | LevelOther int

datatype slog_method = ErrorContext | WarnContext | InfoContext | DebugContext

record slog_call =
  slMethod :: slog_method
  slMsg :: string
  slArgs :: "any_value list"

record obsLoggerAdapter =
  adL :: logger
  adAttrs :: "any_value list"
  adGroups :: "string list"

datatype obs_logger = NopLogger | Adapter obsLoggerAdapter

section \<open>Operations\<close>

definition isNilLogger :: "logger \<Rightarrow> bool" where
  "isNilLogger l =
     (case l of
        NilInterface \<Rightarrow> True
      | LoggerVal k isnil \<Rightarrow>
          (case k of KOther \<Rightarrow> False | _ \<Rightarrow> isnil))"

definition toObsLogger :: "logger \<Rightarrow> obs_logger" where
  "toObsLogger l =
     (if isNilLogger l then NopLogger else Adapter \<lparr>adL = l, adAttrs = [], adGroups = []\<rparr>)"

fun fieldsToArgs :: "string \<Rightarrow> log_field list \<Rightarrow> any_value list" where
  "fieldsToArgs prefix [] = []"
| "fieldsToArgs prefix (f # fs) =
     AStr (if prefix \<noteq> [] then prefix @ ''.'' @ fKey f else fKey f) # fValue f
       # fieldsToArgs prefix fs"

definition adapter_Log ::
    "obsLoggerAdapter \<Rightarrow> log_level \<Rightarrow> string \<Rightarrow> log_field list \<Rightarrow> slog_call" where
  "adapter_Log a level msg flds =
     (let prefix = join ''.'' (adGroups a);
          args = adAttrs a @ fieldsToArgs prefix flds
      in \<lparr>slMethod = (case level of
                        LevelError \<Rightarrow> ErrorContext
                      | LevelWarn \<Rightarrow> WarnContext
                      | LevelDebug \<Rightarrow> DebugContext
                      | _ \<Rightarrow> InfoContext),
          slMsg = msg, slArgs = args\<rparr>)"

definition adapter_With :: "obsLoggerAdapter \<Rightarrow> log_field list \<Rightarrow> obsLoggerAdapter" where
  "adapter_With a flds =
     (let prefix = join ''.'' (adGroups a)
      in a\<lparr>adAttrs := adAttrs a @ fieldsToArgs prefix flds\<rparr>)"

definition adapter_WithGroup :: "obsLoggerAdapter \<Rightarrow> string \<Rightarrow> obsLoggerAdapter" where
  "adapter_WithGroup a name = (if name = [] then a else a\<lparr>adGroups := adGroups a @ [name]\<rparr>)"

definition adapter_Enabled :: "obsLoggerAdapter \<Rightarrow> log_level \<Rightarrow> bool" where
  "adapter_Enabled a level = True"

definition adapter_Sync :: "obsLoggerAdapter \<Rightarrow> go_error option" where
  "adapter_Sync a = None"

text \<open>A chain of derivations, and the abstract reading of one: a field's key is qualified by the
  non-empty groups opened before the call that bound it.\<close>

datatype derivation = With "log_field list" | WithGroup string

fun derive :: "obsLoggerAdapter \<Rightarrow> derivation list \<Rightarrow> obsLoggerAdapter" where
  "derive a [] = a"
| "derive a (With fs # ds) = derive (adapter_With a fs) ds"
| "derive a (WithGroup g # ds) = derive (adapter_WithGroup a g) ds"

definition qualify :: "string list \<Rightarrow> log_field \<Rightarrow> any_value list" where
  "qualify groups f =
     [AStr (if groups = [] then fKey f else join ''.'' (groups @ [fKey f])), fValue f]"

fun spec_args :: "string list \<Rightarrow> derivation list \<Rightarrow> log_field list \<Rightarrow> any_value list" where
  "spec_args groups [] flds = concat (map (qualify groups) flds)"
| "spec_args groups (With fs # ds) flds =
     concat (map (qualify groups) fs) @ spec_args groups ds flds"
| "spec_args groups (WithGroup g # ds) flds =
     spec_args (if g = [] then groups else groups @ [g]) ds flds"

section \<open>Lemmas\<close>

lemma join_snoc: "gs \<noteq> [] \<Longrightarrow> join sep (gs @ [k]) = join sep gs @ sep @ k"
proof (induction sep gs rule: join.induct)
  case (3 sep x y ys)
  then show ?case by (cases ys) simp_all
qed simp_all

lemma join_nonempty: "gs \<noteq> [] \<Longrightarrow> [] \<notin> set gs \<Longrightarrow> join sep gs \<noteq> []"
  by (induction sep gs rule: join.induct) auto

lemma fieldsToArgs_qualify:
  "[] \<notin> set gs \<Longrightarrow> fieldsToArgs (join ''.'' gs) fs = concat (map (qualify gs) fs)"
proof (induction fs)
  case (Cons f fs)
  then show ?case
    using join_nonempty [of gs "''.''"] by (cases "gs = []") (simp_all add: qualify_def join_snoc)
qed simp

lemma fieldsToArgs_length: "length (fieldsToArgs p fs) = 2 * length fs"
  by (induction fs) simp_all

lemma derive_args:
  "[] \<notin> set (adGroups a) \<Longrightarrow>
     slArgs (adapter_Log (derive a ds) lvl msg flds) = adAttrs a @ spec_args (adGroups a) ds flds"
proof (induction ds arbitrary: a)
  case Nil
  then show ?case by (simp add: adapter_Log_def Let_def fieldsToArgs_qualify)
next
  case (Cons d ds)
  show ?case
  proof (cases d)
    case (With fs)
    with Cons show ?thesis
      by (simp add: adapter_With_def Let_def fieldsToArgs_qualify)
  next
    case (WithGroup g)
    with Cons show ?thesis by (simp add: adapter_WithGroup_def)
  qed
qed

lemma derive_logger: "adL (derive a ds) = adL a"
  by (induction a ds rule: derive.induct) (simp_all add: adapter_With_def adapter_WithGroup_def Let_def)

lemma isNilLogger_typed_nil: "isNilLogger (LoggerVal KPointer True)"
  by (simp add: isNilLogger_def)

section \<open>Properties\<close>

text \<open>The consumer's method for a level; a level the library does not know is logged as information.\<close>

fun method_of :: "log_level \<Rightarrow> slog_method" where
  "method_of LevelError = ErrorContext"
| "method_of LevelWarn = WarnContext"
| "method_of LevelInfo = InfoContext"
| "method_of LevelDebug = DebugContext"
| "method_of (LevelOther k) = InfoContext"

text \<open>
  C33. The adapter behaves as slog's own derivation: after any chain of With and WithGroup on a
  consumer's logger, a call is one call with the same message on the consumer's method of its level (error,
  warning, information and debug each on their own, an unknown level as information), and it passes the
  attributes bound on the way and then the call's own, in order, each key qualified by the groups that
  were open when it was bound (empty group names open nothing). A nil logger, also a typed nil, is never
  called: it becomes the no-op logger.
\<close>

theorem attributes_follow_slog:
  "(isNilLogger l \<longrightarrow> toObsLogger l = NopLogger)
   \<and> (\<not> isNilLogger l \<longrightarrow>
        (\<exists>a. toObsLogger l = Adapter a \<and> adL (derive a ds) = l
           \<and> adapter_Log (derive a ds) lvl msg flds
             = \<lparr>slMethod = method_of lvl, slMsg = msg, slArgs = spec_args [] ds flds\<rparr>))"
proof (intro conjI impI)
  assume n: "\<not> isNilLogger l"
  let ?a = "\<lparr>adL = l, adAttrs = [], adGroups = []\<rparr>"
  have "slArgs (adapter_Log (derive ?a ds) lvl msg flds) = spec_args [] ds flds"
    using derive_args [of ?a ds lvl msg flds] by simp
  then have "adapter_Log (derive ?a ds) lvl msg flds
      = \<lparr>slMethod = method_of lvl, slMsg = msg, slArgs = spec_args [] ds flds\<rparr>"
    by (cases lvl) (simp_all add: adapter_Log_def Let_def)
  with n derive_logger [of ?a ds] show "\<exists>a. toObsLogger l = Adapter a \<and> adL (derive a ds) = l
     \<and> adapter_Log (derive a ds) lvl msg flds
       = \<lparr>slMethod = method_of lvl, slMsg = msg, slArgs = spec_args [] ds flds\<rparr>"
    by (intro exI [of _ ?a]) (simp add: toObsLogger_def)
qed (simp add: toObsLogger_def)

theorem attributes_follow_slog_witness:
  "\<exists>a. toObsLogger (LoggerVal KPointer False) = Adapter a
     \<and> adapter_Log (derive a [WithGroup ''http'', With [\<lparr>fKey = ''id'', fValue = AInt 7\<rparr>], WithGroup []])
         LevelWarn ''m'' [\<lparr>fKey = ''code'', fValue = AInt 500\<rparr>]
       = \<lparr>slMethod = WarnContext, slMsg = ''m'',
          slArgs = [AStr ''http.id'', AInt 7, AStr ''http.code'', AInt 500]\<rparr>"
proof -
  have "\<not> isNilLogger (LoggerVal KPointer False)" by (simp add: isNilLogger_def)
  with attributes_follow_slog [of "LoggerVal KPointer False"
      "[WithGroup ''http'', With [\<lparr>fKey = ''id'', fValue = AInt 7\<rparr>], WithGroup []]" LevelWarn "''m''"
      "[\<lparr>fKey = ''code'', fValue = AInt 500\<rparr>]"]
  show ?thesis by (auto simp: qualify_def)
qed

end
