(* ===== verification/GoTime.thy ===== *)
theory GoTime
  imports GoStrings
begin

text \<open>
  Go's \<open>time.ParseDuration\<close> and \<open>Duration.String\<close>, byte for byte: the overflow checks on
  unsigned 64-bit values, and the fraction computed in float64 as the package does. The last
  section proves that parsing reads back every printed duration of at least one second, which
  is what the TTL of a health check goes through between the manager and the heartbeat.
\<close>

section \<open>Rounding to float64\<close>

text \<open>
  Round half to even of \<open>n / d\<close> to an integer, and the float64 nearest to \<open>n / d\<close> as a
  fraction (positive normal values only, the ones a duration's fraction needs): scale so that
  the significand has 53 bits, round it, scale back.
\<close>

definition round_even :: "nat \<Rightarrow> nat \<Rightarrow> nat" where
  "round_even n d =
     (let q = n div d; r = n mod d
      in if 2 * r < d then q else if 2 * r > d then q + 1 else if even q then q else q + 1)"

fun up_shift :: "nat \<Rightarrow> nat \<Rightarrow> nat \<Rightarrow> nat" where
  "up_shift 0 n d = 0"
| "up_shift (Suc k) n d = (if 2 * n < 2 ^ 53 * d then Suc (up_shift k (2 * n) d) else 0)"

fun down_shift :: "nat \<Rightarrow> nat \<Rightarrow> nat \<Rightarrow> nat" where
  "down_shift 0 n d = 0"
| "down_shift (Suc k) n d = (if n < 2 ^ 53 * d then 0 else Suc (down_shift k n (2 * d)))"

definition float64 :: "nat \<times> nat \<Rightarrow> nat \<times> nat" where
  "float64 v =
     (let (n, d) = v in
      if n = 0 then (0, 1)
      else if n < 2 ^ 53 * d
      then let s = up_shift 200 n d in (round_even (n * 2 ^ s) d, 2 ^ s)
      else let s = down_shift 200 n d in (round_even n (d * 2 ^ s) * 2 ^ s, 1))"

text \<open>\<open>uint64(float64(f) * (float64(unit) / scale))\<close>\<close>

definition frac_units :: "nat \<Rightarrow> nat \<Rightarrow> nat \<Rightarrow> nat" where
  "frac_units f u scale =
     (let (fn, fd) = float64 (f, 1);
          (un, ud) = float64 (u, scale);
          (n, d) = float64 (fn * un, fd * ud)
      in n div d)"

section \<open>Duration.String\<close>

text \<open>\<open>fmtFrac\<close>: the fraction \<open>v / 10^prec\<close> without trailing zeros, and the integer part.\<close>

fun fmt_frac :: "nat \<Rightarrow> nat \<Rightarrow> bool \<Rightarrow> string \<Rightarrow> string \<times> nat" where
  "fmt_frac 0 v pr acc = (if pr then CHR ''.'' # acc else acc, v)"
| "fmt_frac (Suc i) v pr acc =
     (let digit = v mod 10; pr' = (pr \<or> digit \<noteq> 0)
      in fmt_frac i (v div 10) pr' (if pr' then digit_char digit # acc else acc))"

definition micro_sign :: string where
  "micro_sign = [char_of (0xC2 :: nat), char_of (0xB5 :: nat)]"

definition small_duration :: "nat \<Rightarrow> string" where
  "small_duration u =
     (if u = 0 then ''0s''
      else if u < 1000 then nat_str u @ ''ns''
      else if u < 1000000
      then (let (fr, w) = fmt_frac 3 u False [] in nat_str w @ fr @ micro_sign @ ''s'')
      else (let (fr, w) = fmt_frac 6 u False [] in nat_str w @ fr @ ''ms''))"

definition large_duration :: "nat \<Rightarrow> string" where
  "large_duration u =
     (let (fr, secs) = fmt_frac 9 u False [];
          s = nat_str (secs mod 60) @ fr @ ''s'';
          mins = secs div 60
      in if mins = 0 then s
         else let m = nat_str (mins mod 60) @ ''m'' @ s; hours = mins div 60
              in if hours = 0 then m else nat_str hours @ ''h'' @ m)"

definition duration_string :: "duration \<Rightarrow> string" where
  "duration_string d =
     (let u = nat \<bar>d\<bar>;
          s = (if u < 1000000000 then small_duration u else large_duration u)
      in if d < 0 then CHR ''-'' # s else s)"

section \<open>ParseDuration\<close>

text \<open>\<open>leadingInt\<close>: the leading digits, None when the value passes \<open>1<<63\<close>.\<close>

fun leading_int :: "nat \<Rightarrow> string \<Rightarrow> (nat \<times> string) option" where
  "leading_int x [] = Some (x, [])"
| "leading_int x (c # s) =
     (if \<not> is_digit c then Some (x, c # s)
      else if x > 2 ^ 63 div 10 then None
      else let x' = x * 10 + digit_val c
           in if x' > 2 ^ 63 then None else leading_int x' s)"

text \<open>\<open>leadingFraction\<close>: digits past the 63-bit range are skipped.\<close>

fun leading_fraction :: "nat \<Rightarrow> nat \<Rightarrow> bool \<Rightarrow> string \<Rightarrow> nat \<times> nat \<times> string" where
  "leading_fraction x scale ovf [] = (x, scale, [])"
| "leading_fraction x scale ovf (c # s) =
     (if \<not> is_digit c then (x, scale, c # s)
      else if ovf then leading_fraction x scale True s
      else if x > (2 ^ 63 - 1) div 10 then leading_fraction x scale True s
      else let y = x * 10 + digit_val c
           in if y > 2 ^ 63 then leading_fraction x scale True s
              else leading_fraction y (scale * 10) False s)"

definition unit_of :: "string \<Rightarrow> nat option" where
  "unit_of u =
     (if u = ''ns'' then Some 1
      else if u = ''us'' \<or> u = micro_sign @ ''s''
              \<or> u = [char_of (0xCE :: nat), char_of (0xBC :: nat)] @ ''s'' then Some 1000
      else if u = ''ms'' then Some 1000000
      else if u = ''s'' then Some 1000000000
      else if u = ''m'' then Some 60000000000
      else if u = ''h'' then Some 3600000000000
      else None)"

definition is_unit_char :: "char \<Rightarrow> bool" where
  "is_unit_char c \<longleftrightarrow> c \<noteq> CHR ''.'' \<and> \<not> is_digit c"

text \<open>One round of the loop: a number, its fraction and its unit. None is an error.\<close>

definition duration_item :: "string \<Rightarrow> (nat \<times> string) option" where
  "duration_item s =
     (case leading_int 0 s of
        None \<Rightarrow> None
      | Some (v, s1) \<Rightarrow>
          let pre = length s1 \<noteq> length s;
              (f, scale, s2, post) =
                (case s1 of
                   c # t \<Rightarrow>
                     if c = CHR ''.''
                     then (case leading_fraction 0 1 False t of
                             (f, scale, t') \<Rightarrow> (f, scale, t', length t' \<noteq> length t))
                     else (0, 1, s1, False)
                 | [] \<Rightarrow> (0, 1, s1, False));
              u = takeWhile is_unit_char s2;
              rest = dropWhile is_unit_char s2
          in if \<not> pre \<and> \<not> post then None
             else if u = [] then None
             else (case unit_of u of
                     None \<Rightarrow> None
                   | Some unit \<Rightarrow>
                       if v > 2 ^ 63 div unit then None
                       else let w = v * unit + (if f > 0 then frac_units f unit scale else 0)
                            in if w > 2 ^ 63 then None else Some (w, rest)))"

text \<open>The loop. Every round consumes at least a unit character, so the string's length is enough fuel.\<close>

fun duration_items :: "nat \<Rightarrow> nat \<Rightarrow> string \<Rightarrow> nat option" where
  "duration_items fuel d [] = Some d"
| "duration_items 0 d (c # s) = None"
| "duration_items (Suc fuel) d (c # s) =
     (if \<not> (c = CHR ''.'' \<or> is_digit c) then None
      else case duration_item (c # s) of
        None \<Rightarrow> None
      | Some (v, rest) \<Rightarrow> if d + v > 2 ^ 63 then None else duration_items fuel (d + v) rest)"

definition parse_duration :: "string \<Rightarrow> duration option" where
  "parse_duration s0 =
     (let (neg, s) =
        (case s0 of
           [] \<Rightarrow> (False, s0)
         | c # t \<Rightarrow> if c = CHR ''-'' then (True, t) else if c = CHR ''+'' then (False, t)
                    else (False, s0))
      in if s = ''0'' then Some 0
         else if s = [] then None
         else case duration_items (length s) 0 s of
                None \<Rightarrow> None
              | Some d \<Rightarrow>
                  if neg then Some (- int d)
                  else if d > 2 ^ 63 - 1 then None else Some (int d))"

section \<open>Parsing reads back printing\<close>

lemma digits_value_mono: "x \<le> digits_value x ds"
proof (induction ds arbitrary: x)
  case (Cons c ds)
  have "x \<le> 10 * x + digit_val c" by simp
  also have "\<dots> \<le> digits_value (10 * x + digit_val c) ds" by (rule Cons.IH)
  finally show ?case by (simp add: digits_value_def)
qed (simp add: digits_value_def)

lemma digits_value_Cons: "digits_value x (c # ds) = digits_value (10 * x + digit_val c) ds"
  by (simp add: digits_value_def)

lemma leading_int_digits:
  assumes "list_all is_digit ds" "rest = [] \<or> \<not> is_digit (hd rest)" "digits_value x ds \<le> 2 ^ 63"
  shows "leading_int x (ds @ rest) = Some (digits_value x ds, rest)"
  using assms
proof (induction ds arbitrary: x)
  case Nil
  then show ?case by (cases rest) (auto simp: digits_value_def)
next
  case (Cons c ds)
  let ?y = "x * 10 + digit_val c"
  have y: "digits_value x (c # ds) = digits_value ?y ds"
    by (simp add: digits_value_Cons mult.commute)
  have "?y \<le> 2 ^ 63" using digits_value_mono [of ?y ds] Cons.prems(3) y by linarith
  moreover from this have "\<not> 2 ^ 63 div 10 < x" by linarith
  ultimately show ?case using Cons y by (simp add: Let_def)
qed

lemma leading_fraction_digits:
  assumes "list_all is_digit ds" "rest = [] \<or> \<not> is_digit (hd rest)" "digits_value x ds < 2 ^ 63"
  shows "leading_fraction x sc False (ds @ rest) = (digits_value x ds, sc * 10 ^ length ds, rest)"
  using assms
proof (induction ds arbitrary: x sc)
  case Nil
  then show ?case by (cases rest) (auto simp: digits_value_def)
next
  case (Cons c ds)
  let ?y = "x * 10 + digit_val c"
  have y: "digits_value x (c # ds) = digits_value ?y ds"
    by (simp add: digits_value_Cons mult.commute)
  have "?y < 2 ^ 63" using digits_value_mono [of ?y ds] Cons.prems(3) y by linarith
  moreover from this have "\<not> (2 ^ 63 - 1) div 10 < x" by linarith
  ultimately show ?case using Cons y by (simp add: Let_def mult.assoc)
qed

lemma round_even_exact: "d > 0 \<Longrightarrow> round_even (q * d) d = q"
  by (simp add: round_even_def Let_def)

lemma float64_exact:
  assumes "0 < q" "q < 2 ^ 53" "0 < d"
  shows "\<exists>s. float64 (q * d, d) = (q * 2 ^ s, 2 ^ s)"
proof -
  let ?s = "up_shift 200 (q * d) d"
  have "round_even (q * d * 2 ^ ?s) d = round_even ((q * 2 ^ ?s) * d) d"
    by (simp add: ac_simps)
  with assms have "float64 (q * d, d) = (q * 2 ^ ?s, 2 ^ ?s)"
    by (simp add: float64_def Let_def round_even_exact)
  then show ?thesis by blast
qed

lemma frac_units_exact:
  assumes f: "0 < f" "f < 10 ^ k" and k: "k \<le> 9"
  shows "frac_units f 1000000000 (10 ^ k) = f * 10 ^ (9 - k)"
proof -
  have le: "(10::nat) ^ (9 - k) \<le> 10 ^ 9" "(10::nat) ^ k \<le> 10 ^ 9"
    using k by (simp_all add: power_increasing del: power_numeral)
  have big: "(10::nat) ^ 9 < 2 ^ 53" by simp
  obtain a where a: "float64 (f, 1) = (f * 2 ^ a, 2 ^ a)"
    using float64_exact [of f 1] f le big by (metis less_trans less_le_trans mult.right_neutral zero_less_one)
  have "(1000000000::nat) = 10 ^ (9 - k) * 10 ^ k"
    using k by (simp add: power_add [symmetric])
  then obtain b where b: "float64 (1000000000, 10 ^ k) = (10 ^ (9 - k) * 2 ^ b, 2 ^ b)"
    using float64_exact [of "10 ^ (9 - k)" "10 ^ k"] le big by (metis le_less_trans zero_less_power zero_less_numeral)
  have "f * 10 ^ (9 - k) < 10 ^ k * 10 ^ (9 - k)" using f by simp
  also have "\<dots> = 10 ^ 9" using k by (simp add: power_add [symmetric])
  finally have small: "f * 10 ^ (9 - k) < 2 ^ 53" using big by linarith
  obtain c where c: "float64 ((f * 10 ^ (9 - k)) * 2 ^ (a + b), 2 ^ (a + b))
      = ((f * 10 ^ (9 - k)) * 2 ^ c, 2 ^ c)"
    using float64_exact [of "f * 10 ^ (9 - k)" "2 ^ (a + b)"] f small by auto
  have m: "(f * 2 ^ a) * (10 ^ (9 - k) * 2 ^ b) = (f * 10 ^ (9 - k)) * 2 ^ (a + b)"
    "(2::nat) ^ a * 2 ^ b = 2 ^ (a + b)"
    by (simp_all add: power_add)
  show ?thesis unfolding frac_units_def Let_def a b split_conv m c by simp
qed


text \<open>\<open>fmt_frac\<close> prints the fraction's digits.\<close>

definition frac_text :: "nat \<Rightarrow> nat \<Rightarrow> string \<Rightarrow> bool" where
  "frac_text i r fr \<longleftrightarrow>
     (r = 0 \<and> fr = [])
     \<or> 0 < r \<and> (\<exists>ds. fr = CHR ''.'' # ds \<and> ds \<noteq> [] \<and> list_all is_digit ds \<and> length ds \<le> i
           \<and> digits_value 0 ds * 10 ^ (i - length ds) = r)"

lemma mod_10_Suc: "(v::nat) mod (10 * 10 ^ i) = 10 * (v div 10 mod 10 ^ i) + v mod 10"
  using mod_mult2_eq [of v 10 "10 ^ i"] by simp

lemma digits_value_snoc: "digits_value x (ds @ [c]) = 10 * digits_value x ds + digit_val c"
  by (simp add: digits_value_def)

lemma fmt_frac_printing:
  "\<exists>ds. fmt_frac i v True acc = (CHR ''.'' # ds @ acc, v div 10 ^ i) \<and> length ds = i
     \<and> list_all is_digit ds \<and> digits_value 0 ds = v mod 10 ^ i"
proof (induction i arbitrary: v acc)
  case 0
  show ?case by (rule exI [of _ "[]"]) (simp add: digits_value_def)
next
  case (Suc i)
  obtain ds where ds: "fmt_frac i (v div 10) True (digit_char (v mod 10) # acc)
        = (CHR ''.'' # ds @ digit_char (v mod 10) # acc, v div 10 div 10 ^ i)"
      "length ds = i" "list_all is_digit ds" "digits_value 0 ds = v div 10 mod 10 ^ i"
    using Suc.IH by blast
  show ?case
  proof (rule exI [of _ "ds @ [digit_char (v mod 10)]"], intro conjI)
    show "fmt_frac (Suc i) v True acc =
        (CHR ''.'' # (ds @ [digit_char (v mod 10)]) @ acc, v div 10 ^ Suc i)"
      using ds(1) by (simp add: Let_def div_mult2_eq)
    show "digits_value 0 (ds @ [digit_char (v mod 10)]) = v mod 10 ^ Suc i"
      by (simp add: digits_value_snoc ds(4) mod_10_Suc)
  qed (use ds in auto)
qed

lemma fmt_frac_text:
  "\<exists>fr. fmt_frac i v False [] = (fr, v div 10 ^ i) \<and> frac_text i (v mod 10 ^ i) fr"
proof (induction i arbitrary: v)
  case 0
  show ?case by (simp add: frac_text_def)
next
  case (Suc i)
  show ?case
  proof (cases "v mod 10 = 0")
    case False
    obtain ds where ds: "fmt_frac i (v div 10) True [digit_char (v mod 10)]
          = (CHR ''.'' # ds @ [digit_char (v mod 10)], v div 10 div 10 ^ i)"
        "length ds = i" "list_all is_digit ds" "digits_value 0 ds = v div 10 mod 10 ^ i"
      using fmt_frac_printing by blast
    have "fmt_frac (Suc i) v False [] =
        (CHR ''.'' # (ds @ [digit_char (v mod 10)]), v div 10 ^ Suc i)"
      using False ds(1) by (simp add: Let_def div_mult2_eq)
    moreover have "frac_text (Suc i) (v mod 10 ^ Suc i) (CHR ''.'' # (ds @ [digit_char (v mod 10)]))"
      using ds False by (simp add: frac_text_def digits_value_snoc mod_10_Suc)
    ultimately show ?thesis by blast
  next
    case True
    obtain fr where fr: "fmt_frac i (v div 10) False [] = (fr, v div 10 div 10 ^ i)"
        "frac_text i (v div 10 mod 10 ^ i) fr"
      using Suc.IH by blast
    have "frac_text (Suc i) (v mod 10 ^ Suc i) fr"
      using fr(2) True unfolding frac_text_def
      by (auto simp: Suc_diff_le mod_10_Suc)
    moreover have "fmt_frac (Suc i) v False [] = (fr, v div 10 ^ Suc i)"
      using True fr(1) by (simp add: Let_def div_mult2_eq)
    ultimately show ?thesis by blast
  qed
qed


lemma frac_text_value_less:
  assumes "list_all is_digit ds" shows "digits_value 0 ds < 10 ^ length ds"
  using assms
proof (induction ds rule: rev_induct)
  case (snoc c ds)
  then have "digit_val c < 10" by (auto simp: digit_val_def is_digit_def)
  with snoc show ?case by (simp add: digits_value_snoc)
qed (simp add: digits_value_def)

definition unit_text :: "string \<Rightarrow> nat \<Rightarrow> bool" where
  "unit_text u n \<longleftrightarrow> unit_of u = Some n \<and> u \<noteq> [] \<and> list_all is_unit_char u \<and> 0 < n"

lemma unit_texts:
  "unit_text ''s'' 1000000000" "unit_text ''m'' 60000000000" "unit_text ''h'' 3600000000000"
  by (simp_all add: unit_text_def unit_of_def micro_sign_def is_unit_char_def is_digit_def)

lemma unit_text_hd: "unit_text u n \<Longrightarrow> \<not> is_digit (hd (u @ rest)) \<and> hd (u @ rest) \<noteq> CHR ''.''"
  by (cases u) (auto simp: unit_text_def is_unit_char_def)

lemma unit_text_split:
  assumes "unit_text u n" "rest = [] \<or> is_digit (hd rest)"
  shows "takeWhile is_unit_char (u @ rest) = u" "dropWhile is_unit_char (u @ rest) = rest"
proof -
  have "\<forall>x \<in> set u. is_unit_char x" using assms(1) by (simp add: unit_text_def list_all_iff)
  moreover have "rest = [] \<or> \<not> is_unit_char (hd rest)"
    using assms(2) by (auto simp: is_unit_char_def)
  ultimately show "takeWhile is_unit_char (u @ rest) = u" "dropWhile is_unit_char (u @ rest) = rest"
    by (rule take_while_append_stop, rule drop_while_append_stop)
qed

lemma le_div_unit: "0 < (n::nat) \<Longrightarrow> v * n \<le> b \<Longrightarrow> \<not> b div n < v"
  by (simp add: less_eq_div_iff_mult_less_eq not_less)

lemma duration_item_int:
  assumes u: "unit_text u n" and rest: "rest = [] \<or> is_digit (hd rest)"
    and bound: "v * n \<le> 2 ^ 63"
  shows "duration_item (nat_str v @ u @ rest) = Some (v * n, rest)"
proof -
  have pos: "0 < n" "u \<noteq> []" "unit_of u = Some n" using u by (auto simp: unit_text_def)
  have "v \<le> v * n" using pos(1) by simp
  also note bound
  finally have "v \<le> 2 ^ 63" .
  then have li: "leading_int 0 (nat_str v @ u @ rest) = Some (v, u @ rest)"
    using leading_int_digits [of "nat_str v" "u @ rest" 0] unit_text_hd [OF u] nat_str_digits
    by simp
  have nd: "(case u @ rest of c # t \<Rightarrow> if c = CHR ''.''
        then (case leading_fraction 0 1 False t of (f, scale, t') \<Rightarrow> (f, scale, t', length t' \<noteq> length t))
        else (0, 1, u @ rest, False) | [] \<Rightarrow> (0, 1, u @ rest, False)) = (0, 1, u @ rest, False)"
    using unit_text_hd [OF u, of rest] pos(2) by (cases "u @ rest") auto
  show ?thesis
    unfolding duration_item_def li option.case split_conv Let_def nd
    using pos bound le_div_unit [OF pos(1) bound] by (simp add: unit_text_split [OF u rest])
qed

lemma duration_item_frac:
  assumes fr: "frac_text 9 r fr" and r: "0 < r"
    and bound: "v * 1000000000 + r \<le> 2 ^ 63"
  shows "duration_item (nat_str v @ fr @ ''s'') = Some (v * 1000000000 + r, [])"
proof -
  obtain ds where ds: "fr = CHR ''.'' # ds" "ds \<noteq> []" "list_all is_digit ds" "length ds \<le> 9"
      "digits_value 0 ds * 10 ^ (9 - length ds) = r"
    using fr r by (auto simp: frac_text_def)
  let ?f = "digits_value 0 ds"
  have dig: "\<not> is_digit (CHR ''.'')" "\<not> is_digit (CHR ''s'')" by (simp_all add: is_digit_def)
  have f: "0 < ?f" "?f < 10 ^ length ds"
    using r ds(5) frac_text_value_less [OF ds(3)] by (auto intro: gr0I)
  have "(10::nat) ^ length ds \<le> 10 ^ 9" using ds(4) by (intro power_increasing) simp_all
  with f(2) have "?f < 2 ^ 63" by simp
  then have lf: "leading_fraction 0 1 False (ds @ ''s'') = (?f, 10 ^ length ds, ''s'')"
    using leading_fraction_digits [of ds "''s''" 0 1] ds(3) dig by simp
  have li: "leading_int 0 (nat_str v @ fr @ ''s'') = Some (v, CHR ''.'' # ds @ ''s'')"
    using leading_int_digits [of "nat_str v" "fr @ ''s''" 0] ds(1) nat_str_digits dig bound
    by simp
  have fu: "frac_units ?f 1000000000 (10 ^ length ds) = r"
    using frac_units_exact [OF f ds(4)] ds(5) by simp
  have s: "takeWhile is_unit_char ''s'' = ''s''" "dropWhile is_unit_char ''s'' = []"
      "unit_of ''s'' = Some 1000000000"
    using unit_text_split [OF unit_texts(1), of "[]"] unit_texts(1) by (auto simp: unit_text_def)
  have b: "\<not> 2 ^ 63 div 1000000000 < v" using bound by (intro le_div_unit) simp_all
  show ?thesis
    unfolding duration_item_def li option.case split_conv Let_def list.case if_True lf
    using s b bound f(1) fu ds(2) by simp
qed


lemma duration_items_mono:
  "duration_items n d s = Some r \<Longrightarrow> n \<le> m \<Longrightarrow> duration_items m d s = Some r"
proof (induction n arbitrary: d s m)
  case 0
  then show ?case by (cases s) simp_all
next
  case (Suc n)
  obtain m' where m: "m = Suc m'" "n \<le> m'" using Suc.prems(2) by (cases m) auto
  show ?case
  proof (cases s)
    case Nil
    then show ?thesis using Suc.prems(1) by simp
  next
    case (Cons c t)
    with Suc.prems(1) obtain v rest where
      "c = CHR ''.'' \<or> is_digit c" "duration_item s = Some (v, rest)" "\<not> 2 ^ 63 < d + v"
      "duration_items n (d + v) rest = Some r"
      by (simp split: if_splits option.splits prod.splits)
    with Suc.IH [of "d + v" rest m'] m Cons show ?thesis by simp
  qed
qed

lemma duration_items_step:
  assumes "duration_item s = Some (v, rest)" "is_digit (hd s)" "s \<noteq> []" "d + v \<le> 2 ^ 63"
  shows "duration_items (Suc k) d s = duration_items k (d + v) rest"
  using assms by (cases s) auto

text \<open>The seconds, with or without a fraction.\<close>

lemma seconds_item:
  assumes fr: "frac_text 9 r fr" and bound: "v * 1000000000 + r \<le> 2 ^ 63"
  shows "duration_item (nat_str v @ fr @ ''s'') = Some (v * 1000000000 + r, [])"
proof (cases "r = 0")
  case True
  with fr have "fr = []" by (simp add: frac_text_def)
  with duration_item_int [OF unit_texts(1), of "[]" v] bound True show ?thesis by simp
next
  case False
  with duration_item_frac [OF fr _ bound] show ?thesis by simp
qed


lemma hd_nat_str_append: "is_digit (hd (nat_str v @ s))" "nat_str v @ s \<noteq> []"
  using nat_str_hd_digit [of v] by (simp_all add: hd_append)

lemma nat_str_length: "1 \<le> length (nat_str n)"
  by (cases "nat_str n") auto

lemma large_duration_items:
  assumes "u < 2 ^ 63"
  shows "duration_items (length (large_duration u)) 0 (large_duration u) = Some u"
proof -
  obtain fr where fr: "fmt_frac 9 u False [] = (fr, u div 10 ^ 9)" "frac_text 9 (u mod 10 ^ 9) fr"
    using fmt_frac_text by blast
  define secs where "secs = u div 10 ^ 9"
  define r where "r = u mod 10 ^ 9"
  define m where "m = secs div 60"
  define h where "h = m div 60"
  define S where "S = (secs mod 60) * 1000000000 + r"
  define M where "M = (m mod 60) * 60000000000"
  define H where "H = h * 3600000000000"
  have "u = secs * 1000000000 + r" by (simp add: secs_def r_def)
  moreover have "secs = m * 60 + secs mod 60" "m = h * 60 + m mod 60"
    by (simp_all add: m_def h_def)
  ultimately have total: "u = H + M + S" unfolding S_def M_def H_def by linarith
  with assms have b: "S \<le> 2 ^ 63" "M \<le> 2 ^ 63" "H \<le> 2 ^ 63" "H + M \<le> 2 ^ 63" "H + M + S \<le> 2 ^ 63"
    by linarith+
  define st where "st = nat_str (secs mod 60) @ fr @ ''s''"
  define mt where "mt = nat_str (m mod 60) @ ''m'' @ st"
  have st: "duration_item st = Some (S, [])"
    unfolding st_def S_def
    by (rule seconds_item) (use fr(2) b(1) in \<open>simp_all add: r_def S_def\<close>)
  have hs: "is_digit (hd st)" "st \<noteq> []" "is_digit (hd mt)" "mt \<noteq> []"
    unfolding st_def mt_def by (rule hd_nat_str_append)+
  have mt: "duration_item mt = Some (M, st)"
    unfolding mt_def M_def
    by (rule duration_item_int [OF unit_texts(2)]) (use hs b(2) in \<open>simp_all add: M_def\<close>)
  have ht: "duration_item (nat_str h @ ''h'' @ mt) = Some (H, mt)"
    unfolding H_def
    by (rule duration_item_int [OF unit_texts(3)]) (use hs b(3) in \<open>simp_all add: H_def\<close>)
  have one: "duration_items 1 d st = Some (d + S)" if "d + S \<le> 2 ^ 63" for d
    using duration_items_step [OF st hs(1,2) that, of 0] by simp
  have two: "duration_items 2 d mt = Some (d + M + S)" if "d + M + S \<le> 2 ^ 63" for d
    using duration_items_step [OF mt hs(3,4), of d 1] one [OF that] that by (simp add: numeral_2_eq_2)
  have len: "1 \<le> length st" "2 \<le> length mt" "3 \<le> length (nat_str h @ ''h'' @ mt)"
    using nat_str_length [of "secs mod 60"] nat_str_length [of "m mod 60"] nat_str_length [of h]
    by (simp_all add: st_def mt_def)
  have shape: "large_duration u =
      (if m = 0 then st else if h = 0 then mt else nat_str h @ ''h'' @ mt)"
    using fr(1) by (simp add: large_duration_def Let_def m_def h_def secs_def st_def mt_def)
  consider "m = 0" | "m \<noteq> 0" "h = 0" | "m \<noteq> 0" "h \<noteq> 0" by blast
  then show ?thesis
  proof cases
    case 1
    then have "H = 0" "M = 0" by (simp_all add: H_def M_def h_def)
    then have "duration_items 1 0 st = Some u" using one [of 0] b(1) total by simp
    then show ?thesis using duration_items_mono [OF _ len(1)] shape 1 by simp
  next
    case 2
    then have "H = 0" by (simp add: H_def)
    then have "duration_items 2 0 mt = Some u" using two [of 0] b(5) total by simp
    then show ?thesis using duration_items_mono [OF _ len(2)] shape 2 by simp
  next
    case 3
    have "duration_items 3 0 (nat_str h @ ''h'' @ mt) = duration_items 2 H mt"
      using duration_items_step [OF ht hd_nat_str_append, of 0 2] b(3) by (simp add: numeral_3_eq_3)
    also have "\<dots> = Some u" using two [OF b(5)] total by simp
    finally show ?thesis using duration_items_mono [OF _ len(3)] shape 3 by simp
  qed
qed

lemma large_duration_shape: "\<exists>a t. large_duration u = nat_str a @ t \<and> t \<noteq> []"
proof -
  obtain fr secs where "fmt_frac 9 u False [] = (fr, secs)" by (cases "fmt_frac 9 u False []")
  then show ?thesis
    by (cases "secs div 60 = 0"; cases "secs div 60 div 60 = 0")
       (force simp: large_duration_def Let_def)+
qed

lemma parse_duration_string:
  assumes "second \<le> d" "int64_range d"
  shows "parse_duration (duration_string d) = Some d"
proof -
  let ?u = "nat d" and ?s = "large_duration (nat d)"
  have u: "?u < 2 ^ 63" and big: "\<not> ?u < 1000000000" "\<not> d < 0"
    using assms by (auto simp: int64_range_def)
  have it: "duration_items (length ?s) 0 ?s = Some ?u" by (rule large_duration_items [OF u])
  have str: "duration_string d = ?s" using big by (simp add: duration_string_def)
  obtain a t where s: "?s = nat_str a @ t" "t \<noteq> []"
    using large_duration_shape by blast
  obtain c cs where c: "?s = c # cs" "is_digit c" "cs \<noteq> []"
    using s nat_str_hd_digit [of a] by (cases "nat_str a") auto
  have "c \<noteq> CHR ''-''" "c \<noteq> CHR ''+''" using c(2) by auto
  then show ?thesis
    using c it u big by (simp add: parse_duration_def str Let_def)
qed

lemma duration_items_bound: "duration_items n d s = Some r \<Longrightarrow> d \<le> 2 ^ 63 \<Longrightarrow> r \<le> 2 ^ 63"
proof (induction n arbitrary: d s)
  case 0
  then show ?case by (cases s) auto
next
  case (Suc n)
  then show ?case by (cases s) (auto split: option.splits if_splits prod.splits)
qed

lemma parse_duration_range:
  assumes "parse_duration s = Some d" shows "int64_range d"
proof -
  have *: "r \<le> 2 ^ 63" if "duration_items n 0 t = Some r" for n t r
    using duration_items_bound [OF that] by simp
  then have i: "int r \<le> 2 ^ 63" if "duration_items n 0 t = Some r" for n t r
    using of_nat_mono [OF * [OF that], where 'a = int] by simp
  show ?thesis
    using assms i unfolding parse_duration_def int64_range_def
    by (fastforce simp: Let_def split: list.splits if_splits option.splits)
qed

end
