(* ===== verification/GoUrl.thy ===== *)
theory GoUrl
  imports GoStrings
begin

text \<open>
  The part of Go's \<open>net/url\<close> the configuration uses: \<open>url.Parse\<close> (which error, and the scheme and
  host of the result), \<open>URL.Hostname\<close> and \<open>URL.Port\<close>, after the package of the Go version in
  \<open>go.mod\<close> (1.26): control characters, scheme, opaque and rootless forms, user information,
  percent escapes, the port, and bracketed IPv6 literals.
\<close>

section \<open>String cuts\<close>

text \<open>\<open>strings.Cut\<close> at the first occurrence of a byte: before, after, found.\<close>

fun cut :: "char \<Rightarrow> string \<Rightarrow> string \<times> string \<times> bool" where
  "cut x [] = ([], [], False)"
| "cut x (c # s) =
     (if c = x then ([], s, True) else case cut x s of (a, b, f) \<Rightarrow> (c # a, b, f))"

text \<open>Cut at the last occurrence.\<close>

definition cut_last :: "char \<Rightarrow> string \<Rightarrow> string \<times> string \<times> bool" where
  "cut_last x s =
     (case cut x (rev s) of (b, a, f) \<Rightarrow> if f then (rev a, rev b, True) else (s, [], False))"

definition count_char :: "char \<Rightarrow> string \<Rightarrow> nat" where
  "count_char x s = length (filter (\<lambda>c. c = x) s)"

definition is_alpha :: "char \<Rightarrow> bool" where
  "is_alpha c \<longleftrightarrow> 65 \<le> byte c \<and> byte c \<le> 90 \<or> 97 \<le> byte c \<and> byte c \<le> 122"

definition is_hex :: "char \<Rightarrow> bool" where
  "is_hex c \<longleftrightarrow> is_digit c \<or> 97 \<le> byte c \<and> byte c \<le> 102 \<or> 65 \<le> byte c \<and> byte c \<le> 70"

definition unhex :: "char \<Rightarrow> nat" where
  "unhex c = (if is_digit c then byte c - 48 else if byte c \<ge> 97 then byte c - 87 else byte c - 55)"

definition is_ctl :: "char \<Rightarrow> bool" where
  "is_ctl c \<longleftrightarrow> byte c < 32 \<or> byte c = 127"

section \<open>Percent escapes\<close>

text \<open>
  \<open>unescape\<close> in the modes that matter here. In a host, only escapes of non-ASCII bytes (and of
  \<open>%\<close> itself, written \<open>%25\<close>) are allowed and no ASCII byte that would need escaping may occur;
  a zone may hold any escape; the other modes only need well-formed escapes.
\<close>

datatype esc_mode = EncHost | EncZone | EncOther

definition host_char_ok :: "char \<Rightarrow> bool" where
  "host_char_ok c \<longleftrightarrow>
     is_alpha c \<or> is_digit c \<or> c \<in> set ''!$&()*+,;=:[]<>-_.~'' \<or> byte c = 39 \<or> byte c = 34"

definition zone_escape_ok :: "nat \<Rightarrow> char \<Rightarrow> char \<Rightarrow> bool" where
  "zone_escape_ok v a b \<longleftrightarrow>
     (a = CHR ''2'' \<and> b = CHR ''5'') \<or> v = 32 \<or> host_char_ok (char_of v) \<or> 128 \<le> v"

fun unescape :: "esc_mode \<Rightarrow> string \<Rightarrow> string option" where
  "unescape md [] = Some []"
| "unescape md (c # s) =
     (if c = CHR ''%''
      then (case s of
              a # b # t \<Rightarrow>
                if \<not> (is_hex a \<and> is_hex b) then None
                else let v = 16 * unhex a + unhex b in
                  if md = EncHost \<and> unhex a < 8 \<and> \<not> (a = CHR ''2'' \<and> b = CHR ''5'') then None
                  else if md = EncZone \<and> \<not> zone_escape_ok v a b then None
                  else map_option ((#) (char_of v)) (unescape md t)
            | _ \<Rightarrow> None)
      else if md \<noteq> EncOther \<and> byte c < 128 \<and> \<not> host_char_ok c then None
      else map_option ((#) c) (unescape md s))"

section \<open>Addresses\<close>

text \<open>\<open>netip.ParseAddr\<close> on a bracketed host: only an IPv6 address passes.\<close>

definition ipv4_field_ok :: "string \<Rightarrow> bool" where
  "ipv4_field_ok f \<longleftrightarrow>
     f \<noteq> [] \<and> list_all is_digit f \<and> (length f > 1 \<longrightarrow> hd f \<noteq> CHR ''0'')
     \<and> length f \<le> 3 \<and> digits_value 0 f \<le> 255"

fun split_on :: "char \<Rightarrow> string \<Rightarrow> string list" where
  "split_on x [] = [[]]"
| "split_on x (c # s) =
     (if c = x then [] # split_on x s
      else case split_on x s of p # ps \<Rightarrow> (c # p) # ps | [] \<Rightarrow> [[c]])"

definition ipv4_ok :: "string \<Rightarrow> bool" where
  "ipv4_ok s \<longleftrightarrow> (let fs = split_on (CHR ''.'') s in length fs = 4 \<and> list_all ipv4_field_ok fs)"

text \<open>
  The field loop: \<open>i\<close> bytes of the address are read, \<open>ell\<close> says whether and where \<open>::\<close> occurred.
  Every round consumes a hexadecimal digit, so the string's length is enough fuel.
\<close>

fun ipv6_fields :: "nat \<Rightarrow> nat \<Rightarrow> nat option \<Rightarrow> string \<Rightarrow> bool" where
  "ipv6_fields 0 i ell s = False"
| "ipv6_fields (Suc k) i ell s =
     (let done = (\<lambda>i rest ell. rest = []
                    \<and> (if i < 16 then ell \<noteq> None else ell = None));
          h = takeWhile is_hex s; rest = dropWhile is_hex s
      in if i \<ge> 16 then done i s ell
         else if h = [] \<or> length h > 4 then False
         else (case rest of
             [] \<Rightarrow> done (i + 2) [] ell
           | c # t \<Rightarrow>
               if c = CHR ''.''
               then (ell \<noteq> None \<or> i = 12) \<and> i + 4 \<le> 16 \<and> ipv4_ok s \<and> done (i + 4) [] ell
               else if c \<noteq> CHR '':'' then False
               else if t = [] then False
               else if hd t = CHR '':''
               then (if ell \<noteq> None then False
                     else if tl t = [] then done (i + 2) [] (Some (i + 2))
                     else if i + 2 \<ge> 16 then False
                     else ipv6_fields k (i + 2) (Some (i + 2)) (tl t))
               else if i + 2 \<ge> 16 then False
               else ipv6_fields k (i + 2) ell t))"

definition ipv6_ok :: "string \<Rightarrow> bool" where
  "ipv6_ok s0 =
     (let (s, zone, has_zone) = cut (CHR ''%'') s0
      in CHR '':'' \<in> set s
         \<and> \<not> (has_zone \<and> zone = [])
         \<and> \<not> (CHR ''.'' \<in> set (takeWhile (\<lambda>c. c \<noteq> CHR '':'') s))
         \<and> (if take 2 s = ''::''
            then (drop 2 s = [] \<or> ipv6_fields (length s) 0 (Some 0) (drop 2 s))
            else ipv6_fields (length s) 0 None s))"

section \<open>Hosts\<close>

definition validOptionalPort :: "string \<Rightarrow> bool" where
  "validOptionalPort port \<longleftrightarrow>
     (case port of [] \<Rightarrow> True | c # ds \<Rightarrow> c = CHR '':'' \<and> list_all is_digit ds)"

definition index_pct25 :: "string \<Rightarrow> nat option" where
  "index_pct25 s =
     (case filter (\<lambda>i. take 3 (drop i s) = ''%25'') [0..<length s] of [] \<Rightarrow> None | i # _ \<Rightarrow> Some i)"

definition parse_bracket_host :: "string \<Rightarrow> string option" where
  "parse_bracket_host host =
     (let (inner, colonPort, closed) = cut_last (CHR '']'') (tl host)
      in if \<not> closed \<or> \<not> validOptionalPort colonPort then None
         else let name = (case index_pct25 inner of
                            None \<Rightarrow> unescape EncHost inner
                          | Some z \<Rightarrow>
                              (case (unescape EncHost (take z inner), unescape EncZone (drop z inner)) of
                                 (Some a, Some b) \<Rightarrow> Some (a @ b)
                               | _ \<Rightarrow> None))
              in (case name of
                    None \<Rightarrow> None
                  | Some n \<Rightarrow> if ipv6_ok n then Some (''['' @ n @ '']'' @ colonPort) else None))"

definition parse_host :: "string \<Rightarrow> string \<Rightarrow> string option" where
  "parse_host scheme host =
     (if CHR ''['' \<in> set host
      then (if hd host = CHR ''['' \<and> CHR ''['' \<notin> set (tl host) then parse_bracket_host host
            else None)
      else let (_, after, colon) =
                 (if scheme = ''postgres'' \<or> scheme = ''postgresql'' then cut_last (CHR '':'') host
                  else cut (CHR '':'') host)
           in if colon \<and> \<not> validOptionalPort (CHR '':'' # after) then None
              else unescape EncHost host)"

definition userinfo_char_ok :: "char \<Rightarrow> bool" where
  "userinfo_char_ok c \<longleftrightarrow>
     is_alpha c \<or> is_digit c \<or> c \<in> set ''-._:~!$&()*+,;=%@'' \<or> byte c = 39"

definition parse_authority :: "string \<Rightarrow> string \<Rightarrow> string option" where
  "parse_authority scheme auth =
     (let (user, h, at) = cut_last (CHR ''@'') auth
      in case parse_host scheme (if at then h else auth) of
           None \<Rightarrow> None
         | Some host \<Rightarrow>
             if \<not> at then Some host
             else if \<not> list_all userinfo_char_ok user then None
             else if unescape EncOther user = None then None
             else Some host)"

section \<open>Parse\<close>

text \<open>\<open>getScheme\<close>: None is an error, otherwise the scheme (possibly empty) and the rest.\<close>

fun get_scheme_at :: "nat \<Rightarrow> string \<Rightarrow> string \<Rightarrow> string \<Rightarrow> (string \<times> string) option" where
  "get_scheme_at i pre [] whole = Some ([], whole)"
| "get_scheme_at i pre (c # s) whole =
     (if is_alpha c then get_scheme_at (Suc i) (pre @ [c]) s whole
      else if is_digit c \<or> c \<in> set ''+-.''
      then (if i = 0 then Some ([], whole) else get_scheme_at (Suc i) (pre @ [c]) s whole)
      else if c = CHR '':'' then (if i = 0 then None else Some (pre, s))
      else Some ([], whole))"

record url =
  uScheme :: string
  uHost :: string

definition url_parse :: "string \<Rightarrow> url option" where
  "url_parse raw =
     (let (u, frag, _) = cut (CHR ''#'') raw in
      if list_ex is_ctl u then None
      else if u = ''*'' then
        (if unescape EncOther frag = None then None else Some \<lparr>uScheme = [], uHost = []\<rparr>)
      else case get_scheme_at 0 [] u u of
        None \<Rightarrow> None
      | Some (scheme0, rest0) \<Rightarrow>
          let scheme = to_lower scheme0;
              rest = (if rest0 \<noteq> [] \<and> last rest0 = CHR ''?'' \<and> count_char (CHR ''?'') rest0 = 1
                      then butlast rest0 else fst (cut (CHR ''?'') rest0));
              rootless = (rest = [] \<or> hd rest \<noteq> CHR ''/'')
          in if rootless \<and> scheme \<noteq> []
             then (if unescape EncOther frag = None then None
                   else Some \<lparr>uScheme = scheme, uHost = []\<rparr>)
             else if rootless \<and> CHR '':'' \<in> set (fst (cut (CHR ''/'') rest)) then None
             else let hasAuth = (scheme \<noteq> [] \<or> take 3 rest \<noteq> ''///'') \<and> take 2 rest = ''//'';
                      (auth, path) =
                        (if hasAuth
                         then (case cut (CHR ''/'') (drop 2 rest) of
                                 (a, b, f) \<Rightarrow> (a, if f then CHR ''/'' # b else []))
                         else ([], rest));
                      host = (if hasAuth then parse_authority scheme auth else Some [])
                  in (case host of
                        None \<Rightarrow> None
                      | Some h \<Rightarrow>
                          if unescape EncOther path = None \<or> unescape EncOther frag = None then None
                          else Some \<lparr>uScheme = scheme, uHost = h\<rparr>))"

text \<open>\<open>splitHostPort\<close>, and the two accessors of a URL.\<close>

definition split_host_port :: "string \<Rightarrow> string \<times> string" where
  "split_host_port hp =
     (let (before, after, colon) = cut_last (CHR '':'') hp;
          (host, port) = (if colon \<and> validOptionalPort (CHR '':'' # after) then (before, after)
                          else (hp, []));
          host' = (if host \<noteq> [] \<and> hd host = CHR ''['' \<and> last host = CHR '']''
                   then butlast (tl host) else host)
      in (host', port))"

definition url_Hostname :: "url \<Rightarrow> string" where
  "url_Hostname u = fst (split_host_port (uHost u))"

definition url_Port :: "url \<Rightarrow> string" where
  "url_Port u = snd (split_host_port (uHost u))"

section \<open>Plain hosts\<close>

text \<open>A plain host name: letters, digits, dots and hyphens. No colon, no brackets, no escapes.\<close>

definition plain_char :: "char \<Rightarrow> bool" where
  "plain_char c \<longleftrightarrow> is_alpha c \<or> is_digit c \<or> c = CHR ''.'' \<or> c = CHR ''-''"

definition plain_host :: "string \<Rightarrow> bool" where
  "plain_host h \<longleftrightarrow> h \<noteq> [] \<and> list_all plain_char h"

lemma cut_absent: "x \<notin> set s \<Longrightarrow> cut x s = (s, [], False)"
  by (induction s) auto

lemma cut_append: "x \<notin> set s \<Longrightarrow> cut x (s @ x # t) = (s, t, True)"
  by (induction s) auto

lemma cut_last_absent: "x \<notin> set s \<Longrightarrow> cut_last x s = (s, [], False)"
  by (simp add: cut_last_def cut_absent)

lemma cut_last_append: "x \<notin> set t \<Longrightarrow> cut_last x (s @ x # t) = (s, t, True)"
  by (simp add: cut_last_def cut_append)

lemma plain_char_not [simp]:
  "plain_char c \<Longrightarrow> c \<noteq> CHR '':''" "plain_char c \<Longrightarrow> c \<noteq> CHR ''/''" "plain_char c \<Longrightarrow> c \<noteq> CHR ''#''"
  "plain_char c \<Longrightarrow> c \<noteq> CHR ''?''" "plain_char c \<Longrightarrow> c \<noteq> CHR ''@''" "plain_char c \<Longrightarrow> c \<noteq> CHR ''[''"
  "plain_char c \<Longrightarrow> c \<noteq> CHR ''%''"
  by (auto simp: plain_char_def is_alpha_def is_digit_def byte_def)

end
