(* ===== verification/Config.thy ===== *)
theory Config
  imports Logger GoTime GoUrl
begin

text \<open>
  The configuration of \<open>config.go\<close>: loading it from the environment (a function from variable
  names to values, empty when unset), its defaults and validation, the splitting of advertised
  URLs, and the normalisation of a TTL.
\<close>

section \<open>Constants and the Config record\<close>

definition defaultDialTimeout :: duration where "defaultDialTimeout = 5 * second"
definition defaultTLSHandshakeTimeout :: duration where "defaultTLSHandshakeTimeout = 5 * second"
definition defaultResponseHeaderTimeout :: duration where
  "defaultResponseHeaderTimeout = 10 * second"
definition ttlFloor :: duration where "ttlFloor = 15 * second"
definition defaultTTL :: duration where "defaultTTL = 30 * second"
definition defaultSeedTimeout :: duration where "defaultSeedTimeout = 3 * second"
definition defaultWatchWaitTime :: duration where "defaultWatchWaitTime = 30 * second"

lemmas default_durations = defaultDialTimeout_def defaultTLSHandshakeTimeout_def
  defaultResponseHeaderTimeout_def ttlFloor_def defaultTTL_def defaultSeedTimeout_def
  defaultWatchWaitTime_def

record config =
  Enabled :: bool
  ConsulAddr :: string
  AdvertiseAddr :: string
  AdvertiseScheme :: string
  AdvertisePort :: int
  AdvertiseInternalAddr :: string
  AdvertiseInternalScheme :: string
  AdvertiseInternalPort :: int
  PreferView :: endpoint_view
  Workload :: string
  TLS :: bool
  TLSSkipVerify :: bool
  Token :: string
  DialTimeout :: duration
  TLSHandshakeTimeout :: duration
  ResponseHeaderTimeout :: duration
  SeedTimeout :: duration
  WatchWaitTime :: duration
  AllowStale :: "bool option"
  cfgLogger :: logger

definition zero_config :: config where
  "zero_config =
     \<lparr>Enabled = False, ConsulAddr = [], AdvertiseAddr = [], AdvertiseScheme = [],
      AdvertisePort = 0, AdvertiseInternalAddr = [], AdvertiseInternalScheme = [],
      AdvertiseInternalPort = 0, PreferView = [], Workload = [], TLS = False,
      TLSSkipVerify = False, Token = [], DialTimeout = 0, TLSHandshakeTimeout = 0,
      ResponseHeaderTimeout = 0, SeedTimeout = 0, WatchWaitTime = 0, AllowStale = None,
      cfgLogger = NilInterface\<rparr>"

section \<open>Reading the environment\<close>

type_synonym env = "string \<Rightarrow> string"

fun firstEnv :: "env \<Rightarrow> string \<Rightarrow> string list \<Rightarrow> string" where
  "firstEnv env fallback [] = fallback"
| "firstEnv env fallback (k # ks) =
     (let v = env k in if v \<noteq> [] then v else firstEnv env fallback ks)"

fun firstEnvInt :: "env \<Rightarrow> int \<Rightarrow> string list \<Rightarrow> int" where
  "firstEnvInt env fallback [] = fallback"
| "firstEnvInt env fallback (k # ks) =
     (let v = env k
      in if v \<noteq> []
         then (case atoi v of Some n \<Rightarrow> n | None \<Rightarrow> firstEnvInt env fallback ks)
         else firstEnvInt env fallback ks)"

fun firstEnvDuration :: "env \<Rightarrow> string list \<Rightarrow> duration" where
  "firstEnvDuration env [] = 0"
| "firstEnvDuration env (k # ks) =
     (let v = env k
      in if v \<noteq> []
         then (case parse_duration v of Some d \<Rightarrow> d | None \<Rightarrow> firstEnvDuration env ks)
         else firstEnvDuration env ks)"

definition envBoolPtr :: "env \<Rightarrow> string \<Rightarrow> bool option" where
  "envBoolPtr env key = (let v = trim_space (env key) in if v = [] then None else parse_bool v)"

fun anyEnvTrue :: "env \<Rightarrow> string list \<Rightarrow> bool" where
  "anyEnvTrue env [] = False"
| "anyEnvTrue env (k # ks) = (if env k = ''true'' then True else anyEnvTrue env ks)"

definition parsePreferView :: "string \<Rightarrow> endpoint_view" where
  "parsePreferView raw =
     (if to_lower (trim_space raw) = View_Internal then View_Internal else View_External)"

section \<open>Advertised URLs\<close>

definition splitSchemeHost :: "string \<Rightarrow> string \<times> string \<times> string" where
  "splitSchemeHost addr =
     (if addr = [] then ([], addr, [])
      else case url_parse addr of
        None \<Rightarrow> ([], addr, [])
      | Some u \<Rightarrow>
          if uScheme u = [] \<or> uHost u = [] then ([], addr, [])
          else (uScheme u, url_Hostname u, url_Port u))"

text \<open>One of the two symmetric halves of \<open>parseAdvertiseAddrs\<close>: address, scheme and port.\<close>

definition splitAdvertised ::
    "string \<Rightarrow> string \<Rightarrow> int \<Rightarrow> string \<times> string \<times> int" where
  "splitAdvertised addr scheme0 port0 =
     (case splitSchemeHost addr of
        (scheme, host, port) \<Rightarrow>
          if scheme \<noteq> []
          then (host,
                if scheme0 = [] then scheme else scheme0,
                if port0 = 0 then (case atoi port of Some p \<Rightarrow> p | None \<Rightarrow> port0) else port0)
          else (addr, scheme0, port0))"

definition parseAdvertiseAddrs :: "config \<Rightarrow> config" where
  "parseAdvertiseAddrs c =
     (let (a, s, p) = splitAdvertised (AdvertiseAddr c) (AdvertiseScheme c) (AdvertisePort c);
          (ia, is, ip) = splitAdvertised (AdvertiseInternalAddr c) (AdvertiseInternalScheme c)
                           (AdvertiseInternalPort c)
      in c\<lparr>AdvertiseAddr := a, AdvertiseScheme := s, AdvertisePort := p,
           AdvertiseInternalAddr := ia, AdvertiseInternalScheme := is,
           AdvertiseInternalPort := ip\<rparr>)"

section \<open>Loading, validation, defaults\<close>

definition ConfigFromEnv :: "env \<Rightarrow> config" where
  "ConfigFromEnv env =
     parseAdvertiseAddrs
       \<lparr>Enabled = anyEnvTrue env [''SD_ENABLED'', ''SERVICE_DISCOVERY_ENABLED''],
        ConsulAddr = firstEnv env ''localhost:8500'' [''SD_ADDRESS'', ''CONSUL_ADDR''],
        AdvertiseAddr = firstEnv env []
          [''SD_EXTERNAL_ADDRESS'', ''SD_ADVERTISE_ADDRESS'', ''SERVICE_ADVERTISE_ADDR''],
        AdvertiseScheme = [],
        AdvertisePort = firstEnvInt env 0
          [''SD_EXTERNAL_PORT'', ''SD_ADVERTISE_PORT'', ''SERVICE_ADVERTISE_PORT''],
        AdvertiseInternalAddr = firstEnv env [] [''SD_INTERNAL_ADDRESS''],
        AdvertiseInternalScheme = env ''SD_INTERNAL_SCHEME'',
        AdvertiseInternalPort = firstEnvInt env 0 [''SD_INTERNAL_PORT''],
        PreferView = parsePreferView (env ''SD_PREFER_VIEW''),
        Workload = firstEnv env [] [''SD_WORKLOAD'', ''WORKLOAD_ID''],
        TLS = (env ''SD_TLS'' = ''true''),
        TLSSkipVerify = (env ''SD_TLS_SKIP_VERIFY'' = ''true''),
        Token = env ''SD_TOKEN'',
        DialTimeout = firstEnvDuration env [''SD_DIAL_TIMEOUT''],
        TLSHandshakeTimeout = firstEnvDuration env [''SD_TLS_HANDSHAKE_TIMEOUT''],
        ResponseHeaderTimeout = firstEnvDuration env [''SD_RESPONSE_HEADER_TIMEOUT''],
        SeedTimeout = firstEnvDuration env [''SD_SEED_TIMEOUT''],
        WatchWaitTime = firstEnvDuration env [''SD_WATCH_WAIT_TIME''],
        AllowStale = envBoolPtr env ''SD_ALLOW_STALE'',
        cfgLogger = NilInterface\<rparr>"

definition Validate :: "config \<Rightarrow> go_error option" where
  "Validate c =
     (if \<not> Enabled c then None
      else if ConsulAddr c = [] then Some ErrEmptyConsulAddr else None)"

definition orDefault :: "duration \<Rightarrow> duration \<Rightarrow> duration" where
  "orDefault d dflt = (if d \<le> 0 then dflt else d)"

definition withDefaults :: "config \<Rightarrow> config" where
  "withDefaults c =
     parseAdvertiseAddrs
       (c\<lparr>ConsulAddr := (if ConsulAddr c = [] then ''localhost:8500'' else ConsulAddr c),
          DialTimeout := orDefault (DialTimeout c) defaultDialTimeout,
          TLSHandshakeTimeout := orDefault (TLSHandshakeTimeout c) defaultTLSHandshakeTimeout,
          ResponseHeaderTimeout :=
            orDefault (ResponseHeaderTimeout c) defaultResponseHeaderTimeout,
          SeedTimeout := orDefault (SeedTimeout c) defaultSeedTimeout,
          WatchWaitTime := orDefault (WatchWaitTime c) defaultWatchWaitTime,
          AllowStale := (case AllowStale c of None \<Rightarrow> Some True | Some b \<Rightarrow> Some b)\<rparr>)"

definition ttlWithDefaults :: "string \<Rightarrow> go_error + string" where
  "ttlWithDefaults raw0 =
     (let raw = trim_space raw0 in
      if raw = [] then Inr (duration_string defaultTTL)
      else case parse_duration raw of
        None \<Rightarrow> Inl (Errorf ''%w: %q'' ErrInvalidTTL [raw])
      | Some d \<Rightarrow>
          if d < ttlFloor then Inr (duration_string ttlFloor) else Inr (duration_string d))"

section \<open>Properties\<close>

lemma parse_fields [simp]:
  "Enabled (parseAdvertiseAddrs c) = Enabled c" "ConsulAddr (parseAdvertiseAddrs c) = ConsulAddr c"
  "DialTimeout (parseAdvertiseAddrs c) = DialTimeout c"
  "TLSHandshakeTimeout (parseAdvertiseAddrs c) = TLSHandshakeTimeout c"
  "ResponseHeaderTimeout (parseAdvertiseAddrs c) = ResponseHeaderTimeout c"
  "SeedTimeout (parseAdvertiseAddrs c) = SeedTimeout c"
  "WatchWaitTime (parseAdvertiseAddrs c) = WatchWaitTime c"
  "AllowStale (parseAdvertiseAddrs c) = AllowStale c"
  by (simp_all add: parseAdvertiseAddrs_def Let_def split: prod.splits)

text \<open>
  The defaults make every configuration usable: whatever the caller or the environment left
  out, the effective configuration passes Validate, has a Consul address, and has only positive
  timeouts; a value that was given (a positive duration, an explicit stale flag) is kept, and the
  documented default replaces the others.
\<close>

lemma defaults_are_usable:
  "Validate (withDefaults c) = None \<and> ConsulAddr (withDefaults c) \<noteq> []
   \<and> (\<forall>(get, dflt) \<in> set [(DialTimeout, 5 * second), (TLSHandshakeTimeout, 5 * second),
         (ResponseHeaderTimeout, 10 * second), (SeedTimeout, 3 * second), (WatchWaitTime, 30 * second)].
        0 < get (withDefaults c) \<and> get (withDefaults c) = (if 0 < get c then get c else dflt))
   \<and> AllowStale (withDefaults c) = Some (AllowStale c \<noteq> Some False)"
  by (cases "AllowStale c")
     (auto simp: Validate_def withDefaults_def orDefault_def default_durations)

text \<open>
  Environment variables are read by precedence: the text settings take the first variable of
  their list that is set, the numeric ones and the durations the first that is set and parses (an
  unreadable one is skipped, not fatal), and an enabling flag is on when any of its variables is
  exactly \<open>true\<close>.
\<close>

lemma env_precedence:
  "firstEnv env fb ks = (case find (\<lambda>k. env k \<noteq> []) ks of None \<Rightarrow> fb | Some k \<Rightarrow> env k)
   \<and> firstEnvInt env n ks
     = (case find (\<lambda>k. env k \<noteq> [] \<and> atoi (env k) \<noteq> None) ks of None \<Rightarrow> n | Some k \<Rightarrow> the (atoi (env k)))
   \<and> firstEnvDuration env ks
     = (case find (\<lambda>k. env k \<noteq> [] \<and> parse_duration (env k) \<noteq> None) ks of
          None \<Rightarrow> 0 | Some k \<Rightarrow> the (parse_duration (env k)))
   \<and> (anyEnvTrue env ks \<longleftrightarrow> (\<exists>k \<in> set ks. env k = ''true''))"
proof (intro conjI)
  show "firstEnvInt env n ks
     = (case find (\<lambda>k. env k \<noteq> [] \<and> atoi (env k) \<noteq> None) ks of None \<Rightarrow> n | Some k \<Rightarrow> the (atoi (env k)))"
    by (induction ks) (simp_all add: Let_def split: option.splits)
  show "firstEnvDuration env ks
     = (case find (\<lambda>k. env k \<noteq> [] \<and> parse_duration (env k) \<noteq> None) ks of
          None \<Rightarrow> 0 | Some k \<Rightarrow> the (parse_duration (env k)))"
    by (induction ks) (simp_all add: Let_def split: option.splits)
qed (induction ks; simp add: Let_def)+

section \<open>Splitting an advertised URL\<close>

definition lower_alpha :: "char \<Rightarrow> bool" where
  "lower_alpha c \<longleftrightarrow> 97 \<le> byte c \<and> byte c \<le> 122"

lemma to_lower_step:
  assumes "byte a < 128"
  shows "to_lower (a # s) = lower_ascii a # to_lower s"
proof (cases s)
  case (Cons b t)
  have "(byte a = 0xC4) = False" "(byte a = 0xE2) = False" using assms by simp_all
  then show ?thesis
    unfolding Cons by (subst to_lower.simps(1)) (cases t; simp only: list.case if_False simp_thms)
qed simp

lemma to_lower_lower: "list_all lower_alpha s \<Longrightarrow> to_lower s = s"
proof (induction s)
  case (Cons a s)
  then have "97 \<le> byte a" "byte a \<le> 122" by (simp_all add: lower_alpha_def)
  with Cons show ?case by (simp add: to_lower_step lower_ascii_def del: to_lower.simps)
qed simp

lemma get_scheme_alpha:
  "list_all is_alpha s \<Longrightarrow> 0 < i + length s \<Longrightarrow>
     get_scheme_at i pre (s @ CHR '':'' # t) w = Some (pre @ s, t)"
proof (induction s arbitrary: i pre)
  case Nil
  then show ?case by (simp add: is_alpha_def byte_def is_digit_def)
next
  case (Cons c s)
  then show ?case using Cons.IH [of "Suc i" "pre @ [c]"] by simp
qed

lemma unescape_plain: "list_all (\<lambda>c. c \<noteq> CHR ''%'' \<and> host_char_ok c) s \<Longrightarrow> unescape md s = Some s"
  by (induction s) auto

lemma plain_ok:
  "plain_char c \<Longrightarrow> host_char_ok c" "is_digit c \<Longrightarrow> host_char_ok c" "is_digit c \<Longrightarrow> c \<noteq> CHR ''%''"
  by (auto simp: plain_char_def host_char_ok_def is_digit_def)

lemma reserved_chars:
  "\<not> is_alpha (CHR ''#'')" "\<not> is_alpha (CHR ''?'')" "\<not> is_digit (CHR ''#'')" "\<not> is_digit (CHR ''?'')"
  "\<not> is_digit (CHR ''/'')" "\<not> is_digit (CHR '':'')" "\<not> is_digit (CHR ''@'')" "\<not> is_digit (CHR ''['')"
  "\<not> is_digit (CHR ''%'')"
  "\<not> plain_char (CHR ''#'')" "\<not> plain_char (CHR ''?'')" "\<not> plain_char (CHR ''/'')"
  "\<not> plain_char (CHR '':'')" "\<not> plain_char (CHR ''@'')" "\<not> plain_char (CHR ''['')"
  "\<not> plain_char (CHR ''%'')" "\<not> is_ctl (CHR '':'')" "\<not> is_ctl (CHR ''/'')"
  by (simp_all add: is_alpha_def is_digit_def plain_char_def is_ctl_def byte_def)

lemma not_control:
  "is_alpha c \<Longrightarrow> \<not> is_ctl c" "is_digit c \<Longrightarrow> \<not> is_ctl c" "plain_char c \<Longrightarrow> \<not> is_ctl c"
  by (auto simp: is_alpha_def is_digit_def is_ctl_def byte_def plain_char_def)

text \<open>Parsing \<open>scheme://host:port\<close> for a plain host, with a plain path or none.\<close>

definition plain_path :: "string \<Rightarrow> bool" where
  "plain_path path \<longleftrightarrow> path = [] \<or> hd path = CHR ''/'' \<and> list_all (\<lambda>c. plain_char c \<or> c = CHR ''/'') path"

lemma unescape_other: "CHR ''%'' \<notin> set s \<Longrightarrow> unescape EncOther s = Some s"
  by (induction s) auto

lemma url_parse_path:
  assumes sch: "sch \<noteq> []" "list_all lower_alpha sch" and h: "plain_host h"
    and ds: "ds \<noteq> []" "list_all is_digit ds" and path: "plain_path path"
  shows "url_parse (sch @ ''://'' @ h @ CHR '':'' # ds @ path) = Some \<lparr>uScheme = sch, uHost = h @ CHR '':'' # ds\<rparr>"
proof -
  let ?auth = "h @ CHR '':'' # ds" and ?rest = "''//'' @ h @ CHR '':'' # ds @ path"
  let ?u = "sch @ CHR '':'' # ?rest"
  have alpha: "list_all is_alpha sch" using sch(2) by (auto simp: list_all_iff lower_alpha_def is_alpha_def)
  have hp: "\<And>c. c \<in> set h \<Longrightarrow> plain_char c" "h \<noteq> []" using h by (auto simp: plain_host_def list_all_iff)
  have dd: "\<And>c. c \<in> set ds \<Longrightarrow> is_digit c" using ds(2) by (auto simp: list_all_iff)
  have ss: "\<And>c. c \<in> set sch \<Longrightarrow> is_alpha c" using alpha by (auto simp: list_all_iff)
  have pp: "\<And>c. c \<in> set path \<Longrightarrow> plain_char c \<or> c = CHR ''/''"
    using path by (auto simp: plain_path_def list_all_iff)
  note ch = reserved_chars and char_of = hp(1) dd ss
  have nohash: "CHR ''#'' \<notin> set ?u" by (auto dest: char_of pp simp: ch)
  have noctl: "\<not> list_ex is_ctl ?u" by (auto simp: list_ex_iff ch dest: char_of not_control dest!: pp)
  have nostar: "?u \<noteq> ''*''" using sch(1) by (cases sch) auto
  have sc: "get_scheme_at 0 [] ?u ?u = Some (sch, ?rest)"
    using get_scheme_alpha [OF alpha, of 0 "[]" ?rest ?u] sch(1) by simp
  have noq: "CHR ''?'' \<notin> set ?rest" by (auto dest: char_of pp simp: ch)
  have "last ?rest \<in> set ?rest" by (rule last_in_set) simp
  with noq have lastq: "last ?rest \<noteq> CHR ''?''" by (elim contrapos_nn) (erule subst)
  have noslash: "CHR ''/'' \<notin> set ?auth" by (auto dest: char_of simp: ch)
  have noat: "CHR ''@'' \<notin> set ?auth" by (auto dest: char_of simp: ch)
  have nobr: "CHR ''['' \<notin> set ?auth" by (auto dest: char_of simp: ch)
  have nocol: "CHR '':'' \<notin> set h" "CHR '':'' \<notin> set ds" by (auto dest: char_of simp: ch)
  have cuts: "cut (CHR '':'') ?auth = (h, ds, True)" "cut_last (CHR '':'') ?auth = (h, ds, True)"
    using cut_append [OF nocol(1)] cut_last_append [OF nocol(2)] by simp_all
  have "list_all (\<lambda>c. c \<noteq> CHR ''%'' \<and> host_char_ok c) ?auth"
    by (auto simp: list_all_iff ch plain_ok host_char_ok_def [of "CHR '':''"] dest: char_of)
  then have unesc: "unescape EncHost ?auth = Some ?auth" by (rule unescape_plain)
  have host: "parse_authority sch ?auth = Some ?auth"
    using nobr cuts unesc ds(2)
    by (simp add: parse_authority_def cut_last_absent [OF noat] parse_host_def validOptionalPort_def Let_def)
  have split: "(case cut (CHR ''/'') (?auth @ path) of (a, b, f) \<Rightarrow> (a, if f then CHR ''/'' # b else [])) = (?auth, path)"
  proof (cases path)
    case Nil
    then show ?thesis using cut_absent [OF noslash] by simp
  next
    case (Cons c q)
    with path have "c = CHR ''/''" by (simp add: plain_path_def)
    with Cons show ?thesis using cut_append [OF noslash, of q] by simp
  qed
  have "CHR ''%'' \<notin> set path" by (auto dest: pp simp: ch)
  then have upath: "unescape EncOther path = Some path" by (rule unescape_other)
  have "?rest = CHR ''/'' # CHR ''/'' # ?auth @ path" by simp
  then show ?thesis
    using sch(1) lastq split upath
    by (simp add: url_parse_def cut_absent [OF nohash, simplified] noctl [simplified] nostar [simplified]
        sc [simplified] to_lower_lower [OF sch(2)] cut_absent [OF noq, simplified] host [simplified] Let_def)
qed

lemmas url_parse_plain = url_parse_path [where path = "[]", simplified plain_path_def append_Nil2, OF _ _ _ _ _ disjI1 [OF HOL.refl]]

lemma get_scheme_plain:
  "list_all plain_char s \<Longrightarrow> get_scheme_at i pre s w = Some ([], w)"
  by (induction s arbitrary: i pre) (auto simp: plain_char_def)

lemma split_plain_host:
  assumes "plain_host h" shows "splitSchemeHost h = ([], h, [])"
proof -
  have "list_all plain_char h" using assms by (simp add: plain_host_def)
  then have sc: "get_scheme_at 0 [] h h = Some ([], h)" by (rule get_scheme_plain)
  have hp: "\<And>c. c \<in> set h \<Longrightarrow> plain_char c" using assms by (auto simp: plain_host_def list_all_iff)
  have nohash: "CHR ''#'' \<notin> set h" by (auto dest: hp simp: reserved_chars)
  have "uScheme u = []" if "url_parse h = Some u" for u
    using that
    by (auto simp: url_parse_def cut_absent [OF nohash] sc Let_def split: if_splits option.splits prod.splits)
  then show ?thesis by (auto simp: splitSchemeHost_def split: option.splits)
qed

text \<open>
  C32. An address advertised as a URL is split into its parts: for \<open>scheme://host:port\<close> with a plain
  host, the host replaces the address, and the URL's scheme and port fill in what was not set
  explicitly (an explicit value wins). A bare host name stays as it is, so splitting twice, on
  loading from the environment and again on defaulting, changes nothing more.
\<close>

theorem advertised_url_is_split:
  assumes "sch \<noteq> []" and "list_all lower_alpha sch" and "plain_host h" and "0 \<le> p" and "int64_range p"
  shows "splitAdvertised (sch @ ''://'' @ h @ '':'' @ itoa p) s0 p0
       = (h, if s0 = [] then sch else s0, if p0 = 0 then p else p0)
     \<and> splitAdvertised h s1 p1 = (h, s1, p1)"
proof
  have it: "itoa p = nat_str (nat p)" using assms(4) by (simp add: itoa_def)
  have ds: "nat_str (nat p) \<noteq> []" "list_all is_digit (nat_str (nat p))" by (simp_all add: nat_str_digits)
  have nocol: "CHR '':'' \<notin> set (nat_str (nat p))"
    using ds(2) reserved_chars(6) by (auto simp: list_all_iff)
  have h: "h \<noteq> []" "hd h \<noteq> CHR ''[''"
    using assms(3) by (cases h; auto simp: plain_host_def)+
  have shp: "split_host_port (h @ CHR '':'' # nat_str (nat p)) = (h, nat_str (nat p))"
    using cut_last_append [OF nocol, of h] ds(2) h
    by (simp add: split_host_port_def validOptionalPort_def Let_def)
  have at: "atoi (nat_str (nat p)) = Some p" using atoi_itoa [OF assms(5)] it by simp
  show "splitAdvertised (sch @ ''://'' @ h @ '':'' @ itoa p) s0 p0
      = (h, if s0 = [] then sch else s0, if p0 = 0 then p else p0)"
    using url_parse_plain [OF assms(1-3) ds] assms(1) shp at
    by (simp add: splitAdvertised_def splitSchemeHost_def url_Hostname_def url_Port_def it)
  show "splitAdvertised h s1 p1 = (h, s1, p1)"
    by (simp add: splitAdvertised_def split_plain_host [OF assms(3)])
qed

theorem advertised_url_is_split_witness:
  "splitAdvertised ''https://a-1.example.com:8443'' [] 0 = (''a-1.example.com'', ''https'', 8443)"
proof -
  have i: "itoa 8443 = ''8443''" by code_simp
  have "list_all lower_alpha ''https''" "plain_host ''a-1.example.com''"
    by (simp_all add: lower_alpha_def plain_host_def plain_char_def is_alpha_def is_digit_def byte_def)
  with advertised_url_is_split [of "''https''" "''a-1.example.com''" 8443 "[]" 0] i show ?thesis
    by (simp add: int64_range_def)
qed

end
