(* ===== verification/Registry.thy ===== *)
theory Registry
  imports ConsulCodec Config
begin

text \<open>
  The \<open>Registry\<close> interface of \<open>types.go\<close> and the run-time notions every component shares: contexts,
  channels, and the calls made on the internal logger. A registry backend is a state and a record
  of operations on it; an operation returns its Go result and the next state. The locales are the
  contracts the manager relies on: an invariant every operation keeps, and, for a backend with
  background work, that closing it stops that work for good.
\<close>

section \<open>Contexts and channels\<close>

text \<open>A context as a call sees it: whether it is done, and the time left until its deadline.\<close>

record ctx =
  ctxDone :: bool
  ctxDeadline :: "duration option"

definition Background :: ctx where
  "Background = \<lparr>ctxDone = False, ctxDeadline = None\<rparr>"

definition WithTimeout :: "ctx \<Rightarrow> duration \<Rightarrow> ctx" where
  "WithTimeout c d =
     \<lparr>ctxDone = (ctxDone c \<or> d \<le> 0),
      ctxDeadline = Some (case ctxDeadline c of None \<Rightarrow> d | Some e \<Rightarrow> min d e)\<rparr>"

text \<open>The channel a watch returns: already closed, or fed by a goroutine.\<close>

datatype chan = ClosedChan | LiveChan

text \<open>What a \<open>select\<close> over a context and an event channel can yield.\<close>

datatype select_case = CtxDone | ChanClosed | Received event

section \<open>Log calls\<close>

datatype log_item = LString string string | LInt string int | LErr go_error

record log_call =
  lcLevel :: log_level
  lcMsg :: string
  lcItems :: "log_item list"

definition logc :: "log_level \<Rightarrow> string \<Rightarrow> log_item list \<Rightarrow> log_call" where
  "logc l m is = \<lparr>lcLevel = l, lcMsg = m, lcItems = is\<rparr>"

section \<open>The interface\<close>

record 'r registry_ops =
  opRegister :: "ctx \<Rightarrow> service \<Rightarrow> 'r \<Rightarrow> go_error option \<times> 'r"
  opDeregister :: "ctx \<Rightarrow> string \<Rightarrow> 'r \<Rightarrow> go_error option \<times> 'r"
  opResolve :: "ctx \<Rightarrow> string \<Rightarrow> string \<Rightarrow> 'r \<Rightarrow> (go_error + service) \<times> 'r"
  opWatch :: "ctx \<Rightarrow> string \<Rightarrow> 'r \<Rightarrow> (chan \<times> go_error option) \<times> 'r"
  opClose :: "('r \<Rightarrow> go_error option \<times> 'r) option"

text \<open>The requests a client can make of a backend, and the state after one.\<close>

datatype request =
    ReqRegister ctx service
  | ReqDeregister ctx string
  | ReqResolve ctx string string
  | ReqWatch ctx string

fun after_request :: "'r registry_ops \<Rightarrow> request \<Rightarrow> 'r \<Rightarrow> 'r" where
  "after_request ops (ReqRegister c s) r = snd (opRegister ops c s r)"
| "after_request ops (ReqDeregister c i) r = snd (opDeregister ops c i r)"
| "after_request ops (ReqResolve c n t) r = snd (opResolve ops c n t r)"
| "after_request ops (ReqWatch c n) r = snd (opWatch ops c n r)"

definition after_close :: "'r registry_ops \<Rightarrow> 'r \<Rightarrow> 'r" where
  "after_close ops r = (case opClose ops of None \<Rightarrow> r | Some f \<Rightarrow> snd (f r))"

definition close_error :: "'r registry_ops \<Rightarrow> 'r \<Rightarrow> go_error option" where
  "close_error ops r = (case opClose ops of None \<Rightarrow> None | Some f \<Rightarrow> fst (f r))"

locale stateful_registry =
  fixes ops :: "'r registry_ops" and inv :: "'r \<Rightarrow> bool"
  assumes inv_request: "inv r \<Longrightarrow> inv (after_request ops q r)"
    and inv_close: "inv r \<Longrightarrow> inv (after_close ops r)"
begin

lemma inv_requests: "inv r \<Longrightarrow> inv (fold (after_request ops) qs r)"
  by (induction qs arbitrary: r) (auto simp: inv_request)

end

text \<open>
  A backend with background work: \<open>live\<close> names the services some goroutine still speaks for.
  Closing leaves none, and no later request starts one.
\<close>

locale background_registry = stateful_registry ops inv
  for ops :: "'r registry_ops" and inv +
  fixes live :: "'r \<Rightarrow> string set" and closed :: "'r \<Rightarrow> bool"
  assumes close_closes: "inv r \<Longrightarrow> closed (after_close ops r)"
    and closed_quiet: "inv r \<Longrightarrow> closed r \<Longrightarrow> live r = {}"
    and closed_stable: "inv r \<Longrightarrow> closed r \<Longrightarrow> closed (after_request ops q r)"
    and close_stable: "inv r \<Longrightarrow> closed r \<Longrightarrow> after_close ops r = r"
begin

lemma closed_requests: "inv r \<Longrightarrow> closed r \<Longrightarrow> closed (fold (after_request ops) qs r)"
  by (induction qs arbitrary: r) (auto simp: closed_stable inv_request)

lemma quiet_forever:
  assumes "inv r" shows "live (fold (after_request ops) qs (after_close ops r)) = {}"
proof -
  let ?r = "after_close ops r"
  have "inv ?r" "closed ?r" using assms by (auto intro: inv_close close_closes)
  then show ?thesis by (auto intro!: closed_quiet inv_requests closed_requests)
qed

lemma close_idempotent: "inv r \<Longrightarrow> after_close ops (after_close ops r) = after_close ops r"
  by (intro close_stable inv_close close_closes)

end

end
