(* ===== verification/ManagedResolver.thy ===== *)
theory ManagedResolver
  imports Registry "HOL-Library.AList"
begin

text \<open>
  The watch-and-cache layer of \<open>managed_resolver.go\<close>: the per-name cache cell, the manager's state,
  the lazy seed, the start of the background watch and the update loop. The cell's contract is the
  locale \<open>service_cache\<close>; its client is the update loop, whose result is the last authoritative
  answer of the registry. The resolvers are kept by name (an association list, as Close iterates
  over them); each watch has a context (a flag for its own cancel function, next to the manager's
  base context) and, when it opened, a loop.
\<close>

section \<open>The cache cell\<close>

record managed_resolver =
  mrCurrent :: "service option"
  mrOnce :: bool
  mrSeeded :: bool
  mrSeedErr :: "go_error option"
  mrAuthEmpty :: bool
  mrCancel :: "nat option"

definition new_resolver :: managed_resolver where
  "new_resolver =
     \<lparr>mrCurrent = None, mrOnce = False, mrSeeded = False, mrSeedErr = None, mrAuthEmpty = False,
      mrCancel = None\<rparr>"

definition mr_store :: "service \<Rightarrow> managed_resolver \<Rightarrow> managed_resolver" where
  "mr_store svc mr = mr\<lparr>mrCurrent := Some svc, mrAuthEmpty := False, mrSeeded := True\<rparr>"

definition mr_clear :: "managed_resolver \<Rightarrow> managed_resolver" where
  "mr_clear mr = mr\<lparr>mrAuthEmpty := True, mrSeeded := False\<rparr>"

definition mr_emptyErr :: "managed_resolver \<Rightarrow> go_error" where
  "mr_emptyErr mr =
     (if mrAuthEmpty mr then ErrNoHealthyInstances
      else case mrSeedErr mr of Some e \<Rightarrow> e | None \<Rightarrow> ErrNoHealthyInstances)"

text \<open>The failed type assertion on an empty \<open>atomic.Value\<close> yields the zero Service.\<close>

definition mr_service :: "managed_resolver \<Rightarrow> service option" where
  "mr_service mr =
     (if \<not> mrSeeded mr then None
      else Some (case mrCurrent mr of None \<Rightarrow> empty_service | Some s \<Rightarrow> s))"

section \<open>The manager's state\<close>

record watch_loop =
  wlCtx :: nat
  wlName :: string
  wlTag :: string

record 'r manager =
  mConfig :: config
  mRegistry :: "'r option"
  mLogger :: obs_logger
  mWorkload :: string
  mSeedTimeout :: duration
  mPreferView :: endpoint_view
  mResolvers :: "(string \<times> managed_resolver) list"
  mClosed :: bool
  mBaseDone :: bool
  mCtxs :: "bool list"
  mLoops :: "watch_loop list"
  mCloseErr :: "go_error option option"
  mTrace :: "log_call list"

definition m_log :: "log_level \<Rightarrow> string \<Rightarrow> log_item list \<Rightarrow> 'r manager \<Rightarrow> 'r manager" where
  "m_log l msg is m = m\<lparr>mTrace := mTrace m @ [logc l msg is]\<rparr>"

definition workloadTag :: "'r manager \<Rightarrow> string" where
  "workloadTag m = (if mWorkload m = [] then [] else ''workload='' @ mWorkload m)"

text \<open>
  Calls on \<open>m.registry\<close>. A nil registry would be a nil dereference; \<open>New\<close> never leaves one in an
  enabled manager.
\<close>

definition call_resolve ::
    "'r registry_ops \<Rightarrow> ctx \<Rightarrow> string \<Rightarrow> string \<Rightarrow> 'r manager \<Rightarrow> (go_error + service) \<times> 'r manager"
  where
  "call_resolve ops c name tag m =
     (case mRegistry m of
        None \<Rightarrow> (Inl (Panic ''nil registry''), m)
      | Some r \<Rightarrow> (case opResolve ops c name tag r of (res, r') \<Rightarrow> (res, m\<lparr>mRegistry := Some r'\<rparr>)))"

definition call_watch ::
    "'r registry_ops \<Rightarrow> ctx \<Rightarrow> string \<Rightarrow> 'r manager \<Rightarrow> (chan \<times> go_error option) \<times> 'r manager" where
  "call_watch ops c name m =
     (case mRegistry m of
        None \<Rightarrow> ((ClosedChan, Some (Panic ''nil registry'')), m)
      | Some r \<Rightarrow> (case opWatch ops c name r of (res, r') \<Rightarrow> (res, m\<lparr>mRegistry := Some r'\<rparr>)))"

section \<open>Seeding and watching\<close>

definition mr_stop :: "managed_resolver \<Rightarrow> 'r manager \<Rightarrow> 'r manager" where
  "mr_stop mr m = m\<lparr>mCtxs := (case mrCancel mr of None \<Rightarrow> mCtxs m | Some i \<Rightarrow> (mCtxs m)[i := True])\<rparr>"

definition startManagedWatch ::
    "'r registry_ops \<Rightarrow> managed_resolver \<Rightarrow> string \<Rightarrow> string \<Rightarrow> 'r manager
       \<Rightarrow> managed_resolver \<times> 'r manager" where
  "startManagedWatch ops mr name tag m =
     (let i = length (mCtxs m);
          wctx = \<lparr>ctxDone = mBaseDone m, ctxDeadline = None\<rparr>;
          mr1 = mr\<lparr>mrCancel := Some i\<rparr>;
          ((ch, err), m1) = call_watch ops wctx name (m\<lparr>mCtxs := mCtxs m @ [False]\<rparr>)
      in case err of
           Some e \<Rightarrow>
             (mr1, m_log LevelWarn ''managed resolver watch failed to start; serving seed only''
                     [LString ''service'' name, LErr e]
                     (m1\<lparr>mCtxs := (mCtxs m1)[i := True]\<rparr>))
         | None \<Rightarrow>
             (mr1, m1\<lparr>mLoops := mLoops m1 @ [\<lparr>wlCtx = i, wlName = name, wlTag = tag\<rparr>]\<rparr>))"

text \<open>
  A panic of Resolve unwinds the seed before it logs or starts a watch. It is kept in the resolver, where it
  stands for what the lookup that was seeding returns; \<open>once.Do\<close> is done all the same.
\<close>

definition seedManagedResolver ::
    "'r registry_ops \<Rightarrow> ctx \<Rightarrow> managed_resolver \<Rightarrow> string \<Rightarrow> 'r manager
       \<Rightarrow> managed_resolver \<times> 'r manager" where
  "seedManagedResolver ops c mr name m =
     (let tag = workloadTag m;
          seedCtx = WithTimeout c (mSeedTimeout m);
          (res, m1) = call_resolve ops seedCtx name tag m
      in case res of
           Inl err \<Rightarrow>
             if is_panic err then (mr\<lparr>mrSeedErr := Some err\<rparr>, m1)
             else startManagedWatch ops (mr\<lparr>mrSeedErr := Some err\<rparr>) name tag
               (m_log LevelWarn ''managed resolver seed degraded; watching for recovery''
                  [LString ''service'' name, LString ''workload'' (mWorkload m), LErr err] m1)
         | Inr svc \<Rightarrow>
             startManagedWatch ops (mr_store svc mr) name tag
               (m_log LevelDebug ''managed resolver seeded''
                  [LString ''service'' name, LString ''source'' ''consul'',
                   LString ''workload'' (mWorkload m)] m1))"

text \<open>\<open>once.Do\<close>: the first call seeds, later ones return the resolver as it is.\<close>

definition seed_once ::
    "'r registry_ops \<Rightarrow> ctx \<Rightarrow> managed_resolver \<Rightarrow> string \<Rightarrow> 'r manager
       \<Rightarrow> managed_resolver \<times> 'r manager" where
  "seed_once ops c mr name m =
     (if mrOnce mr then (mr, m)
      else case seedManagedResolver ops c (mr\<lparr>mrOnce := True\<rparr>) name m of
             (mr', m') \<Rightarrow> (mr', m'\<lparr>mResolvers := AList.update name mr' (mResolvers m')\<rparr>))"

definition managedResolverFor ::
    "'r registry_ops \<Rightarrow> ctx \<Rightarrow> string \<Rightarrow> 'r manager \<Rightarrow> managed_resolver \<times> 'r manager" where
  "managedResolverFor ops c name m =
     (case map_of (mResolvers m) name of
        Some mr \<Rightarrow> seed_once ops c mr name m
      | None \<Rightarrow>
          if mClosed m then (new_resolver, m)
          else seed_once ops c new_resolver name
                 (m\<lparr>mResolvers := AList.update name new_resolver (mResolvers m)\<rparr>))"

section \<open>The update loop\<close>

text \<open>
  One event: re-resolve, then store, clear or keep. A panic of Resolve unwinds the loop, whose \<open>SafeGo\<close>
  recovers it: nothing is stored, nothing logged. The loop is given by what its \<open>select\<close> yields,
  turn by turn; it ends on a done context, a closed channel or a panic.
\<close>

definition managed_update ::
    "'r registry_ops \<Rightarrow> ctx \<Rightarrow> string \<Rightarrow> string \<Rightarrow> managed_resolver \<times> 'r
       \<Rightarrow> (managed_resolver \<times> 'r) \<times> log_call list" where
  "managed_update ops c name tag s =
     (let (mr, r) = s; (res, r') = opResolve ops c name tag r
      in case res of
           Inl err \<Rightarrow>
             if is_panic err then ((mr, r'), [])
             else if errors_Is err ErrNoHealthyInstances
             then ((mr_clear mr, r'),
                   [logc LevelWarn ''managed resolve found no healthy instances; clearing cache''
                     [LString ''service'' name, LErr err]])
             else ((mr, r'),
                   [logc LevelWarn ''managed resolve update failed; keeping last value''
                     [LString ''service'' name, LErr err]])
         | Inr svc \<Rightarrow>
             ((mr_store svc mr, r'),
              [logc LevelDebug ''managed resolve updated'' [LString ''service'' name]]))"

fun runManagedUpdates ::
    "'r registry_ops \<Rightarrow> ctx \<Rightarrow> string \<Rightarrow> string \<Rightarrow> select_case list \<Rightarrow> managed_resolver \<times> 'r
       \<Rightarrow> (managed_resolver \<times> 'r) \<times> log_call list" where
  "runManagedUpdates ops c name tag [] s = (s, [])"
| "runManagedUpdates ops c name tag (CtxDone # sels) s = (s, [])"
| "runManagedUpdates ops c name tag (ChanClosed # sels) s = (s, [])"
| "runManagedUpdates ops c name tag (Received ev # sels) s =
     (case managed_update ops c name tag s of
        (s', l) \<Rightarrow>
          if panics (fst (opResolve ops c name tag (snd s))) then (s', l)
          else (case runManagedUpdates ops c name tag sels s' of (s'', ls) \<Rightarrow> (s'', l @ ls)))"

text \<open>The context of a watch loop, and one event delivered to it inside the manager.\<close>

definition loop_done :: "watch_loop \<Rightarrow> 'r manager \<Rightarrow> bool" where
  "loop_done l m \<longleftrightarrow> mBaseDone m \<or> (wlCtx l < length (mCtxs m) \<and> mCtxs m ! wlCtx l)"

text \<open>
  These are the loops of the managed layer. The watches of the dynamic resolvers and of \<open>Manager.Watch\<close> run on
  their callers' contexts, which no operation of the manager cancels.
\<close>

definition live_watch :: "'r manager \<Rightarrow> watch_loop \<Rightarrow> bool" where
  "live_watch m l \<longleftrightarrow> l \<in> set (mLoops m) \<and> \<not> loop_done l m"

definition deliver_event :: "'r registry_ops \<Rightarrow> watch_loop \<Rightarrow> 'r manager \<Rightarrow> 'r manager" where
  "deliver_event ops l m =
     (case (mRegistry m, map_of (mResolvers m) (wlName l)) of
        (Some r, Some mr) \<Rightarrow>
          if live_watch m l \<and> mrCancel mr = Some (wlCtx l)
          then (case managed_update ops \<lparr>ctxDone = False, ctxDeadline = None\<rparr> (wlName l) (wlTag l)
                       (mr, r) of
                  ((mr', r'), lgs) \<Rightarrow>
                    m\<lparr>mRegistry := Some r',
                      mResolvers := AList.update (wlName l) mr' (mResolvers m),
                      mLoops :=
                        (if panics (fst (opResolve ops \<lparr>ctxDone = False, ctxDeadline = None\<rparr> (wlName l) (wlTag l) r))
                         then removeAll l (mLoops m) else mLoops m),
                      mTrace := mTrace m @ lgs\<rparr>)
          else m
      | _ \<Rightarrow> m)"

section \<open>The cache contract\<close>

text \<open>What a reader of the cell sees: a service, or the reason there is none.\<close>

datatype cache_view = Serving service | Unavailable go_error

definition view_of :: "managed_resolver \<Rightarrow> cache_view" where
  "view_of mr = (case mr_service mr of Some s \<Rightarrow> Serving s | None \<Rightarrow> Unavailable (mr_emptyErr mr))"

text \<open>The answer of one resolution, as the contract reads it.\<close>

fun absorb :: "go_error + service \<Rightarrow> cache_view \<Rightarrow> cache_view" where
  "absorb (Inr s) v = Serving s"
| "absorb (Inl e) v =
     (if errors_Is e ErrNoHealthyInstances then Unavailable ErrNoHealthyInstances else v)"

locale service_cache =
  fixes store :: "service \<Rightarrow> 'm \<Rightarrow> 'm" and clear :: "'m \<Rightarrow> 'm" and view :: "'m \<Rightarrow> cache_view"
  assumes view_store: "view (store s m) = Serving s"
    and view_clear: "view (clear m) = Unavailable ErrNoHealthyInstances"
begin

definition update :: "go_error + service \<Rightarrow> 'm \<Rightarrow> 'm" where
  "update res m =
     (case res of
        Inr s \<Rightarrow> store s m
      | Inl e \<Rightarrow> if errors_Is e ErrNoHealthyInstances then clear m else m)"

lemma view_update: "view (update res m) = absorb res (view m)"
  by (cases res) (simp_all add: update_def view_store view_clear)

lemma view_updates: "view (fold update rs m) = fold absorb rs (view m)"
  by (induction rs arbitrary: m) (simp_all add: view_update)

text \<open>Transient failures after an authoritative answer do not change what is served.\<close>

definition transient :: "go_error + service \<Rightarrow> bool" where
  "transient res = (case res of Inr s \<Rightarrow> False | Inl e \<Rightarrow> \<not> errors_Is e ErrNoHealthyInstances)"

lemma absorb_transient: "list_all transient rs \<Longrightarrow> fold absorb rs v = v"
proof (induction rs arbitrary: v)
  case (Cons r rs)
  then show ?case by (cases r) (simp_all add: transient_def)
qed simp

lemma last_authoritative:
  assumes "list_all transient rs"
  shows "view (fold update (qs @ Inr s # rs) m) = Serving s"
    and "errors_Is e ErrNoHealthyInstances \<Longrightarrow>
      view (fold update (qs @ Inl e # rs) m) = Unavailable ErrNoHealthyInstances"
    and "view (fold update rs m) = view m"
  using assms by (simp_all add: view_update view_updates absorb_transient)

end

interpretation cell: service_cache mr_store mr_clear view_of
  by unfold_locales
     (simp_all add: view_of_def mr_service_def mr_store_def mr_clear_def mr_emptyErr_def)

text \<open>The answers the registry gives to a run of resolutions of one name, until one panics.\<close>

fun answers ::
    "'r registry_ops \<Rightarrow> ctx \<Rightarrow> string \<Rightarrow> string \<Rightarrow> nat \<Rightarrow> 'r \<Rightarrow> (go_error + service) list \<times> 'r" where
  "answers ops c name tag 0 r = ([], r)"
| "answers ops c name tag (Suc n) r =
     (case opResolve ops c name tag r of
        (res, r') \<Rightarrow>
          if panics res then ([], r')
          else (case answers ops c name tag n r' of (rs, r'') \<Rightarrow> (res # rs, r'')))"

fun received :: "select_case list \<Rightarrow> nat" where
  "received (Received ev # sels) = Suc (received sels)"
| "received sels = 0"

lemma managed_update_cell:
  "fst (managed_update ops c name tag (mr, r)) =
     (cell.update (fst (opResolve ops c name tag r)) mr, snd (opResolve ops c name tag r))"
  by (auto simp: managed_update_def cell.update_def split: prod.splits sum.splits dest: healthy_no_panic)

lemma runManagedUpdates_cell:
  "fst (runManagedUpdates ops c name tag sels (mr, r)) =
     (case answers ops c name tag (received sels) r of (rs, r') \<Rightarrow> (fold cell.update rs mr, r'))"
proof (induction sels arbitrary: mr r)
  case (Cons sel sels)
  show ?case
  proof (cases sel)
    case (Received ev)
    obtain res r' where res: "opResolve ops c name tag r = (res, r')" by fastforce
    then have "fst (managed_update ops c name tag (mr, r)) = (cell.update res mr, r')"
      by (simp add: managed_update_cell)
    then obtain l where "managed_update ops c name tag (mr, r) = ((cell.update res mr, r'), l)"
      by (metis prod.collapse)
    moreover have "panics res \<Longrightarrow> cell.update res mr = mr"
      by (cases res) (auto simp: cell.update_def dest: healthy_no_panic)
    ultimately show ?thesis
      using Received res Cons.IH [of "cell.update res mr" r'] by (auto split: prod.splits)
  qed simp_all
qed simp

section \<open>Properties\<close>

text \<open>
  C15. The managed cache refines its contract: after any run of watch events the reader sees the fold
  of the backend's answers (one per event received before the loop ends, by a panic too) over what it saw before:
  the last authoritative answer wins, and a stretch of transient failures changes nothing.
\<close>

theorem cache_follows_registry:
  assumes "answers ops c name tag (received sels) r = (rs, r')"
    and "fst (runManagedUpdates ops c name tag sels (mr, r)) = (mr', q)"
  shows "view_of mr' = fold absorb rs (view_of mr) \<and> q = r'
     \<and> ((\<forall>x \<in> set rs. \<exists>e. x = Inl e \<and> \<not> errors_Is e ErrNoHealthyInstances) \<longrightarrow> view_of mr' = view_of mr)"
proof -
  have "mr' = fold cell.update rs mr" "q = r'"
    using runManagedUpdates_cell [of ops c name tag sels mr r] assms by simp_all
  moreover have "list_all cell.transient rs"
    if "\<forall>x \<in> set rs. \<exists>e. x = Inl e \<and> \<not> errors_Is e ErrNoHealthyInstances"
    using that by (auto simp: list_all_iff cell.transient_def)
  ultimately show ?thesis using cell.view_updates cell.last_authoritative(3) by auto
qed

definition flaky_ops :: "nat registry_ops" where
  "flaky_ops =
     \<lparr>opRegister = \<lambda>_ _ n. (None, n), opDeregister = \<lambda>_ _ n. (None, n),
      opResolve = \<lambda>_ _ _ n.
        (if n = 0 then Inr (empty_service\<lparr>sAddress := ''10.0.0.1''\<rparr>) else Inl (Foreign ''timeout''), n + 1),
      opWatch = \<lambda>_ _ n. ((LiveChan, None), n), opClose = None\<rparr>"

theorem cache_follows_registry_witness:
  "\<exists>mr' q. fst (runManagedUpdates flaky_ops Background ''a'' []
       [Received \<lparr>evType = EventRegistered, evService = empty_service\<rparr>,
        Received \<lparr>evType = EventRegistered, evService = empty_service\<rparr>, CtxDone] (new_resolver, 0)) = (mr', q)
     \<and> view_of mr' = Serving (empty_service\<lparr>sAddress := ''10.0.0.1''\<rparr>) \<and> q = 2"
proof -
  let ?ev = "Received \<lparr>evType = EventRegistered, evService = empty_service\<rparr>"
  let ?sels = "[?ev, ?ev, CtxDone]"
  obtain mr' q where r: "fst (runManagedUpdates flaky_ops Background ''a'' [] ?sels (new_resolver, 0)) = (mr', q)"
    by fastforce
  have "answers flaky_ops Background ''a'' [] (received ?sels) 0
      = ([Inr (empty_service\<lparr>sAddress := ''10.0.0.1''\<rparr>), Inl (Foreign ''timeout'')], 2)"
    by (simp add: flaky_ops_def)
  from cache_follows_registry [OF this r] r show ?thesis by simp
qed

end
