(* ===== verification/ConsulRegistry.thy ===== *)
theory ConsulRegistry
  imports Registry "HOL-Library.AList"
begin

text \<open>
  The Consul backend of \<open>consul.go\<close>: the tuned client configurations, registration with its TTL
  heartbeat, deregistration, resolution with the round-robin cursor, and shutdown. The Consul SDK
  is a parameter: a record of the client calls the library makes, each on the client
  configuration it goes through and the state of the server. The receiver is an \<open>option\<close>: None is
  the nil registry.

  The heartbeats are kept as the code keeps them: the map from service id to the cancel function
  of its context (an association list), the contexts (cancelled flags, indexed by creation) and the goroutines
  started on them. A goroutine is live while its context is not cancelled.
\<close>

section \<open>The SDK, as far as it is used\<close>

record transport =
  trDialTimeout :: duration
  trKeepAlive :: duration
  trForceHTTP2 :: bool
  trMaxIdleConns :: int
  trMaxIdleConnsPerHost :: int
  trIdleConnTimeout :: duration
  trTLSHandshakeTimeout :: duration
  trExpectContinueTimeout :: duration
  trResponseHeaderTimeout :: duration
  trTLSClientConfig :: bool

record api_config =
  acAddress :: string
  acScheme :: string
  acInsecureSkipVerify :: bool
  acToken :: string
  acTransport :: "transport option"

record query_options =
  qoAllowStale :: bool
  qoWaitIndex :: nat
  qoWaitTime :: duration
  qoCtx :: ctx

text \<open>The calls; an error is its text. \<open>apHealth\<close> returns the entries and the catalog index.\<close>

record 'c consul_api =
  apNewClient :: "api_config \<Rightarrow> string option"
  apRegister :: "api_config \<Rightarrow> ctx \<Rightarrow> registration \<Rightarrow> 'c \<Rightarrow> string option \<times> 'c"
  apDeregister :: "api_config \<Rightarrow> ctx \<Rightarrow> string \<Rightarrow> 'c \<Rightarrow> string option \<times> 'c"
  apUpdateTTL ::
    "api_config \<Rightarrow> ctx \<Rightarrow> string \<Rightarrow> string \<Rightarrow> check_status \<Rightarrow> 'c \<Rightarrow> string option \<times> 'c"
  apHealth ::
    "api_config \<Rightarrow> query_options \<Rightarrow> string \<Rightarrow> string \<Rightarrow> bool \<Rightarrow> 'c
       \<Rightarrow> (string + service_entry list \<times> nat) \<times> 'c"

section \<open>State\<close>

definition ttlHeartbeatFloor :: duration where "ttlHeartbeatFloor = second"
definition watchPollMargin :: duration where "watchPollMargin = 15 * second"
definition watchBackoffBase :: duration where "watchBackoffBase = 100 * millisecond"
definition watchBackoffMax :: duration where "watchBackoffMax = 30 * second"

record heartbeat =
  hbCtx :: nat
  hbReg :: registration
  hbInterval :: duration

record 'c consul_registry =
  crClient :: api_config
  crWatchClient :: api_config
  crAllowStale :: bool
  crWatchWaitTime :: duration
  crRR :: "64 word"
  crHeartbeats :: "(string \<times> nat) list"
  crClosed :: bool
  crCtxs :: "bool list"
  crLoops :: "heartbeat list"
  crWatches :: "string list"
  crServer :: 'c
  crTrace :: "log_call list"

section \<open>Construction\<close>

definition newTunedConfig :: "api_config \<Rightarrow> config \<Rightarrow> bool \<Rightarrow> api_config" where
  "newTunedConfig dflt c fast =
     (let cfg1 = dflt\<lparr>acAddress := ConsulAddr c\<rparr>;
          cfg2 = (if TLS c then cfg1\<lparr>acScheme := ''https''\<rparr> else cfg1);
          cfg3 = (if TLSSkipVerify c then cfg2\<lparr>acInsecureSkipVerify := True\<rparr> else cfg2);
          cfg4 = (if Token c \<noteq> [] then cfg3\<lparr>acToken := Token c\<rparr> else cfg3);
          tr = \<lparr>trDialTimeout = DialTimeout c, trKeepAlive = 30 * second, trForceHTTP2 = True,
                trMaxIdleConns = 100, trMaxIdleConnsPerHost = 100,
                trIdleConnTimeout = 90 * second, trTLSHandshakeTimeout = TLSHandshakeTimeout c,
                trExpectContinueTimeout = 1 * second, trResponseHeaderTimeout = 0,
                trTLSClientConfig = False\<rparr>;
          tr' = (if fast then tr\<lparr>trResponseHeaderTimeout := ResponseHeaderTimeout c\<rparr> else tr)
      in cfg4\<lparr>acTransport := Some tr'\<rparr>)"

definition newConsulRegistry ::
    "'c consul_api \<Rightarrow> api_config \<Rightarrow> 'c \<Rightarrow> config \<Rightarrow> go_error + 'c consul_registry" where
  "newConsulRegistry api dflt server c =
     (case apNewClient api (newTunedConfig dflt c True) of
        Some t \<Rightarrow> Inl (Errorf ''consul: create client: %w'' (Foreign t) [])
      | None \<Rightarrow>
          (case apNewClient api (newTunedConfig dflt c False) of
             Some t \<Rightarrow> Inl (Errorf ''consul: create watch client: %w'' (Foreign t) [])
           | None \<Rightarrow>
               Inr \<lparr>crClient = newTunedConfig dflt c True,
                    crWatchClient = newTunedConfig dflt c False,
                    crAllowStale = (case AllowStale c of None \<Rightarrow> True | Some b \<Rightarrow> b),
                    crWatchWaitTime = WatchWaitTime c, crRR = 0, crHeartbeats = [],
                    crClosed = False, crCtxs = [], crLoops = [], crWatches = [],
                    crServer = server, crTrace = []\<rparr>))"

definition queryOpts :: "'c consul_registry option \<Rightarrow> ctx \<Rightarrow> query_options" where
  "queryOpts r c =
     \<lparr>qoAllowStale = (case r of None \<Rightarrow> False | Some s \<Rightarrow> crAllowStale s),
      qoWaitIndex = 0, qoWaitTime = 0, qoCtx = c\<rparr>"

definition cr_log :: "log_level \<Rightarrow> string \<Rightarrow> log_item list \<Rightarrow> 'c consul_registry \<Rightarrow> 'c consul_registry"
  where "cr_log l m is r = r\<lparr>crTrace := crTrace r @ [logc l m is]\<rparr>"

section \<open>Heartbeats\<close>

definition isUnknownCheck :: "string option \<Rightarrow> bool" where
  "isUnknownCheck err =
     (case err of
        None \<Rightarrow> False
      | Some s \<Rightarrow> contains s ''404'' \<or> contains s ''does not exist'' \<or> contains s ''Unknown check'')"

definition heartbeatInterval :: "string \<Rightarrow> duration" where
  "heartbeatInterval ttl =
     (case parse_duration ttl of
        None \<Rightarrow> ttlHeartbeatFloor
      | Some d \<Rightarrow>
          let half = (if d < 0 then - ((- d) div 2) else d div 2)
          in if half > ttlHeartbeatFloor then half else ttlHeartbeatFloor)"

definition hb_ctx :: "nat \<Rightarrow> 'c consul_registry \<Rightarrow> ctx" where
  "hb_ctx i r = \<lparr>ctxDone = (i < length (crCtxs r) \<and> crCtxs r ! i), ctxDeadline = None\<rparr>"

definition hb_note :: string where "hb_note = ''lib-service-discovery heartbeat''"

text \<open>One heartbeat (the closure \<open>pass\<close>): pass the TTL, re-registering once if the check is gone.\<close>

definition heartbeat_pass ::
    "'c consul_api \<Rightarrow> nat \<Rightarrow> registration \<Rightarrow> 'c consul_registry \<Rightarrow> 'c consul_registry" where
  "heartbeat_pass api i reg r =
     (let checkID = ttlCheckID (rgID reg); ctx = hb_ctx i r;
          update = apUpdateTTL api (crClient r) ctx checkID hb_note HealthPassing;
          (err, s1) = update (crServer r);
          r1 = r\<lparr>crServer := s1\<rparr>
      in case err of
           None \<Rightarrow> r1
         | Some t \<Rightarrow>
             if \<not> isUnknownCheck (Some t)
             then cr_log LevelWarn ''ttl heartbeat failed''
                    [LString ''check'' checkID, LErr (Foreign t)] r1
             else
               let r2 = cr_log LevelWarn ''ttl check unknown; re-registering service''
                          [LString ''id'' (rgID reg)] r1;
                   (regErr, s2) = apRegister api (crClient r) ctx reg s1;
                   r3 = r2\<lparr>crServer := s2\<rparr>
               in (case regErr of
                     Some t2 \<Rightarrow> cr_log LevelWarn ''self-heal re-register failed''
                                  [LString ''id'' (rgID reg), LErr (Foreign t2)] r3
                   | None \<Rightarrow>
                       let (err2, s3) = update s2; r4 = r3\<lparr>crServer := s3\<rparr>
                       in (case err2 of
                             None \<Rightarrow> r4
                           | Some t3 \<Rightarrow> cr_log LevelWarn ''ttl heartbeat failed after re-register''
                                          [LString ''check'' checkID, LErr (Foreign t3)] r4)))"

definition cancel_ctx :: "nat \<Rightarrow> 'c consul_registry \<Rightarrow> 'c consul_registry" where
  "cancel_ctx i r = r\<lparr>crCtxs := (crCtxs r)[i := True]\<rparr>"

text \<open>The locked section after the first pass: refuse when closed, else replace and start the loop.\<close>

definition heartbeat_commit ::
    "nat \<Rightarrow> registration \<Rightarrow> duration \<Rightarrow> 'c consul_registry \<Rightarrow> 'c consul_registry" where
  "heartbeat_commit i reg interval r =
     (if crClosed r then cancel_ctx i r
      else let r1 = (case map_of (crHeartbeats r) (rgID reg) of None \<Rightarrow> r | Some prev \<Rightarrow> cancel_ctx prev r)
           in r1\<lparr>crHeartbeats := AList.update (rgID reg) i (crHeartbeats r1),
                 crLoops := crLoops r1 @ [\<lparr>hbCtx = i, hbReg = reg, hbInterval = interval\<rparr>]\<rparr>)"

definition startHeartbeat ::
    "'c consul_api \<Rightarrow> registration \<Rightarrow> string \<Rightarrow> 'c consul_registry \<Rightarrow> 'c consul_registry" where
  "startHeartbeat api reg ttl r =
     (if crClosed r then r
      else let i = length (crCtxs r);
               r1 = r\<lparr>crCtxs := crCtxs r @ [False]\<rparr>;
               r2 = heartbeat_pass api i reg r1
           in heartbeat_commit i reg (heartbeatInterval ttl) r2)"

definition live_loop :: "'c consul_registry \<Rightarrow> heartbeat \<Rightarrow> bool" where
  "live_loop r h \<longleftrightarrow> h \<in> set (crLoops r) \<and> hbCtx h < length (crCtxs r) \<and> \<not> crCtxs r ! hbCtx h"

text \<open>The ticker of one heartbeat loop fires: the loop passes, or returns once its context is done.\<close>

definition heartbeat_tick ::
    "'c consul_api \<Rightarrow> heartbeat \<Rightarrow> 'c consul_registry \<Rightarrow> 'c consul_registry" where
  "heartbeat_tick api h r =
     (if ctxDone (hb_ctx (hbCtx h) r)
      then r\<lparr>crLoops := removeAll h (crLoops r)\<rparr>
      else heartbeat_pass api (hbCtx h) (hbReg h) r)"

section \<open>The registry operations\<close>

definition consul_Register ::
    "'c consul_api \<Rightarrow> ctx \<Rightarrow> service \<Rightarrow> 'c consul_registry option
       \<Rightarrow> go_error option \<times> 'c consul_registry option" where
  "consul_Register api ctx svc0 mr =
     (case mr of
        None \<Rightarrow> (Some ErrNilRegistry, None)
      | Some r \<Rightarrow>
          let svc = normalizeEndpoints svc0;
              reg = registrationFor svc0;
              root = rootEndpoint svc;
              ttl = (case sHealthCheck svc of None \<Rightarrow> [] | Some hc \<Rightarrow> hcTTL hc);
              (err, s) = apRegister api (crClient r) ctx reg (crServer r);
              r1 = r\<lparr>crServer := s\<rparr>
          in (case err of
                Some t \<Rightarrow> (Some (Errorf ''consul: register %s: %w'' (Foreign t) [sName svc]), Some r1)
              | None \<Rightarrow>
                  let rootAddr = (case root of None \<Rightarrow> [] | Some e \<Rightarrow> Endpoint_Addr e);
                      r2 = cr_log LevelDebug ''service registered''
                             [LString ''id'' (sID svc), LString ''name'' (sName svc),
                              LString ''addr'' rootAddr] r1
                  in (None, Some (if ttl \<noteq> [] then startHeartbeat api reg ttl r2 else r2))))"

definition stop_heartbeat :: "string \<Rightarrow> 'c consul_registry \<Rightarrow> 'c consul_registry" where
  "stop_heartbeat serviceID r =
     (case map_of (crHeartbeats r) serviceID of
        None \<Rightarrow> r
      | Some i \<Rightarrow>
          (cancel_ctx i r)\<lparr>crHeartbeats := AList.delete serviceID (crHeartbeats r)\<rparr>)"

definition consul_Deregister ::
    "'c consul_api \<Rightarrow> ctx \<Rightarrow> string \<Rightarrow> 'c consul_registry option
       \<Rightarrow> go_error option \<times> 'c consul_registry option" where
  "consul_Deregister api ctx serviceID mr =
     (case mr of
        None \<Rightarrow> (Some ErrNilRegistry, None)
      | Some r \<Rightarrow>
          let r1 = stop_heartbeat serviceID r;
              (err, s) = apDeregister api (crClient r1) ctx serviceID (crServer r1);
              r2 = r1\<lparr>crServer := s\<rparr>
          in (case err of
                Some t \<Rightarrow> (Some (Errorf ''consul: deregister %s: %w'' (Foreign t) [serviceID]), Some r2)
              | None \<Rightarrow>
                  (None, Some (cr_log LevelDebug ''service deregistered''
                                 [LString ''id'' serviceID] r2))))"

text \<open>Close marks the registry closed and drains the map: cancel each entry's context, delete it.\<close>

definition drain_one :: "string \<times> nat \<Rightarrow> 'c consul_registry \<Rightarrow> 'c consul_registry" where
  "drain_one e r =
     (case e of (serviceID, i) \<Rightarrow>
        (cancel_ctx i r)\<lparr>crHeartbeats := AList.delete serviceID (crHeartbeats r)\<rparr>)"

definition close_heartbeats :: "'c consul_registry \<Rightarrow> 'c consul_registry" where
  "close_heartbeats r = fold drain_one (crHeartbeats r) (r\<lparr>crClosed := True\<rparr>)"

definition consul_Close ::
    "'c consul_registry option \<Rightarrow> go_error option \<times> 'c consul_registry option" where
  "consul_Close mr = (None, map_option close_heartbeats mr)"

text \<open>Go's \<open>%\<close> on signed integers keeps the sign of the dividend.\<close>

definition go_mod :: "int \<Rightarrow> int \<Rightarrow> int" where
  "go_mod a b = (if a < 0 then - ((- a) mod b) else a mod b)"

definition nextIndex :: "nat \<Rightarrow> 64 word \<Rightarrow> int \<times> 64 word" where
  "nextIndex n rr =
     (if n \<le> 1 then (0, rr) else let rr' = rr + 1 in (go_mod (sint (rr' - 1)) (int n), rr'))"

definition consul_Resolve ::
    "'c consul_api \<Rightarrow> ctx \<Rightarrow> string \<Rightarrow> string \<Rightarrow> 'c consul_registry option
       \<Rightarrow> (go_error + service) \<times> 'c consul_registry option" where
  "consul_Resolve api ctx name tag mr =
     (case mr of
        None \<Rightarrow> (Inl ErrNilRegistry, None)
      | Some r \<Rightarrow>
          let (res, s) = apHealth api (crClient r) (queryOpts mr ctx) name tag True (crServer r);
              r1 = r\<lparr>crServer := s\<rparr>
          in (case res of
                Inl t \<Rightarrow> (Inl (Errorf ''consul: resolve %s: %w'' (Foreign t) [name]), Some r1)
              | Inr (entries, index) \<Rightarrow>
                  if entries = []
                  then (Inl (Errorf ''%w: %s'' ErrNoHealthyInstances [name]), Some r1)
                  else let (i, rr') = nextIndex (length entries) (crRR r1);
                           r2 = r1\<lparr>crRR := rr'\<rparr>
                       in (if 0 \<le> i \<and> i < int (length entries)
                           then Inr (serviceFromEntry (entries ! nat i))
                           else Inl (Panic ''index out of range''), Some r2)))"

text \<open>Watch starts the loop of the theory \<open>ConsulWatch\<close> in a goroutine.\<close>

definition consul_Watch ::
    "ctx \<Rightarrow> string \<Rightarrow> 'c consul_registry option
       \<Rightarrow> (chan \<times> go_error option) \<times> 'c consul_registry option" where
  "consul_Watch ctx name mr =
     (case mr of
        None \<Rightarrow> ((ClosedChan, Some ErrNilRegistry), None)
      | Some r \<Rightarrow> ((LiveChan, None), Some (r\<lparr>crWatches := crWatches r @ [name]\<rparr>)))"

definition consul_ops :: "'c consul_api \<Rightarrow> 'c consul_registry option registry_ops" where
  "consul_ops api =
     \<lparr>opRegister = consul_Register api, opDeregister = consul_Deregister api,
      opResolve = consul_Resolve api, opWatch = consul_Watch, opClose = Some consul_Close\<rparr>"

end
