(* ===== verification/ConsulHeartbeats.thy ===== *)
theory ConsulHeartbeats
  imports ConsulRegistry
begin

text \<open>
  The heartbeat discipline of the Consul backend: the invariant that ties the map of cancel
  functions to the goroutines, its preservation by every operation, and the interpretation of the
  registry contracts. From it: at most one live heartbeat per service, none after a deregistration
  of that service, none after Close, whatever requests follow.
\<close>

section \<open>The invariant\<close>

definition hb_inv :: "'c consul_registry \<Rightarrow> bool" where
  "hb_inv r \<longleftrightarrow>
     distinct (map fst (crHeartbeats r)) \<and> distinct (map snd (crHeartbeats r))
     \<and> distinct (map hbCtx (crLoops r))
     \<and> (\<forall>(k, i) \<in> set (crHeartbeats r). i < length (crCtxs r))
     \<and> (\<forall>h \<in> set (crLoops r). hbCtx h < length (crCtxs r)
           \<and> (crCtxs r ! hbCtx h \<or> (rgID (hbReg h), hbCtx h) \<in> set (crHeartbeats r)))
     \<and> (crClosed r \<longrightarrow> crHeartbeats r = [])"

definition live_services :: "'c consul_registry \<Rightarrow> string set" where
  "live_services r = {rgID (hbReg h) | h. live_loop r h}"

lemma hb_invI:
  assumes "distinct (map fst (crHeartbeats r))" "distinct (map snd (crHeartbeats r))"
    "distinct (map hbCtx (crLoops r))"
    "\<And>k i. (k, i) \<in> set (crHeartbeats r) \<Longrightarrow> i < length (crCtxs r)"
    "\<And>h. h \<in> set (crLoops r) \<Longrightarrow> hbCtx h < length (crCtxs r)"
    "\<And>h. h \<in> set (crLoops r) \<Longrightarrow> \<not> crCtxs r ! hbCtx h \<Longrightarrow>
       (rgID (hbReg h), hbCtx h) \<in> set (crHeartbeats r)"
    "crClosed r \<Longrightarrow> crHeartbeats r = []"
  shows "hb_inv r"
  using assms unfolding hb_inv_def by blast

lemma hb_invD:
  assumes "hb_inv r"
  shows "distinct (map fst (crHeartbeats r))" "distinct (map snd (crHeartbeats r))"
    "distinct (map hbCtx (crLoops r))"
    "(k, i) \<in> set (crHeartbeats r) \<Longrightarrow> i < length (crCtxs r)"
    "h \<in> set (crLoops r) \<Longrightarrow> hbCtx h < length (crCtxs r)"
    "h \<in> set (crLoops r) \<Longrightarrow> \<not> crCtxs r ! hbCtx h \<Longrightarrow>
       (rgID (hbReg h), hbCtx h) \<in> set (crHeartbeats r)"
    "crClosed r \<Longrightarrow> crHeartbeats r = []"
  using assms unfolding hb_inv_def by blast+

text \<open>The part of the state the invariant reads.\<close>

definition hb_core where
  "hb_core r = (crHeartbeats r, crClosed r, crCtxs r, crLoops r)"

lemma hb_core_eq:
  assumes "hb_core r = hb_core r'"
  shows "hb_inv r = hb_inv r'" "live_services r = live_services r'" "crClosed r = crClosed r'"
    "live_loop r = live_loop r'"
  using assms by (auto simp: hb_core_def hb_inv_def live_services_def live_loop_def fun_eq_iff)

lemma hb_core_upd [simp]:
  "hb_core (r\<lparr>crServer := s\<rparr>) = hb_core r" "hb_core (r\<lparr>crTrace := t\<rparr>) = hb_core r"
  "hb_core (r\<lparr>crRR := w\<rparr>) = hb_core r" "hb_core (r\<lparr>crWatches := ws\<rparr>) = hb_core r"
  "hb_core (cr_log l m is r) = hb_core r"
  by (simp_all add: hb_core_def cr_log_def)

lemma hb_core_pass [simp]: "hb_core (heartbeat_pass api i reg r) = hb_core r"
  by (simp add: heartbeat_pass_def Let_def split: prod.splits option.splits)

lemma pass_fields [simp]:
  "crHeartbeats (heartbeat_pass api i reg r) = crHeartbeats r"
  "crClosed (heartbeat_pass api i reg r) = crClosed r"
  "crCtxs (heartbeat_pass api i reg r) = crCtxs r"
  "crLoops (heartbeat_pass api i reg r) = crLoops r"
  using hb_core_pass [of api i reg r] unfolding hb_core_def by simp_all

section \<open>Cancelling and committing\<close>

lemma cancel_ctx_fields [simp]:
  "crHeartbeats (cancel_ctx i r) = crHeartbeats r" "crClosed (cancel_ctx i r) = crClosed r"
  "crLoops (cancel_ctx i r) = crLoops r" "length (crCtxs (cancel_ctx i r)) = length (crCtxs r)"
  "crCtxs (cancel_ctx i r) = (crCtxs r)[i := True]"
  by (simp_all add: cancel_ctx_def)

lemma in_delete: "(k, v) \<in> set (AList.delete k' al) \<longleftrightarrow> k \<noteq> k' \<and> (k, v) \<in> set al"
  by (auto simp: AList.delete_eq)

lemma distinct_delete:
  "distinct (map fst al) \<Longrightarrow> distinct (map fst (AList.delete k al))"
  "distinct (map snd al) \<Longrightarrow> distinct (map snd (AList.delete k al))"
  by (simp_all add: AList.delete_eq distinct_map_filter)

text \<open>Dropping the entry of a service after cancelling its context keeps the invariant.\<close>

lemma drop_entry_inv:
  assumes inv: "hb_inv r" and e: "(k, i) \<in> set (crHeartbeats r)"
  shows "hb_inv ((cancel_ctx i r)\<lparr>crHeartbeats := AList.delete k (crHeartbeats r)\<rparr>)"
proof -
  note d = hb_invD [OF inv]
  have i: "i < length (crCtxs r)" using d(4) [OF e] .
  have other: "(rgID (hbReg h), hbCtx h) \<in> set (AList.delete k (crHeartbeats r))"
    if h: "h \<in> set (crLoops r)" "\<not> (crCtxs r)[i := True] ! hbCtx h" for h
  proof -
    have len: "hbCtx h < length (crCtxs r)" using d(5) [OF h(1)] .
    then have ne: "hbCtx h \<noteq> i" and "\<not> crCtxs r ! hbCtx h" using h(2) i by (auto simp: nth_list_update split: if_splits)
    then have "(rgID (hbReg h), hbCtx h) \<in> set (crHeartbeats r)" using d(6) [OF h(1)] by blast
    moreover have "rgID (hbReg h) \<noteq> k"
      using ne calculation e d(1) by (metis eq_key_imp_eq_value)
    ultimately show ?thesis by (simp add: in_delete)
  qed
  show ?thesis
    by (rule hb_invI) (use d other in \<open>auto simp: distinct_delete in_delete\<close>)
qed

lemma stop_heartbeat_inv [inv_intros]: "hb_inv r \<Longrightarrow> hb_inv (stop_heartbeat k r)"
  by (auto simp: stop_heartbeat_def drop_entry_inv map_of_SomeD split: option.splits)

lemma stop_heartbeat_fields [simp]:
  "crClosed (stop_heartbeat k r) = crClosed r"
  "crHeartbeats (stop_heartbeat k r) = AList.delete k (crHeartbeats r)"
  by (auto simp: stop_heartbeat_def delete_idem map_of_eq_None_iff split: option.splits)

lemma live_in_map:
  assumes "hb_inv r" "live_loop r h"
  shows "(rgID (hbReg h), hbCtx h) \<in> set (crHeartbeats r)"
  using assms hb_invD(6) by (auto simp: live_loop_def)

lemma live_services_map: "hb_inv r \<Longrightarrow> live_services r \<subseteq> fst ` set (crHeartbeats r)"
  by (force simp: live_services_def dest: live_in_map)

lemma one_loop_per_service:
  assumes "hb_inv r" "live_loop r h" "live_loop r h'" "rgID (hbReg h) = rgID (hbReg h')"
  shows "h = h'"
proof -
  have "hbCtx h = hbCtx h'"
    using live_in_map [OF assms(1,2)] live_in_map [OF assms(1,3)] assms(4) hb_invD(1) [OF assms(1)]
    by (metis eq_key_imp_eq_value)
  then show ?thesis
    using hb_invD(3) [OF assms(1)] assms(2,3) by (auto simp: live_loop_def distinct_map inj_on_def)
qed

text \<open>
  Committing a heartbeat on a context nobody uses yet. The same lemma serves the sequential
  \<open>startHeartbeat\<close> and the interleaved one.
\<close>

definition fresh_ctx :: "nat \<Rightarrow> 'c consul_registry \<Rightarrow> bool" where
  "fresh_ctx i r \<longleftrightarrow>
     i < length (crCtxs r) \<and> i \<notin> snd ` set (crHeartbeats r) \<and> i \<notin> hbCtx ` set (crLoops r)"

lemma set_update_alist:
  "distinct (map fst al) \<Longrightarrow>
     set (AList.update k v al) = insert (k, v) (set (AList.delete k al))"
  by (induction al) (force simp: AList.delete_eq)+

lemma distinct_snd_update:
  assumes "distinct (map fst al)" "distinct (map snd al)" "v \<notin> snd ` set al"
  shows "distinct (map snd (AList.update k v al))"
  using assms
proof (induction al)
  case (Cons a al)
  then show ?case
    using set_update_alist [of al k v] by (auto simp: image_iff AList.delete_eq)
qed simp

lemma commit_open_inv:
  assumes inv: "hb_inv r" and open_r: "\<not> crClosed r" and fresh: "fresh_ctx i r"
    and none: "rgID reg \<notin> fst ` set (crHeartbeats r)"
  shows "hb_inv (r\<lparr>crHeartbeats := AList.update (rgID reg) i (crHeartbeats r),
                   crLoops := crLoops r @ [\<lparr>hbCtx = i, hbReg = reg, hbInterval = iv\<rparr>]\<rparr>)"
proof -
  note d = hb_invD [OF inv]
  have upd: "set (AList.update (rgID reg) i (crHeartbeats r))
      = insert (rgID reg, i) (set (crHeartbeats r))"
    using none set_update_alist [OF d(1)] by (force simp: AList.delete_eq)
  show ?thesis
    by (rule hb_invI)
       (use d fresh open_r in \<open>auto simp: fresh_ctx_def upd distinct_update distinct_snd_update\<close>)
qed

lemma heartbeat_commit_inv:
  assumes inv: "hb_inv r" and fresh: "fresh_ctx i r"
  shows "hb_inv (heartbeat_commit i reg iv r)"
proof (cases "crClosed r")
  case True
  note d = hb_invD [OF inv]
  have "hb_inv (cancel_ctx i r)"
    by (rule hb_invI)
       (use d True fresh in \<open>auto simp: fresh_ctx_def nth_list_update split: if_splits\<close>)
  with True show ?thesis by (simp add: heartbeat_commit_def)
next
  case False
  show ?thesis
  proof (cases "map_of (crHeartbeats r) (rgID reg)")
    case None
    then have "rgID reg \<notin> fst ` set (crHeartbeats r)" by (simp add: map_of_eq_None_iff)
    from commit_open_inv [OF inv False fresh this, of iv] False None show ?thesis
      by (simp add: heartbeat_commit_def)
  next
    case (Some prev)
    let ?r = "(cancel_ctx prev r)\<lparr>crHeartbeats := AList.delete (rgID reg) (crHeartbeats r)\<rparr>"
    have e: "(rgID reg, prev) \<in> set (crHeartbeats r)" using Some by (rule map_of_SomeD)
    have "hb_inv ?r" by (rule drop_entry_inv [OF inv e])
    moreover have "fresh_ctx i ?r"
      using fresh by (auto simp: fresh_ctx_def in_delete)
    ultimately have new: "hb_inv (?r\<lparr>crHeartbeats := AList.update (rgID reg) i (crHeartbeats ?r),
        crLoops := crLoops ?r @ [\<lparr>hbCtx = i, hbReg = reg, hbInterval = iv\<rparr>]\<rparr>)"
      using False by (intro commit_open_inv) (auto simp: AList.delete_eq)
    let ?s = "heartbeat_commit i reg iv r"
    note d = hb_invD [OF new]
    have rest: "crCtxs ?s = (crCtxs r)[prev := True]" "crClosed ?s = crClosed r"
      "crLoops ?s = crLoops r @ [\<lparr>hbCtx = i, hbReg = reg, hbInterval = iv\<rparr>]"
      "crHeartbeats ?s = AList.update (rgID reg) i (crHeartbeats r)"
      using False Some by (simp_all add: heartbeat_commit_def)
    note d0 = hb_invD(1) [OF inv]
    have hb: "set (crHeartbeats ?s) = set (AList.update (rgID reg) i (AList.delete (rgID reg) (crHeartbeats r)))"
      unfolding rest(4) set_update_alist [OF d0] set_update_alist [OF distinct_delete(1) [OF d0]]
      by (simp add: AList.delete_eq)
    show ?thesis
      by (rule hb_invI)
         (use d hb rest False fresh hb_invD [OF inv] in
           \<open>auto simp: distinct_update distinct_snd_update fresh_ctx_def\<close>)
  qed
qed

section \<open>The operations keep the invariant\<close>

lemma add_ctx_inv: "hb_inv r \<Longrightarrow> hb_inv (r\<lparr>crCtxs := crCtxs r @ [b]\<rparr>)"
  by (rule hb_invI) (auto simp: nth_append dest: hb_invD split: if_splits)

lemma add_ctx_fresh: "hb_inv r \<Longrightarrow> fresh_ctx (length (crCtxs r)) (r\<lparr>crCtxs := crCtxs r @ [b]\<rparr>)"
  by (auto simp: fresh_ctx_def dest: hb_invD(4,5))

lemma fresh_ctx_core: "hb_core r = hb_core r' \<Longrightarrow> fresh_ctx i r = fresh_ctx i r'"
  by (simp add: hb_core_def fresh_ctx_def)

lemma startHeartbeat_inv [inv_intros]:
  assumes "hb_inv r" shows "hb_inv (startHeartbeat api reg ttl r)"
proof (cases "crClosed r")
  case False
  let ?r1 = "r\<lparr>crCtxs := crCtxs r @ [False]\<rparr>"
  let ?r2 = "heartbeat_pass api (length (crCtxs r)) reg ?r1"
  have "hb_inv ?r2" "fresh_ctx (length (crCtxs r)) ?r2"
    using add_ctx_inv [OF assms] add_ctx_fresh [OF assms] hb_core_eq(1) [OF hb_core_pass]
      fresh_ctx_core [OF hb_core_pass] by blast+
  then show ?thesis using False by (simp add: startHeartbeat_def Let_def heartbeat_commit_inv)
qed (simp add: startHeartbeat_def assms)

lemma startHeartbeat_closed [simp]: "crClosed r \<Longrightarrow> startHeartbeat api reg ttl r = r"
  by (simp add: startHeartbeat_def)

lemma startHeartbeat_keeps_closed [simp]: "crClosed (startHeartbeat api reg ttl r) = crClosed r"
  by (simp add: startHeartbeat_def heartbeat_commit_def Let_def split: option.splits)

lemma heartbeat_tick_inv [inv_intros]:
  assumes inv: "hb_inv r" shows "hb_inv (heartbeat_tick api h r)"
proof (cases "ctxDone (hb_ctx (hbCtx h) r)")
  case True
  have "distinct (map hbCtx (removeAll h (crLoops r)))"
    using hb_invD(3) [OF inv] by (simp add: distinct_map_filter removeAll_filter_not_eq)
  then have "hb_inv (r\<lparr>crLoops := removeAll h (crLoops r)\<rparr>)"
    by (intro hb_invI) (use hb_invD [OF inv] in auto)
  with True show ?thesis by (simp add: heartbeat_tick_def)
next
  case False
  then show ?thesis
    using inv by (simp add: heartbeat_tick_def hb_core_eq(1) [OF hb_core_pass])
qed

text \<open>Draining.\<close>

lemma drain_all:
  assumes "hb_inv (r\<lparr>crClosed := False\<rparr>)" "crHeartbeats r = es" "crClosed r"
  shows "hb_inv (fold drain_one es r) \<and> crHeartbeats (fold drain_one es r) = []
    \<and> crClosed (fold drain_one es r)"
  using assms
proof (induction es arbitrary: r)
  case Nil
  then show ?case by (auto intro!: hb_invI dest: hb_invD)
next
  case (Cons e es)
  obtain k i where e: "e = (k, i)" by (cases e)
  let ?r = "(cancel_ctx i r)\<lparr>crHeartbeats := AList.delete k (crHeartbeats r)\<rparr>"
  let ?o = "r\<lparr>crClosed := False\<rparr>"
  have "(k, i) \<in> set (crHeartbeats ?o)" using Cons.prems(2) e by simp
  moreover have "(cancel_ctx i ?o)\<lparr>crHeartbeats := AList.delete k (crHeartbeats ?o)\<rparr>
      = ?r\<lparr>crClosed := False\<rparr>"
    by (cases r) (simp add: cancel_ctx_def)
  ultimately have inv: "hb_inv (?r\<lparr>crClosed := False\<rparr>)"
    using drop_entry_inv [OF Cons.prems(1)] by metis
  have "distinct (map fst ((k, i) # es))"
    using hb_invD(1) [OF Cons.prems(1)] Cons.prems(2) e by simp
  then have "AList.delete k ((k, i) # es) = es"
    by (auto simp: AList.delete_eq filter_id_conv image_iff)
  then have "crHeartbeats ?r = es" "crClosed ?r" using Cons.prems(2,3) e by simp_all
  from Cons.IH [OF inv this] show ?case using e by (simp add: drain_one_def)
qed

lemma close_heartbeats_inv [inv_intros]: "hb_inv r \<Longrightarrow> hb_inv (close_heartbeats r)"
  and close_heartbeats_empty: "hb_inv r \<Longrightarrow> crHeartbeats (close_heartbeats r) = []"
  and close_heartbeats_closed: "hb_inv r \<Longrightarrow> crClosed (close_heartbeats r)"
proof -
  assume inv: "hb_inv r"
  have "hb_inv (r\<lparr>crClosed := True\<rparr>\<lparr>crClosed := False\<rparr>)"
    by (rule hb_invI) (use hb_invD [OF inv] in auto)
  from drain_all [OF this, of "crHeartbeats r"]
  show "hb_inv (close_heartbeats r)" "crHeartbeats (close_heartbeats r) = []"
    "crClosed (close_heartbeats r)"
    by (simp_all add: close_heartbeats_def)
qed

lemma close_heartbeats_twice:
  assumes "hb_inv r" "crClosed r" shows "close_heartbeats r = r"
  using assms hb_invD(7) [OF assms] by (cases r) (simp add: close_heartbeats_def)

lemma closed_no_live: "hb_inv r \<Longrightarrow> crClosed r \<Longrightarrow> live_services r = {}"
  using live_services_map [of r] hb_invD(7) [of r] by auto

section \<open>The registry contracts, for the Consul backend\<close>

text \<open>The nil registry has no state to keep: it holds the invariant, is closed and runs nothing.\<close>

definition cr_inv :: "'c consul_registry option \<Rightarrow> bool" where
  "cr_inv mr = (case mr of None \<Rightarrow> True | Some r \<Rightarrow> hb_inv r)"

definition cr_live :: "'c consul_registry option \<Rightarrow> string set" where
  "cr_live mr = (case mr of None \<Rightarrow> {} | Some r \<Rightarrow> live_services r)"

definition cr_closed :: "'c consul_registry option \<Rightarrow> bool" where
  "cr_closed mr = (case mr of None \<Rightarrow> True | Some r \<Rightarrow> crClosed r)"

lemmas cr_defs = cr_inv_def cr_live_def cr_closed_def

lemma core_server_trace:
  "hb_inv (r\<lparr>crServer := s\<rparr>) = hb_inv r" "hb_inv (cr_log l m is r) = hb_inv r"
  "hb_inv (r\<lparr>crRR := w\<rparr>) = hb_inv r" "hb_inv (r\<lparr>crWatches := ws\<rparr>) = hb_inv r"
  by (intro hb_core_eq(1); simp)+

lemma cr_log_closed [simp]: "crClosed (cr_log l m is r) = crClosed r"
  by (simp add: cr_log_def)

lemma consul_Register_inv:
  assumes "cr_inv mr"
  shows "cr_inv (snd (consul_Register api c svc mr))"
    "cr_closed (snd (consul_Register api c svc mr)) = cr_closed mr"
  using assms
  by (simp_all add: consul_Register_def cr_defs Let_def core_server_trace inv_intros
      split: option.splits prod.splits)

lemma consul_Deregister_inv:
  assumes "cr_inv mr"
  shows "cr_inv (snd (consul_Deregister api c i mr))"
    "cr_closed (snd (consul_Deregister api c i mr)) = cr_closed mr"
  using assms
  by (simp_all add: consul_Deregister_def cr_defs Let_def core_server_trace inv_intros
      split: option.splits prod.splits)

lemma consul_Resolve_inv:
  assumes "cr_inv mr"
  shows "cr_inv (snd (consul_Resolve api c n t mr))"
    "cr_closed (snd (consul_Resolve api c n t mr)) = cr_closed mr"
  using assms
  by (simp_all add: consul_Resolve_def cr_defs Let_def core_server_trace
      split: option.splits prod.splits sum.splits if_splits)

lemma consul_Watch_inv:
  assumes "cr_inv mr"
  shows "cr_inv (snd (consul_Watch c n mr))"
    "cr_closed (snd (consul_Watch c n mr)) = cr_closed mr"
  using assms by (simp_all add: consul_Watch_def cr_defs core_server_trace split: option.splits)

lemmas consul_op_invs = consul_Register_inv consul_Deregister_inv consul_Resolve_inv consul_Watch_inv

lemma consul_ops_sel [simp]:
  "opRegister (consul_ops api) = consul_Register api"
  "opDeregister (consul_ops api) = consul_Deregister api"
  "opResolve (consul_ops api) = consul_Resolve api"
  "opWatch (consul_ops api) = consul_Watch" "opClose (consul_ops api) = Some consul_Close"
  by (simp_all add: consul_ops_def)

lemma consul_after_close [simp]: "after_close (consul_ops api) mr = map_option close_heartbeats mr"
  by (simp add: after_close_def consul_Close_def)

interpretation consul: background_registry "consul_ops api" cr_inv cr_live cr_closed
  for api :: "'c consul_api"
proof
  fix r :: "'c consul_registry option" and q
  assume inv: "cr_inv r"
  show "cr_inv (after_request (consul_ops api) q r)"
    using inv by (cases q) (simp_all add: consul_op_invs)
  show "cr_inv (after_close (consul_ops api) r)"
    using inv by (auto simp: cr_inv_def intro: inv_intros split: option.splits)
  show "cr_closed (after_close (consul_ops api) r)"
    using inv by (auto simp: cr_defs close_heartbeats_closed split: option.splits)
  show "cr_live r = {}" if "cr_closed r"
    using inv that by (auto simp: cr_defs dest: closed_no_live split: option.splits)
  show "cr_closed (after_request (consul_ops api) q r)" if "cr_closed r"
    using inv that by (cases q) (simp_all add: consul_op_invs)
  show "after_close (consul_ops api) r = r" if "cr_closed r"
    using inv that by (cases r) (simp_all add: cr_defs close_heartbeats_twice)
qed

section \<open>After a registration or a deregistration\<close>

lemma stop_heartbeat_not_live:
  assumes "hb_inv r" shows "k \<notin> live_services (stop_heartbeat k r)"
  using live_services_map [OF stop_heartbeat_inv [OF assms]] by (force simp: AList.delete_eq)

lemma startHeartbeat_live:
  assumes inv: "hb_inv r" and "\<not> crClosed r"
  shows "live_loop (startHeartbeat api reg ttl r)
     \<lparr>hbCtx = length (crCtxs r), hbReg = reg, hbInterval = heartbeatInterval ttl\<rparr>"
proof -
  have "i < length (crCtxs r)" if "map_of (crHeartbeats r) (rgID reg) = Some i" for i
    using hb_invD(4) [OF inv map_of_SomeD [OF that]] .
  then show ?thesis
    using assms(2)
    by (auto simp: startHeartbeat_def Let_def heartbeat_commit_def live_loop_def nth_append
        nth_list_update split: option.splits)
qed

section \<open>Properties\<close>

text \<open>
  C22. A registration's TTL and its heartbeat fit. The TTL that \<open>ttlWithDefaults\<close> accepts prints a
  duration of at least 15s (30s by default, otherwise the larger of 15s and what was asked), which
  the heartbeat reads back as the same duration; it beats at exactly half of it, never faster than
  every 7.5s. The only refusal is an unparsable TTL, and it is an \<open>ErrInvalidTTL\<close>.
\<close>

theorem ttl_and_heartbeat:
  "(case ttlWithDefaults raw of
      Inr t \<Rightarrow> \<exists>d. parse_duration t = Some d
        \<and> d = (if trim_space raw = [] then 30 * second
               else max (15 * second) (the (parse_duration (trim_space raw))))
        \<and> heartbeatInterval t = d div 2 \<and> 7500000000 \<le> heartbeatInterval t
    | Inl e \<Rightarrow> trim_space raw \<noteq> [] \<and> parse_duration (trim_space raw) = None
        \<and> errors_Is e ErrInvalidTTL)"
proof -
  have beat: "heartbeatInterval (duration_string d) = d div 2 \<and> parse_duration (duration_string d) = Some d
      \<and> 7500000000 \<le> d div 2" if "15 * second \<le> d" "int64_range d" for d
  proof -
    have "(15 * second) div 2 \<le> d div 2" using that(1) by (rule zdiv_mono1) simp
    then show ?thesis
      using parse_duration_string [of d] that
      by (simp add: heartbeatInterval_def ttlHeartbeatFloor_def Let_def)
  qed
  have small: "int64_range (30 * second)" "int64_range (15 * second)"
    by (simp_all add: int64_range_def)
  show ?thesis
  proof (cases "trim_space raw = []")
    case True
    then show ?thesis using beat [of "30 * second"] small
      by (simp add: ttlWithDefaults_def Let_def default_durations)
  next
    case False
    show ?thesis
    proof (cases "parse_duration (trim_space raw)")
      case None
      with False show ?thesis by (simp add: ttlWithDefaults_def Let_def)
    next
      case (Some d)
      with parse_duration_range [OF Some] False beat [of "15 * second"] beat [of d] small show ?thesis
        by (simp add: ttlWithDefaults_def Let_def default_durations max_def)
    qed
  qed
qed

text \<open>A world in which every call succeeds, and what it leaves.\<close>

definition quiet_api :: "unit consul_api" where
  "quiet_api =
     \<lparr>apNewClient = \<lambda>_. None, apRegister = \<lambda>_ _ _ s. (None, s), apDeregister = \<lambda>_ _ _ s. (None, s),
      apUpdateTTL = \<lambda>_ _ _ _ _ s. (None, s), apHealth = \<lambda>_ _ _ _ _ s. (Inr ([], 1), s)\<rparr>"

definition default_api_config :: api_config where
  "default_api_config =
     \<lparr>acAddress = ''127.0.0.1:8500'', acScheme = ''http'', acInsecureSkipVerify = False, acToken = [],
      acTransport = None\<rparr>"

definition open_registry :: "unit consul_registry" where
  "open_registry =
     \<lparr>crClient = newTunedConfig default_api_config zero_config True,
      crWatchClient = newTunedConfig default_api_config zero_config False,
      crAllowStale = True, crWatchWaitTime = 30 * second, crRR = 0, crHeartbeats = [], crClosed = False,
      crCtxs = [], crLoops = [], crWatches = [], crServer = (), crTrace = []\<rparr>"

lemma newConsulRegistry_fields:
  assumes "newConsulRegistry api dflt server c = Inr r"
  shows "crClient r = newTunedConfig dflt c True" "crWatchClient r = newTunedConfig dflt c False"
    "crWatchWaitTime r = WatchWaitTime c" "crHeartbeats r = []" "crClosed r = False" "crCtxs r = []"
    "crLoops r = []" "crServer r = server" "crRR r = 0" "crTrace r = []"
    "crAllowStale r = (case AllowStale c of None \<Rightarrow> True | Some b \<Rightarrow> b)" "crWatches r = []"
  using assms by (auto simp: newConsulRegistry_def split: option.splits)

lemma newConsulRegistry_inv:
  "newConsulRegistry api dflt server c = Inr r \<Longrightarrow> hb_inv r"
  by (simp add: hb_inv_def newConsulRegistry_fields)

text \<open>
  Closing a registry stops its heartbeats for good: from a new registry, after any requests, a
  Close and any further requests, no service has a live heartbeat, and the registry keeps refusing
  new ones.
\<close>

lemma closed_registry_stays_quiet:
  assumes "newConsulRegistry api dflt server c = Inr r"
  shows "cr_live (fold (after_request (consul_ops api)) later
    (after_close (consul_ops api) (fold (after_request (consul_ops api)) earlier (Some r)))) = {}"
  using newConsulRegistry_inv [OF assms]
  by (intro consul.quiet_forever consul.inv_requests) (simp add: cr_inv_def)

lemma stop_heartbeat_others:
  assumes inv: "hb_inv r"
  shows "live_services (stop_heartbeat k r) = live_services r - {k}"
proof (cases "map_of (crHeartbeats r) k")
  case None
  then have "k \<notin> live_services r" using live_services_map [OF inv] by (auto simp: map_of_eq_None_iff)
  with None show ?thesis by (simp add: stop_heartbeat_def)
next
  case (Some i)
  have e: "(k, i) \<in> set (crHeartbeats r)" using Some by (rule map_of_SomeD)
  have "live_loop (stop_heartbeat k r) h \<longleftrightarrow> live_loop r h \<and> rgID (hbReg h) \<noteq> k" for h
  proof (cases "live_loop r h")
    case True
    then have h: "(rgID (hbReg h), hbCtx h) \<in> set (crHeartbeats r)" by (rule live_in_map [OF inv])
    have "rgID (hbReg h) = k \<longleftrightarrow> hbCtx h = i"
      using h e hb_invD(1,2) [OF inv]
      by (metis (no_types, lifting) eq_key_imp_eq_value distinct_map fst_conv inj_onD prod.inject snd_conv)
    with True Some show ?thesis
      by (auto simp: stop_heartbeat_def live_loop_def nth_list_update)
  next
    case False
    then show ?thesis
      using Some by (cases "hbCtx h = i") (auto simp: stop_heartbeat_def live_loop_def)
  qed
  then show ?thesis by (auto simp: live_services_def)
qed

lemma live_services_core [simp]:
  "live_services (r\<lparr>crServer := s\<rparr>) = live_services r"
  "live_services (cr_log l m is r) = live_services r"
  by (intro hb_core_eq(2); simp)+

text \<open>
  Deregister stops the service's heartbeat whatever Consul answers, and no other one.
\<close>

lemma deregister_stops_heartbeat:
  assumes "hb_inv r" and "consul_Deregister api c k (Some r) = (err, Some r')"
  shows "live_services r' = live_services r - {k}"
proof -
  have "live_services r' = live_services (stop_heartbeat k r)"
    using assms(2) unfolding consul_Deregister_def Let_def
    by (simp split: prod.splits option.splits) (metis live_services_core)+
  then show ?thesis by (simp add: stop_heartbeat_others [OF assms(1)])
qed

definition ttl_service :: service where
  "ttl_service = empty_service\<lparr>sID := ''a-1'', sAddress := ''10.0.0.1'', sPort := 80,
     sHealthCheck := Some \<lparr>hcHTTP = [], hcInterval = [], hcTimeout = [], hcPath = [], hcTTL = ''30s''\<rparr>\<rparr>"

text \<open>
  A registration with a TTL on an open registry leaves exactly one live heartbeat for the
  service, the new one, also when the service was already registered with another.
\<close>

lemma register_starts_one_heartbeat:
  assumes "hb_inv r" and "\<not> crClosed r" and "consul_Register api c svc (Some r) = (None, Some r')"
    and "sHealthCheck svc = Some hc" and "hcTTL hc \<noteq> []"
  shows "{h. live_loop r' h \<and> rgID (hbReg h) = sID svc}
     = {\<lparr>hbCtx = length (crCtxs r), hbReg = registrationFor svc,
         hbInterval = heartbeatInterval (hcTTL hc)\<rparr>}" (is "_ = {?h}")
proof -
  obtain items s where "r' = startHeartbeat api (registrationFor svc) (hcTTL hc)
      (cr_log LevelDebug ''service registered'' items (r\<lparr>crServer := s\<rparr>))" (is "_ = startHeartbeat _ _ _ ?r1")
    using assms(3-5) by (auto simp: consul_Register_def Let_def split: prod.splits option.splits)
  then obtain r1 where r1: "hb_core r1 = hb_core r"
    and r': "r' = startHeartbeat api (registrationFor svc) (hcTTL hc) r1"
    using that [of ?r1] by simp
  have inv: "hb_inv r1" "\<not> crClosed r1" "length (crCtxs r1) = length (crCtxs r)"
    using assms(1,2) r1 hb_core_eq [OF r1] by (simp_all add: hb_core_def)
  have "live_loop r' ?h"
    using startHeartbeat_live [OF inv(1,2), of api "registrationFor svc" "hcTTL hc"] r' inv(3) by simp
  moreover have "hb_inv r'" unfolding r' by (rule startHeartbeat_inv [OF inv(1)])
  ultimately show ?thesis by (auto dest: one_loop_per_service)
qed

text \<open>
  What the library relies on a reachable agent for: it accepts registrations, and it accepts a
  TTL pass exactly for the checks of the services it knows, reporting the others as unknown.
\<close>

definition unknown_check :: "string \<Rightarrow> string" where
  "unknown_check i = ''Unexpected response code: 404 (Unknown check ID '' @ i @ '')''"

definition agent_laws :: "'c consul_api \<Rightarrow> ('c \<Rightarrow> string set) \<Rightarrow> bool" where
  "agent_laws api known \<longleftrightarrow>
     (\<forall>cl c reg s. \<not> ctxDone c \<longrightarrow>
        fst (apRegister api cl c reg s) = None
        \<and> known (snd (apRegister api cl c reg s)) = insert (rgID reg) (known s))
     \<and> (\<forall>cl c i nt st s. \<not> ctxDone c \<longrightarrow>
        fst (apUpdateTTL api cl c (ttlCheckID i) nt st s)
          = (if i \<in> known s then None
             else Some (unknown_check (ttlCheckID i)))
        \<and> known (snd (apUpdateTTL api cl c (ttlCheckID i) nt st s)) = known s)"

lemma has_prefix_grow: "has_prefix s p \<Longrightarrow> has_prefix (s @ t) p"
  unfolding has_prefix_def by (metis append_take_drop_id append_assoc append_eq_conv_conj)

lemma contains_append: "contains s sub \<Longrightarrow> contains (s @ t) sub"
proof (induction s)
  case Nil
  then have "has_prefix [] sub" by (subst (asm) contains.simps) simp
  then show ?case using has_prefix_grow [of "[]" sub t] by (subst contains.simps) simp
next
  case (Cons c s)
  from Cons.prems have "has_prefix (c # s) sub \<or> contains s sub" by (subst (asm) contains.simps) simp
  with Cons.IH has_prefix_grow [of "c # s" sub t] show ?case by (subst contains.simps) auto
qed

lemma unknown_check_text: "isUnknownCheck (Some (unknown_check i))"
proof -
  have "contains ''Unexpected response code: 404 (Unknown check ID '' ''404''" by code_simp
  then have "contains (unknown_check i) ''404''" unfolding unknown_check_def by (rule contains_append)
  then show ?thesis by (simp add: isUnknownCheck_def)
qed

text \<open>
  C23. Self-healing: a tick of a live heartbeat leaves its service registered, also when the agent
  had lost it, and changes nothing else of what the agent knows; the heartbeat stays live.
\<close>

theorem heartbeat_self_heals:
  assumes "agent_laws api known" and "live_loop r h"
  shows "known (crServer (heartbeat_tick api h r)) = insert (rgID (hbReg h)) (known (crServer r))
     \<and> live_loop (heartbeat_tick api h r) h"
proof -
  let ?ctx = "hb_ctx (hbCtx h) r"
  have run: "\<not> ctxDone ?ctx" using assms(2) by (simp add: hb_ctx_def live_loop_def)
  then have tick: "heartbeat_tick api h r = heartbeat_pass api (hbCtx h) (hbReg h) r"
    by (simp add: heartbeat_tick_def)
  have reg: "fst (apRegister api cl ?ctx reg s) = None"
      "known (snd (apRegister api cl ?ctx reg s)) = insert (rgID reg) (known s)" for cl reg s
    using assms(1) run by (simp_all add: agent_laws_def)
  have upd: "fst (apUpdateTTL api cl ?ctx (ttlCheckID i) nt st s)
        = (if i \<in> known s then None
           else Some (unknown_check (ttlCheckID i)))"
      "known (snd (apUpdateTTL api cl ?ctx (ttlCheckID i) nt st s)) = known s" for cl i nt st s
    using assms(1) run by (simp_all add: agent_laws_def)
  have "known (crServer (heartbeat_pass api (hbCtx h) (hbReg h) r))
      = insert (rgID (hbReg h)) (known (crServer r))"
    using reg upd unknown_check_text
    by (cases "rgID (hbReg h) \<in> known (crServer r)")
       (simp_all add: heartbeat_pass_def Let_def case_prod_unfold cr_log_def insert_absorb
          split: option.splits)
  moreover have "live_loop (heartbeat_pass api (hbCtx h) (hbReg h) r) h"
    using assms(2) by (simp add: hb_core_eq(4) [OF hb_core_pass])
  ultimately show ?thesis by (simp add: tick)
qed

definition agent_api :: "string set consul_api" where
  "agent_api =
     \<lparr>apNewClient = \<lambda>_. None, apRegister = \<lambda>_ _ reg s. (None, insert (rgID reg) s),
      apDeregister = \<lambda>_ _ i s. (None, s - {i}),
      apUpdateTTL = \<lambda>_ _ check _ _ s.
        (if drop 8 check \<in> s then None
         else Some (unknown_check check), s),
      apHealth = \<lambda>_ _ _ _ _ s. (Inr ([], 1), s)\<rparr>"

theorem heartbeat_self_heals_witness:
  "\<exists>r h. live_loop r h \<and> crServer r = {} \<and> crServer (heartbeat_tick agent_api h r) = {''a-1''}"
proof -
  let ?h = "\<lparr>hbCtx = 0, hbReg = registrationFor ttl_service, hbInterval = 15 * second\<rparr>"
  obtain r :: "string set consul_registry" where
    r: "crCtxs r = [False]" "crLoops r = [?h]" "crServer r = {}"
    by (metis consul_registry.select_convs(8,9,11))
  have laws: "agent_laws agent_api (\<lambda>s. s)"
    by (simp add: agent_laws_def agent_api_def ttlCheckID_def)
  have live: "live_loop r ?h" using r by (simp add: live_loop_def)
  from heartbeat_self_heals [OF laws live] r(3) have
    "crServer (heartbeat_tick agent_api ?h r) = {''a-1''}"
    by (simp add: ttl_service_def empty_service_def)
  with live r(3) show ?thesis by blast
qed

end
