(* ===== verification/ConsulWatch.thy ===== *)
theory ConsulWatch
  imports ConsulHeartbeats "HOL-Library.Sublist"
begin

text \<open>
  The catalog watch of \<open>consul.go\<close>: the exponential backoff, the blocking-query loop and the
  emission of events. The loop runs against a script of turns, one per iteration, that says what
  the environment did in it: whether the context was done, what the poll returned, whether a sleep
  or a send was cut short by the context. What the loop does is a list of actions.
\<close>

section \<open>Backoff\<close>

definition backoffDuration :: "int \<Rightarrow> duration" where
  "backoffDuration attempt0 =
     (let attempt = (if attempt0 < 0 then 0 else attempt0) in
      if attempt \<ge> 9 then watchBackoffMax
      else let d = wrap64 (push_bit (nat attempt) watchBackoffBase)
           in if d > watchBackoffMax then watchBackoffMax else d)"

section \<open>The loop\<close>

datatype watch_action =
    Poll api_config query_options string
  | Emit event
  | LogPollFailed string int go_error
  | Sleep duration
  | CloseChan

record turn =
  tnDone :: bool
  tnResult :: "string + service_entry list \<times> nat"
  tnDoneAfterPoll :: bool
  tnSlept :: bool
  tnSendStops :: "nat option"

record watch_state =
  wsLast :: nat
  wsAttempt :: int

definition entry_event :: "service_entry \<Rightarrow> event" where
  "entry_event e = \<lparr>evType = eventTypeFor e, evService = serviceFromEntry e\<rparr>"

text \<open>\<open>stop = Some k\<close>: the context is done before the send of entry \<open>k\<close>.\<close>

fun emitEntries :: "nat option \<Rightarrow> service_entry list \<Rightarrow> event list \<times> bool" where
  "emitEntries stop [] = ([], True)"
| "emitEntries stop (e # es) =
     (if stop = Some 0 then ([], False)
      else case emitEntries (map_option (\<lambda>k. k - 1) stop) es of
             (evs, ok) \<Rightarrow> (entry_event e # evs, ok))"

definition poll_options :: "'c consul_registry \<Rightarrow> ctx \<Rightarrow> nat \<Rightarrow> query_options" where
  "poll_options r ctx lastIndex =
     (queryOpts (Some r) (WithTimeout ctx (wrap64 (crWatchWaitTime r + watchPollMargin))))
       \<lparr>qoWaitIndex := lastIndex, qoWaitTime := crWatchWaitTime r\<rparr>"

text \<open>One iteration: its actions, and the next state unless the loop returned.\<close>

definition watch_turn ::
    "'c consul_registry \<Rightarrow> ctx \<Rightarrow> string \<Rightarrow> turn \<Rightarrow> watch_state
       \<Rightarrow> watch_action list \<times> watch_state option" where
  "watch_turn r ctx name t st =
     (if tnDone t then ([], None)
      else let poll = Poll (crWatchClient r) (poll_options r ctx (wsLast st)) name in
        case tnResult t of
          Inl err \<Rightarrow>
            if tnDoneAfterPoll t then ([poll], None)
            else let acts = [poll, LogPollFailed name (wsAttempt st) (Foreign err),
                             Sleep (backoffDuration (wsAttempt st))]
                 in if \<not> tnSlept t then (acts, None)
                    else (acts, Some (st\<lparr>wsAttempt := wsAttempt st + 1\<rparr>))
        | Inr (entries, index) \<Rightarrow>
            let st1 = st\<lparr>wsAttempt := 0\<rparr> in
            if index < wsLast st1 then ([poll], Some (st1\<lparr>wsLast := 0\<rparr>))
            else if index = wsLast st1 then ([poll], Some st1)
            else case emitEntries (tnSendStops t) entries of
                   (evs, ok) \<Rightarrow>
                     (poll # map Emit evs, if ok then Some (st1\<lparr>wsLast := index\<rparr>) else None))"

text \<open>The loop over a script. The deferred \<open>close(ch)\<close> runs when it returns.\<close>

fun watch_run ::
    "'c consul_registry \<Rightarrow> ctx \<Rightarrow> string \<Rightarrow> turn list \<Rightarrow> watch_state
       \<Rightarrow> watch_action list \<times> watch_state option" where
  "watch_run r ctx name [] st = ([], Some st)"
| "watch_run r ctx name (t # ts) st =
     (case watch_turn r ctx name t st of
        (acts, None) \<Rightarrow> (acts @ [CloseChan], None)
      | (acts, Some st') \<Rightarrow>
          (case watch_run r ctx name ts st' of (acts', st'') \<Rightarrow> (acts @ acts', st'')))"

definition watchLoop ::
    "'c consul_registry \<Rightarrow> ctx \<Rightarrow> string \<Rightarrow> turn list \<Rightarrow> watch_action list \<times> watch_state option"
  where "watchLoop r ctx name ts = watch_run r ctx name ts \<lparr>wsLast = 0, wsAttempt = 0\<rparr>"

section \<open>Projections of a run\<close>

fun events_of :: "watch_action list \<Rightarrow> event list" where
  "events_of [] = []"
| "events_of (Emit e # as) = e # events_of as"
| "events_of (a # as) = events_of as"

fun sleeps_of :: "watch_action list \<Rightarrow> duration list" where
  "sleeps_of [] = []"
| "sleeps_of (Sleep d # as) = d # sleeps_of as"
| "sleeps_of (a # as) = sleeps_of as"

fun polls_of :: "watch_action list \<Rightarrow> query_options list" where
  "polls_of [] = []"
| "polls_of (Poll c q n # as) = q # polls_of as"
| "polls_of (a # as) = polls_of as"

definition undisturbed :: "turn \<Rightarrow> bool" where
  "undisturbed t \<longleftrightarrow> \<not> tnDone t \<and> \<not> tnDoneAfterPoll t \<and> tnSlept t \<and> tnSendStops t = None"

text \<open>
  The abstract reading of a sequence of poll results: the index the next poll waits on, and the
  snapshots that are published (an index different from 0 and beyond the last one accepted).
\<close>

fun published :: "nat \<Rightarrow> (string + service_entry list \<times> nat) list \<Rightarrow> service_entry list list" where
  "published lastIndex [] = []"
| "published lastIndex (Inl e # rs) = published lastIndex rs"
| "published lastIndex (Inr (es, i) # rs) =
     (if i < lastIndex then published 0 rs
      else if i = lastIndex then published lastIndex rs else es # published i rs)"

section \<open>Lemmas\<close>

lemmas watch_constants = watchBackoffBase_def watchBackoffMax_def watchPollMargin_def

lemma pow_bound: "n < 9 \<Longrightarrow> (1::int) \<le> 2 ^ n \<and> (2::int) ^ n \<le> 256"
  using power_increasing [of n 8 "2::int"] by simp

lemma backoff_small:
  assumes "0 \<le> a" "a < 9" shows "backoffDuration a = watchBackoffBase * 2 ^ nat a"
proof -
  have p: "(1::int) \<le> 2 ^ nat a \<and> (2::int) ^ nat a \<le> 256" using assms by (intro pow_bound) simp
  have le: "0 \<le> watchBackoffBase * 2 ^ nat a" "watchBackoffBase * 2 ^ nat a \<le> watchBackoffMax"
    using p unfolding watch_constants by linarith+
  have "watchBackoffMax < 2 ^ 63" by (simp add: watch_constants)
  with le have "int64_range (watchBackoffBase * 2 ^ nat a)" unfolding int64_range_def by linarith
  with le show ?thesis using assms by (simp add: backoffDuration_def Let_def push_bit_eq_mult)
qed

lemma backoff_large: "9 \<le> a \<Longrightarrow> backoffDuration a = watchBackoffMax"
  by (simp add: backoffDuration_def Let_def)

lemma backoff_negative: "a < 0 \<Longrightarrow> backoffDuration a = watchBackoffBase"
  using backoff_small [of 0] by (simp add: backoffDuration_def Let_def)

lemma backoff_bounds: "watchBackoffBase \<le> backoffDuration a \<and> backoffDuration a \<le> watchBackoffMax"
proof -
  consider "a < 0" | "0 \<le> a" "a < 9" | "9 \<le> a" by linarith
  then show ?thesis
  proof cases
    case 2
    have "(1::int) \<le> 2 ^ nat a \<and> (2::int) ^ nat a \<le> 256" using 2 by (intro pow_bound) simp
    with 2 show ?thesis by (simp add: backoff_small watch_constants)
  qed (simp_all add: backoff_large backoff_negative watch_constants)
qed

lemma backoff_mono: "a \<le> b \<Longrightarrow> backoffDuration a \<le> backoffDuration b"
proof -
  assume ab: "a \<le> b"
  consider "a < 0" | "9 \<le> b" | "0 \<le> a" "b < 9" by linarith
  then show ?thesis
  proof cases
    case 3
    with ab have "(2::int) ^ nat a \<le> 2 ^ nat b" by (intro power_increasing) simp_all
    with 3 ab show ?thesis by (simp add: backoff_small watch_constants)
  qed (use backoff_bounds in \<open>auto simp: backoff_negative backoff_large\<close>)
qed

lemma projections_append [simp]:
  "events_of (as @ bs) = events_of as @ events_of bs"
  "sleeps_of (as @ bs) = sleeps_of as @ sleeps_of bs"
  "polls_of (as @ bs) = polls_of as @ polls_of bs"
proof -
  show "events_of (as @ bs) = events_of as @ events_of bs"
    by (induction as rule: events_of.induct) simp_all
  show "sleeps_of (as @ bs) = sleeps_of as @ sleeps_of bs"
    by (induction as rule: sleeps_of.induct) simp_all
  show "polls_of (as @ bs) = polls_of as @ polls_of bs"
    by (induction as rule: polls_of.induct) simp_all
qed

lemma projections_emit [simp]:
  "events_of (map Emit es) = es" "events_of (map (Emit \<circ> f) xs) = map f xs" "sleeps_of (map Emit es) = []" "polls_of (map Emit es) = []"
proof -
  show "events_of (map (Emit \<circ> f) xs) = map f xs" by (induction xs) simp_all
qed (induction es; simp)+

lemma emitEntries_all [simp]: "emitEntries None es = (map entry_event es, True)"
  by (induction es) simp_all

lemma emitEntries_stop: "emitEntries (Some k) es = (map entry_event (take k es), length es \<le> k)"
  by (induction es arbitrary: k) (auto simp: take_Cons' split: nat.splits)

lemma watch_run_Cons:
  "fst (watch_run r ctx name (t # ts) st) =
     fst (watch_turn r ctx name t st) @
     (case snd (watch_turn r ctx name t st) of
        None \<Rightarrow> [CloseChan] | Some st' \<Rightarrow> fst (watch_run r ctx name ts st'))"
  by (auto split: prod.splits option.splits)

lemma watch_run_events:
  assumes "list_all undisturbed ts"
  shows "events_of (fst (watch_run r ctx name ts st))
     = concat (map (map entry_event) (published (wsLast st) (map tnResult ts)))"
  using assms
proof (induction ts arbitrary: st)
  case (Cons t ts)
  show ?case
  proof (cases "tnResult t")
    case (Inl err)
    with Cons show ?thesis
      by (simp add: watch_run_Cons watch_turn_def undisturbed_def Let_def del: watch_run.simps)
  next
    case (Inr p)
    obtain es i where p: "p = (es, i)" by (cases p)
    with Cons Inr show ?thesis
      by (simp add: watch_run_Cons watch_turn_def undisturbed_def Let_def del: watch_run.simps)
  qed
qed simp

text \<open>Nothing is done after the channel is closed, and it is closed exactly when the loop returns.\<close>

lemma watch_turn_no_close: "CloseChan \<notin> set (fst (watch_turn r ctx name t st))"
  by (auto simp: watch_turn_def Let_def split: sum.splits prod.splits)

lemma watch_run_close:
  "(case watch_run r ctx name ts st of
      (acts, None) \<Rightarrow> \<exists>as. acts = as @ [CloseChan] \<and> CloseChan \<notin> set as
    | (acts, Some st') \<Rightarrow> CloseChan \<notin> set acts)"
proof (induction ts arbitrary: st)
  case (Cons t ts)
  obtain acts next_st where wt: "watch_turn r ctx name t st = (acts, next_st)"
    by (cases "watch_turn r ctx name t st")
  have nc: "CloseChan \<notin> set acts" using watch_turn_no_close [of r ctx name t st] wt by simp
  show ?case
  proof (cases next_st)
    case None
    with wt nc show ?thesis by simp
  next
    case (Some st')
    with wt nc Cons.IH [of st'] show ?thesis
      by (auto split: prod.splits option.splits)
  qed
qed simp

text \<open>A stretch of failing polls sleeps the backoff of each attempt in turn.\<close>

lemma failing_sleeps:
  assumes "\<forall>t \<in> set ts. undisturbed t \<and> (\<exists>e. tnResult t = Inl e)"
  shows "sleeps_of (fst (watch_run r ctx name ts st))
     = map (\<lambda>i. backoffDuration (wsAttempt st + int i)) [0..<length ts]"
  using assms
proof (induction ts arbitrary: st)
  case (Cons t ts)
  then obtain e where e: "tnResult t = Inl e" "undisturbed t" by auto
  have "map (\<lambda>i. backoffDuration (wsAttempt st + int i)) [0..<Suc (length ts)]
      = backoffDuration (wsAttempt st)
        # map (\<lambda>i. backoffDuration (wsAttempt st + int (Suc i))) [0..<length ts]"
    by (simp only: map_upt_Suc) simp
  moreover have "wsAttempt st + int (Suc i) = (wsAttempt st + 1) + int i" for i by simp
  ultimately show ?case
    using Cons e
    by (simp add: watch_run_Cons watch_turn_def undisturbed_def Let_def del: upt_Suc watch_run.simps
        of_nat_Suc)
qed simp

lemma sleeps_append: "sleeps_of (as @ bs) = sleeps_of as @ sleeps_of bs"
  by (induction as rule: sleeps_of.induct) simp_all

lemma sleeps_emit [simp]: "sleeps_of (map Emit evs) = []"
  by (induction evs) simp_all

lemma watch_run_append:
  "snd (watch_run r ctx name ts st) = Some st' \<Longrightarrow>
     fst (watch_run r ctx name (ts @ us) st) = fst (watch_run r ctx name ts st) @ fst (watch_run r ctx name us st')"
proof (induction ts arbitrary: st)
  case (Cons t ts)
  from Cons.prems obtain q where q: "snd (watch_turn r ctx name t st) = Some q" "snd (watch_run r ctx name ts q) = Some st'"
    by (auto split: prod.splits option.splits)
  then show ?case using Cons.IH [OF q(2)] by (simp add: watch_run_Cons del: watch_run.simps)
qed simp

text \<open>A poll that is answered sleeps nothing and resets the attempt counter.\<close>

lemma emits_all: "snd (emitEntries None es)"
  by (induction es) (auto split: prod.splits)

lemma answered_turn:
  assumes "undisturbed t" "tnResult t = Inr answer"
  shows "\<exists>st'. snd (watch_turn r ctx name t st) = Some st' \<and> wsAttempt st' = 0
     \<and> sleeps_of (fst (watch_turn r ctx name t st)) = []"
proof -
  obtain es i evs ok where a: "answer = (es, i)" "emitEntries None es = (evs, ok)" by fastforce
  then have "ok" using emits_all [of es] by simp
  with a assms show ?thesis by (auto simp: watch_turn_def undisturbed_def Let_def)
qed

text \<open>The options of every poll of a run.\<close>

lemma watch_run_polls:
  "q \<in> set (polls_of (fst (watch_run r ctx name ts st))) \<Longrightarrow>
     \<exists>lastIndex. q = poll_options r ctx lastIndex"
proof (induction ts arbitrary: st)
  case (Cons t ts)
  have "q \<in> set (polls_of (fst (watch_turn r ctx name t st))) \<Longrightarrow>
      q = poll_options r ctx (wsLast st)"
    by (auto simp: watch_turn_def Let_def split: sum.splits prod.splits if_splits)
  with Cons show ?case
    by (auto simp: watch_run_Cons simp del: watch_run.simps split: option.splits)
qed simp

section \<open>Properties\<close>

lemma prefix_events_turn:
  "prefix (events_of (fst (watch_turn r ctx name t st)))
     (case tnResult t of Inl e \<Rightarrow> []
      | Inr (es, i) \<Rightarrow> if i \<le> wsLast st then [] else map entry_event es)"
proof (cases "tnResult t")
  case (Inr p)
  obtain es i where "p = (es, i)" by (cases p)
  with Inr show ?thesis
    by (cases "tnSendStops t") (auto simp: watch_turn_def Let_def emitEntries_stop intro: map_mono_prefix take_is_prefix)
qed (auto simp: watch_turn_def Let_def)

lemma published_turn:
  "\<exists>rest. concat (map (map entry_event) (published (wsLast st) (map tnResult (t # ts))))
     = (case tnResult t of Inl e \<Rightarrow> []
        | Inr (es, i) \<Rightarrow> if i \<le> wsLast st then [] else map entry_event es) @ rest"
  by (cases "tnResult t") (auto split: prod.splits)

lemma published_step:
  assumes "snd (watch_turn r ctx name t st) = Some st'"
  shows "concat (map (map entry_event) (published (wsLast st) (map tnResult (t # ts))))
     = events_of (fst (watch_turn r ctx name t st))
       @ concat (map (map entry_event) (published (wsLast st') (map tnResult ts)))"
proof (cases "tnResult t")
  case (Inr p)
  obtain es i where p: "p = (es, i)" by (cases p)
  show ?thesis
    using assms Inr p
    by (cases "tnSendStops t") (auto simp: watch_turn_def Let_def emitEntries_stop split: if_splits)
qed (use assms in \<open>auto simp: watch_turn_def Let_def split: if_splits\<close>)

lemma watch_run_prefix:
  "prefix (events_of (fst (watch_run r ctx name ts st)))
     (concat (map (map entry_event) (published (wsLast st) (map tnResult ts))))"
proof (induction ts arbitrary: st)
  case (Cons t ts)
  let ?turn = "watch_turn r ctx name t st"
  show ?case
  proof (cases "snd ?turn")
    case None
    then have "events_of (fst (watch_run r ctx name (t # ts) st)) = events_of (fst ?turn)"
      by (simp add: watch_run_Cons del: watch_run.simps)
    moreover obtain rest where rest: "concat (map (map entry_event) (published (wsLast st) (map tnResult (t # ts))))
        = (case tnResult t of Inl e \<Rightarrow> []
           | Inr (es, i) \<Rightarrow> if i \<le> wsLast st then [] else map entry_event es) @ rest"
      using published_turn by blast
    ultimately show ?thesis
      unfolding rest by (simp only: prefix_prefix [OF prefix_events_turn])
  next
    case (Some st')
    have "events_of (fst (watch_run r ctx name (t # ts) st))
        = events_of (fst ?turn) @ events_of (fst (watch_run r ctx name ts st'))"
      using Some by (simp add: watch_run_Cons del: watch_run.simps)
    then show ?thesis
      using Cons.IH [of st'] unfolding published_step [OF Some] by (simp only: same_prefix_prefix)
  qed
qed simp

text \<open>A poll that answers with an empty list emits nothing, anywhere in a run.\<close>

lemma empty_snapshot_no_events:
  assumes "tnResult t = Inr ([], i)"
  shows "events_of (fst (watchLoop r ctx name (ts @ [t]))) = events_of (fst (watchLoop r ctx name ts))"
proof -
  have one: "events_of (fst (watch_run r ctx name [t] st)) = []" for st
  proof -
    have "events_of (fst (watch_turn r ctx name t st)) = []"
      using assms prefix_events_turn [of r ctx name t st] by (simp split: if_splits)
    then show ?thesis by (cases "watch_turn r ctx name t st"; cases "snd (watch_turn r ctx name t st)") auto
  qed
  have "events_of (fst (watch_run r ctx name (ts @ [t]) st)) = events_of (fst (watch_run r ctx name ts st))" for st
  proof (induction ts arbitrary: st)
    case Nil
    then show ?case using one [of st] by simp
  next
    case (Cons u us)
    then show ?case
      by (simp add: watch_run_Cons del: watch_run.simps split: option.splits)
  qed
  then show ?thesis by (simp add: watchLoop_def)
qed

text \<open>
  C13. The watch publishes the catalog's snapshots: whatever the environment does to the loop, the
  events are a prefix of those of the snapshots whose index advanced, entry by entry in order (an
  index that goes backwards resets the position, an unchanged one is an idle poll); when nothing
  disturbs it, they are all of them.
\<close>

theorem watch_publishes_snapshots:
  "prefix (events_of (fst (watchLoop r ctx name ts)))
     (concat (map (map entry_event) (published 0 (map tnResult ts))))
   \<and> (list_all undisturbed ts \<longrightarrow>
        events_of (fst (watchLoop r ctx name ts))
          = concat (map (map entry_event) (published 0 (map tnResult ts))))"
  using watch_run_prefix [of r ctx name ts "\<lparr>wsLast = 0, wsAttempt = 0\<rparr>"]
    watch_run_events [of ts r ctx name "\<lparr>wsLast = 0, wsAttempt = 0\<rparr>"]
  by (simp add: watchLoop_def)

definition calm :: "(string + service_entry list \<times> nat) \<Rightarrow> turn" where
  "calm res = \<lparr>tnDone = False, tnResult = res, tnDoneAfterPoll = False, tnSlept = True, tnSendStops = None\<rparr>"

definition healthy_entry :: "string \<Rightarrow> service_entry" where
  "healthy_entry i = \<lparr>enID = i, enService = ''a'', enTags = [], enMeta = Map.empty, enAddress = ''10.0.0.1'',
     enPort = 80, enChecks = [HealthPassing]\<rparr>"

theorem watch_publishes_snapshots_witness:
  "map (sID \<circ> evService) (events_of (fst (watchLoop open_registry Background ''a''
      [calm (Inr ([healthy_entry ''1''], 7)), calm (Inl ''timeout''), calm (Inr ([healthy_entry ''1''], 7)),
       calm (Inr ([healthy_entry ''1'', healthy_entry ''2''], 9))])))
   = [''1'', ''1'', ''2'']"
proof -
  let ?ts = "[calm (Inr ([healthy_entry ''1''], 7)), calm (Inl ''timeout''),
      calm (Inr ([healthy_entry ''1''], 7)), calm (Inr ([healthy_entry ''1'', healthy_entry ''2''], 9))]"
  have "list_all undisturbed ?ts" by (simp add: undisturbed_def calm_def)
  then have "events_of (fst (watchLoop open_registry Background ''a'' ?ts))
      = concat (map (map entry_event) (published 0 (map tnResult ?ts)))"
    using watch_publishes_snapshots [of open_registry Background "''a''" ?ts] by blast
  then show ?thesis by (simp add: calm_def entry_event_def healthy_entry_def)
qed

text \<open>
  The channel of a watch is closed exactly once and nothing is sent after it: when the loop
  returns, the close is its last action and the only one; while it has not returned there is none.
\<close>

lemma watch_channel_closed_once:
  "(snd (watchLoop r ctx name ts) = None \<longrightarrow>
      (\<exists>as. fst (watchLoop r ctx name ts) = as @ [CloseChan] \<and> CloseChan \<notin> set as))
   \<and> (snd (watchLoop r ctx name ts) \<noteq> None \<longrightarrow> CloseChan \<notin> set (fst (watchLoop r ctx name ts)))"
  using watch_run_close [of r ctx name ts "\<lparr>wsLast = 0, wsAttempt = 0\<rparr>"]
  by (auto simp: watchLoop_def split: prod.splits option.splits)

text \<open>
  C27. No busy loop: whatever turns the loop has taken before, once a poll is answered the backoff starts
  afresh: in a stretch of failing polls that follows an answered one, the n-th failure in a row sleeps
  \<open>100ms * 2^n\<close>, and 30s from the ninth doubling on; the sleeps never decrease and never leave
  [100ms, 30s]. A stretch at the very start of the loop sleeps the same.
\<close>

theorem failing_polls_back_off:
  assumes "\<forall>t \<in> set ts. undisturbed t \<and> (\<exists>e. tnResult t = Inl e)"
    and "undisturbed t" "tnResult t = Inr answer" and "snd (watchLoop r ctx name before) = Some st"
  shows "sleeps_of (fst (watchLoop r ctx name (before @ t # ts)))
      = sleeps_of (fst (watchLoop r ctx name before)) @ sleeps_of (fst (watchLoop r ctx name ts))
    \<and> sleeps_of (fst (watchLoop r ctx name ts))
      = map (\<lambda>i. if i < 9 then 100 * millisecond * 2 ^ i else 30 * second) [0..<length ts]
    \<and> sorted (sleeps_of (fst (watchLoop r ctx name ts)))
    \<and> (\<forall>d \<in> set (sleeps_of (fst (watchLoop r ctx name ts))). 100 * millisecond \<le> d \<and> d \<le> 30 * second)"
proof -
  let ?ds = "map (\<lambda>i. backoffDuration (int i)) [0..<length ts]"
  have b: "backoffDuration (int i) = (if i < 9 then 100 * millisecond * 2 ^ i else 30 * second)" for i
    by (simp add: backoff_small backoff_large watch_constants)
  have fails: "sleeps_of (fst (watch_run r ctx name ts st')) = ?ds" if "wsAttempt st' = 0" for st'
    using failing_sleeps [OF assms(1), of r ctx name st'] that by simp
  obtain st' where st': "snd (watch_turn r ctx name t st) = Some st'" "wsAttempt st' = 0"
    "sleeps_of (fst (watch_turn r ctx name t st)) = []"
    using answered_turn [OF assms(2,3)] by blast
  have "sleeps_of (fst (watchLoop r ctx name (before @ t # ts)))
      = sleeps_of (fst (watchLoop r ctx name before)) @ ?ds"
    using assms(4) st' fails [OF st'(2)]
    by (simp add: watchLoop_def watch_run_append watch_run_Cons sleeps_append del: watch_run.simps)
  moreover have s: "sleeps_of (fst (watchLoop r ctx name ts)) = ?ds" using fails by (simp add: watchLoop_def)
  moreover have "sorted (map (\<lambda>i. backoffDuration (int i)) [0..<n])" for n
    by (rule sorted_map_mono) (auto simp: monotone_on_def intro: backoff_mono)
  moreover have "\<forall>d \<in> set (sleeps_of (fst (watchLoop r ctx name ts))). 100 * millisecond \<le> d \<and> d \<le> 30 * second"
    using backoff_bounds unfolding s watch_constants by auto
  ultimately show ?thesis using b by simp
qed

theorem failing_polls_back_off_witness:
  "sleeps_of (fst (watchLoop open_registry Background ''a''
      ([calm (Inl ''down''), calm (Inl ''down'')] @ calm (Inr ([], 4)) # [calm (Inl ''down''), calm (Inl ''down'')])))
   = [100 * millisecond, 200 * millisecond, 100 * millisecond, 200 * millisecond]"
proof -
  let ?f = "[calm (Inl ''down''), calm (Inl ''down'')]"
  have f: "\<forall>t \<in> set ?f. undisturbed t \<and> (\<exists>e. tnResult t = Inl e)" by (simp add: undisturbed_def calm_def)
  have a: "undisturbed (calm (Inr ([], 4)))" "tnResult (calm (Inr ([], 4))) = Inr ([], 4)"
    by (simp_all add: undisturbed_def calm_def)
  have s: "snd (watchLoop open_registry Background ''a'' ?f) = Some \<lparr>wsLast = 0, wsAttempt = 2\<rparr>"
    by (simp add: watchLoop_def watch_turn_def calm_def)
  note b = failing_polls_back_off [OF f a s]
  have e: "[0..<length ?f] = [0, 1]" by (simp add: upt_rec)
  have "sleeps_of (fst (watchLoop open_registry Background ''a'' ?f)) = [100 * millisecond, 200 * millisecond]"
    using b [THEN conjunct2, THEN conjunct1] unfolding e by simp
  with b [THEN conjunct1] show ?thesis by simp
qed

text \<open>
  C28. A blocking query is never cut short by the library's own timeouts: every poll of a watch on a
  registry built from a configuration goes through the client without a response-header timeout,
  asks the server to hold the query for the configured wait time, and carries a deadline 15s
  beyond it (the fast client, for the other calls, has the configured response-header timeout).
\<close>

theorem watch_poll_outlives_wait:
  assumes "newConsulRegistry api dflt server c = Inr r"
    and "int64_range (WatchWaitTime c + 15 * second)"
    and "Poll cl q n \<in> set (fst (watchLoop r Background name ts))"
  shows "qoWaitTime q = WatchWaitTime c \<and> ctxDeadline (qoCtx q) = Some (qoWaitTime q + 15 * second)
     \<and> (\<exists>tr. acTransport cl = Some tr \<and> trResponseHeaderTimeout tr = 0)
     \<and> (\<exists>tr. acTransport (crClient r) = Some tr \<and> trResponseHeaderTimeout tr = ResponseHeaderTimeout c)"
proof -
  have "Poll cl q n \<in> set (fst (watch_run r ctx name ts st)) \<Longrightarrow>
      cl = crWatchClient r \<and> (\<exists>i. q = poll_options r ctx i)" for ctx st
  proof (induction ts arbitrary: st)
    case (Cons t ts)
    have "Poll cl q n \<in> set (fst (watch_turn r ctx name t st)) \<Longrightarrow>
        cl = crWatchClient r \<and> q = poll_options r ctx (wsLast st)"
      by (auto simp: watch_turn_def Let_def split: sum.splits prod.splits if_splits)
    with Cons show ?case
      by (auto simp: watch_run_Cons simp del: watch_run.simps split: option.splits)
  qed simp
  from this [of Background] assms(3) obtain i where
    "cl = crWatchClient r" "q = poll_options r Background i" by (auto simp: watchLoop_def)
  then show ?thesis
    using assms(2) by (simp add: newConsulRegistry_fields [OF assms(1)] poll_options_def queryOpts_def
        WithTimeout_def Background_def watchPollMargin_def newTunedConfig_def Let_def)
qed

theorem watch_poll_outlives_wait_witness:
  "\<exists>r q. newConsulRegistry quiet_api default_api_config () (zero_config\<lparr>WatchWaitTime := 30 * second\<rparr>) = Inr r
     \<and> Poll (crWatchClient r) q ''a'' \<in> set (fst (watchLoop r Background ''a'' [calm (Inr ([], 1))]))
     \<and> ctxDeadline (qoCtx q) = Some (45 * second)"
proof -
  obtain r where r: "newConsulRegistry quiet_api default_api_config ()
      (zero_config\<lparr>WatchWaitTime := 30 * second\<rparr>) = Inr r"
    by (simp add: newConsulRegistry_def quiet_api_def)
  have p: "Poll (crWatchClient r) (poll_options r Background 0) ''a''
      \<in> set (fst (watchLoop r Background ''a'' [calm (Inr ([], 1))]))"
    by (simp add: watchLoop_def watch_turn_def calm_def)
  have "ctxDeadline (qoCtx (poll_options r Background 0)) = Some (45 * second)"
    using watch_poll_outlives_wait [OF r _ p] by (simp add: int64_range_def)
  with r p show ?thesis by blast
qed

end
