(* ===== verification/Manager.thy ===== *)
theory Manager
  imports ManagedResolver ConsulWatch
begin

text \<open>
  The entry point of \<open>manager.go\<close>: construction with options, registration (endpoints derived from
  the configuration, workload tag, health check), asynchronous registration with backoff, the
  resolve family over the managed cache, deregistration, shutdown and watching. A method on a
  \<open>*Manager\<close> takes an optional manager: None is the nil receiver.
\<close>

section \<open>Construction\<close>

type_synonym 'r manager_option = "'r manager \<Rightarrow> 'r manager"

definition WithLogger :: "logger \<Rightarrow> 'r manager_option" where
  "WithLogger l m = (if isNilLogger l then m else m\<lparr>mLogger := toObsLogger l\<rparr>)"

definition WithRegistry :: "'r option \<Rightarrow> 'r manager_option" where
  "WithRegistry r m = (case r of None \<Rightarrow> m | Some _ \<Rightarrow> m\<lparr>mRegistry := r\<rparr>)"

definition WithWorkload :: "string \<Rightarrow> 'r manager_option" where
  "WithWorkload i m = m\<lparr>mWorkload := i\<rparr>"

fun apply_options :: "'r manager_option option list \<Rightarrow> 'r manager \<Rightarrow> 'r manager" where
  "apply_options [] m = m"
| "apply_options (None # os) m = apply_options os m"
| "apply_options (Some opt # os) m = apply_options os (opt m)"

text \<open>The message has an em dash, three bytes in UTF-8.\<close>

definition disabled_message :: string where
  "disabled_message =
     ''service discovery disabled '' @ map char_of [0xE2 :: nat, 0x80, 0x94]
       @ '' using direct addresses''"

text \<open>\<open>mk\<close> builds the default backend (\<open>newConsulRegistry\<close>).\<close>

definition New ::
    "(config \<Rightarrow> go_error + 'r) \<Rightarrow> config \<Rightarrow> 'r manager_option option list \<Rightarrow> go_error + 'r manager"
  where
  "New mk cfg0 opts =
     (let cfg = withDefaults cfg0 in
      case Validate cfg of
        Some e \<Rightarrow> Inl e
      | None \<Rightarrow>
          let m0 = \<lparr>mConfig = cfg, mRegistry = None, mLogger = toObsLogger (cfgLogger cfg),
                    mWorkload = Workload cfg, mSeedTimeout = SeedTimeout cfg,
                    mPreferView = PreferView cfg, mResolvers = [], mClosed = False,
                    mBaseDone = False, mCtxs = [], mLoops = [], mCloseErr = None, mTrace = []\<rparr>;
              m = apply_options opts m0
          in if \<not> Enabled cfg
             then Inr (m_log LevelInfo disabled_message [] m)
             else (case mRegistry m of
                     None \<Rightarrow>
                       (case mk cfg of
                          Inl e \<Rightarrow> Inl (Errorf ''lib-service-discovery: %w'' e [])
                        | Inr r \<Rightarrow>
                            Inr (m_log LevelInfo ''service discovery enabled''
                                   [LString ''consul'' (ConsulAddr cfg),
                                    LString ''advertise'' (AdvertiseAddr cfg)]
                                   (m\<lparr>mRegistry := Some r\<rparr>)))
                   | Some _ \<Rightarrow>
                       Inr (m_log LevelInfo ''service discovery enabled''
                              [LString ''registry'' ''custom'',
                               LString ''advertise'' (AdvertiseAddr cfg)] m)))"

section \<open>Register\<close>

definition healthCheckURL :: "string \<Rightarrow> string \<Rightarrow> int \<Rightarrow> string \<Rightarrow> string" where
  "healthCheckURL scheme0 addr port path0 =
     (let scheme = (if scheme0 = [] then ''http'' else scheme0);
          path1 = (if path0 = [] then ''/health'' else path0);
          path = (if \<not> has_prefix path1 ''/'' then ''/'' @ path1 else path1)
      in scheme @ ''://'' @ addr @ '':'' @ itoa port @ path)"

definition applyHealthCheck ::
    "service \<Rightarrow> 'r manager \<Rightarrow> (go_error + service) \<times> 'r manager" where
  "applyHealthCheck svc m =
     (case sHealthCheck svc of
        None \<Rightarrow> (Inr svc, m)
      | Some hc \<Rightarrow>
          if hcTTL hc \<noteq> []
          then (case ttlWithDefaults (hcTTL hc) of
                  Inl e \<Rightarrow> (Inl e, m)
                | Inr ttl \<Rightarrow> (Inr (svc\<lparr>sHealthCheck := Some (hc\<lparr>hcTTL := ttl\<rparr>)\<rparr>), m))
          else (case EndpointFor svc View_Internal of
                  Inl e \<Rightarrow>
                    (Inr (svc\<lparr>sHealthCheck := Some hc\<rparr>),
                     m_log LevelWarn ''no reachable endpoint for health check''
                       [LString ''name'' (sName svc)] m)
                | Inr t \<Rightarrow>
                    (Inr (svc\<lparr>sHealthCheck := Some (hc\<lparr>hcHTTP :=
                        healthCheckURL (eScheme t) (eAddress t) (ePort t) (hcPath hc)\<rparr>)\<rparr>), m)))"

text \<open>The endpoints Register derives from the configuration; the caller's port and scheme feed them.\<close>

definition advertised :: "config \<Rightarrow> service \<Rightarrow> service" where
  "advertised cfg svc0 =
     (let callerPort = sPort svc0;
          callerScheme = sScheme svc0;
          svc1 = svc0\<lparr>sAddress := [], sPort := 0, sScheme := [], sExternal := None,
                      sInternal := None\<rparr>;
          extPort = (if AdvertisePort cfg > 0 then AdvertisePort cfg else callerPort);
          svc2 = (if AdvertiseAddr cfg \<noteq> []
                  then svc1\<lparr>sExternal := Some
                        \<lparr>eAddress = AdvertiseAddr cfg, ePort = extPort,
                         eScheme = (if callerScheme = [] then AdvertiseScheme cfg
                                    else callerScheme)\<rparr>\<rparr>
                  else svc1);
          svc3 = (if AdvertiseInternalAddr cfg \<noteq> []
                  then svc2\<lparr>sInternal := Some
                        \<lparr>eAddress = AdvertiseInternalAddr cfg,
                         ePort = (if AdvertiseInternalPort cfg = 0
                                  then (if AdvertiseAddr cfg \<noteq> [] then extPort else callerPort)
                                  else AdvertiseInternalPort cfg),
                         eScheme = (if AdvertiseInternalScheme cfg = [] then ''http''
                                    else AdvertiseInternalScheme cfg)\<rparr>\<rparr>
                  else svc2)
      in normalizeEndpoints svc3)"

definition tagWorkload :: "string \<Rightarrow> service \<Rightarrow> service" where
  "tagWorkload w svc = (if w \<noteq> [] then svc\<lparr>sTags := sTags svc @ [''workload='' @ w]\<rparr> else svc)"

definition call_register ::
    "'r registry_ops \<Rightarrow> ctx \<Rightarrow> service \<Rightarrow> 'r manager \<Rightarrow> go_error option \<times> 'r manager" where
  "call_register ops c svc m =
     (case mRegistry m of
        None \<Rightarrow> (Some (Panic ''nil registry''), m)
      | Some r \<Rightarrow> (case opRegister ops c svc r of (e, r') \<Rightarrow> (e, m\<lparr>mRegistry := Some r'\<rparr>)))"

text \<open>What Register passes to the backend, or the error it returns before reaching it.\<close>

definition prepareRegister ::
    "service \<Rightarrow> 'r manager \<Rightarrow> (go_error + service) \<times> 'r manager" where
  "prepareRegister svc0 m =
     (let svc1 = advertised (mConfig m) svc0 in
      if sExternal svc1 = None \<and> sInternal svc1 = None then (Inl ErrNoEndpoint, m)
      else applyHealthCheck (tagWorkload (mWorkload m) svc1) m)"

definition Manager_Register ::
    "'r registry_ops \<Rightarrow> ctx \<Rightarrow> service \<Rightarrow> 'r manager option \<Rightarrow> go_error option \<times> 'r manager option"
  where
  "Manager_Register ops c svc0 mo =
     (case mo of
        None \<Rightarrow> (Some ErrNilManager, None)
      | Some m \<Rightarrow>
          if \<not> Enabled (mConfig m) then (None, Some m)
          else (case prepareRegister svc0 m of
                  (Inl e, m') \<Rightarrow> (Some e, Some m')
                | (Inr svc, m') \<Rightarrow>
                    (case call_register ops c svc m' of (e, m'') \<Rightarrow> (e, Some m''))))"

section \<open>RegisterAsync\<close>

text \<open>
  The retry loop against a script of attempts: what the backend state and the contexts have become
  when the attempt starts (other goroutines, Close), and whether the sleep runs to its end. The
  loop reports the sleeps it asked for.
\<close>

record 'r attempt =
  atEnv :: "'r manager \<Rightarrow> 'r manager"
  atSlept :: bool

datatype async_outcome = Retrying | Registered | Stopped

definition log_registered :: "service \<Rightarrow> int \<Rightarrow> 'r manager \<Rightarrow> 'r manager" where
  "log_registered svc n m =
     (if n > 0 then m_log LevelInfo ''service registered after retry''
                      [LString ''name'' (sName svc), LInt ''attempts'' n] m else m)"

definition log_retry :: "service \<Rightarrow> int \<Rightarrow> go_error \<Rightarrow> 'r manager \<Rightarrow> 'r manager" where
  "log_retry svc n e =
     m_log LevelWarn ''register attempt failed; will retry''
       [LString ''name'' (sName svc), LInt ''attempt'' n, LErr e]"

text \<open>A panic in Register is recovered by \<open>SafeGo\<close> and ends the goroutine.\<close>

fun register_loop ::
    "'r registry_ops \<Rightarrow> ctx \<Rightarrow> service \<Rightarrow> int \<Rightarrow> 'r attempt list \<Rightarrow> 'r manager
       \<Rightarrow> async_outcome \<times> duration list \<times> 'r manager" where
  "register_loop ops c svc n [] m = (Retrying, [], m)"
| "register_loop ops c svc n (a # as) m0 =
     (let m = atEnv a m0 in
      if mBaseDone m then (Stopped, [], m)
      else case Manager_Register ops c svc (Some m) of
        (None, mo) \<Rightarrow> (Registered, [], log_registered svc n (case mo of None \<Rightarrow> m | Some m1 \<Rightarrow> m1))
      | (Some e, mo) \<Rightarrow>
          let m1 = (case mo of None \<Rightarrow> m | Some m1 \<Rightarrow> m1); m2 = log_retry svc n e m1; d = backoffDuration n in
          if is_panic e then (Stopped, [], m1)
          else if \<not> atSlept a then (Stopped, [d], m2)
          else (case register_loop ops c svc (n + 1) as m2 of (o1, ds, m3) \<Rightarrow> (o1, d # ds, m3)))"

definition RegisterAsync ::
    "'r registry_ops \<Rightarrow> ctx \<Rightarrow> service \<Rightarrow> 'r attempt list \<Rightarrow> 'r manager option
       \<Rightarrow> async_outcome \<times> duration list \<times> 'r manager option" where
  "RegisterAsync ops c svc as mo =
     (case mo of
        None \<Rightarrow> (Stopped, [], None)
      | Some m \<Rightarrow>
          if \<not> Enabled (mConfig m) then (Stopped, [], Some m)
          else (case register_loop ops c svc 0 as m of (o1, ds, m') \<Rightarrow> (o1, ds, Some m')))"

section \<open>Resolve\<close>

definition no_fallback :: "string \<Rightarrow> go_error" where
  "no_fallback name = Errorf ''%w: %q'' ErrDiscoveryDisabledNoFallback [name]"

definition log_fallback :: "log_level \<Rightarrow> string \<Rightarrow> string \<Rightarrow> string \<Rightarrow> log_item list \<Rightarrow> 'r manager \<Rightarrow> 'r manager"
  where
  "log_fallback lvl name addr reason extra =
     m_log lvl ''service resolved''
       ([LString ''service'' name, LString ''addr'' addr, LString ''source'' ''fallback'',
         LString ''reason'' reason] @ extra)"

definition resolveEmptyFallback ::
    "string \<Rightarrow> string \<Rightarrow> managed_resolver \<Rightarrow> 'r manager \<Rightarrow> (go_error + string) \<times> 'r manager" where
  "resolveEmptyFallback name fallback mr m =
     (if fallback \<noteq> []
      then (Inr fallback,
            log_fallback LevelWarn name fallback ''discovery unavailable'' [LErr (mr_emptyErr mr)] m)
      else (Inl (mr_emptyErr mr), m))"

definition Manager_Resolve ::
    "'r registry_ops \<Rightarrow> ctx \<Rightarrow> string \<Rightarrow> string \<Rightarrow> 'r manager option
       \<Rightarrow> (go_error + string) \<times> 'r manager option" where
  "Manager_Resolve ops c name fallback mo =
     (case mo of
        None \<Rightarrow> (Inl ErrNilManager, None)
      | Some m \<Rightarrow>
          if \<not> Enabled (mConfig m)
          then (if fallback = [] then (Inl (no_fallback name), Some m)
                else (Inr fallback,
                      Some (log_fallback LevelInfo name fallback ''discovery disabled'' [] m)))
          else (case managedResolverFor ops c name m of
                  (mr, m1) \<Rightarrow>
                    (case mr_service mr of
                       Some svc \<Rightarrow> (Inr (Service_Addr svc), Some m1)
                     | None \<Rightarrow>
                         (case resolveEmptyFallback name fallback mr m1 of
                            (res, m2) \<Rightarrow> (res, Some m2)))))"

definition ResolveService ::
    "'r registry_ops \<Rightarrow> ctx \<Rightarrow> string \<Rightarrow> service \<Rightarrow> 'r manager option
       \<Rightarrow> (go_error + service) \<times> 'r manager option" where
  "ResolveService ops c name fallback mo =
     (case mo of
        None \<Rightarrow> (Inl ErrNilManager, None)
      | Some m \<Rightarrow>
          if \<not> Enabled (mConfig m)
          then (if sAddress fallback = [] then (Inl (no_fallback name), Some m)
                else (Inr fallback,
                      Some (log_fallback LevelInfo name (Service_Addr fallback)
                              ''discovery disabled'' [] m)))
          else (case managedResolverFor ops c name m of
                  (mr, m1) \<Rightarrow>
                    (case mr_service mr of
                       Some svc \<Rightarrow> (Inr svc, Some m1)
                     | None \<Rightarrow>
                         if sAddress fallback \<noteq> []
                         then (Inr fallback,
                               Some (log_fallback LevelWarn name (Service_Addr fallback)
                                       ''discovery unavailable'' [LErr (mr_emptyErr mr)] m1))
                         else (Inl (mr_emptyErr mr), Some m1))))"

text \<open>The part of \<open>resolveEndpoint\<close> that maps a cached service through the view.\<close>

definition endpoint_of_service ::
    "string \<Rightarrow> endpoint_view \<Rightarrow> string \<Rightarrow> bool \<Rightarrow> service \<Rightarrow> 'r manager
       \<Rightarrow> (go_error + string) \<times> 'r manager" where
  "endpoint_of_service name view fallback asURL svc m =
     (case EndpointFor svc view of
        Inl epErr \<Rightarrow>
          if fallback \<noteq> []
          then (Inr fallback,
                log_fallback LevelWarn name fallback ''requested view unavailable''
                  [LString ''view'' view, LErr epErr] m)
          else (Inl epErr, m)
      | Inr ep \<Rightarrow>
          let m1 = (if view = View_Internal \<and> sInternal svc = None
                    then m_log LevelWarn ''internal view degraded to external''
                           [LString ''service'' name, LString ''addr'' (Endpoint_Addr ep),
                            LString ''view'' view] m
                    else m);
              found = (\<lambda>addr. (Inr addr,
                        m_log LevelInfo ''endpoint resolved''
                          [LString ''service'' name, LString ''view'' view, LString ''addr'' addr,
                           LString ''source'' ''consul''] m1))
          in if asURL
             then (if eScheme ep = []
                   then (if fallback \<noteq> []
                         then (Inr fallback,
                               log_fallback LevelWarn name fallback ''resolved endpoint has no scheme''
                                 [LString ''view'' view] m1)
                         else (Inl (Errorf ''%w: %q has no scheme for view %q''
                                 ErrEndpointViewUnavailable [name, view]), m1))
                   else found (eScheme ep @ ''://'' @ Endpoint_Addr ep))
             else found (Endpoint_Addr ep))"

definition resolveEndpoint ::
    "'r registry_ops \<Rightarrow> ctx \<Rightarrow> string \<Rightarrow> endpoint_view \<Rightarrow> string \<Rightarrow> bool \<Rightarrow> 'r manager option
       \<Rightarrow> (go_error + string) \<times> 'r manager option" where
  "resolveEndpoint ops c name view fallback asURL mo =
     (case mo of
        None \<Rightarrow> (Inl ErrNilManager, None)
      | Some m \<Rightarrow>
          if \<not> Enabled (mConfig m)
          then (if fallback = [] then (Inl (no_fallback name), Some m)
                else (Inr fallback,
                      Some (log_fallback LevelInfo name fallback ''discovery disabled'' [] m)))
          else (case managedResolverFor ops c name m of
                  (mr, m1) \<Rightarrow>
                    (case (case mr_service mr of
                             None \<Rightarrow> resolveEmptyFallback name fallback mr m1
                           | Some svc \<Rightarrow> endpoint_of_service name view fallback asURL svc m1) of
                       (res, m2) \<Rightarrow> (res, Some m2))))"

definition ResolveEndpoint where
  "ResolveEndpoint ops c name view fallback mo = resolveEndpoint ops c name view fallback False mo"

definition ResolveURL where
  "ResolveURL ops c name view fallback mo = resolveEndpoint ops c name view fallback True mo"

definition ResolvePreferredEndpoint ::
    "'r registry_ops \<Rightarrow> ctx \<Rightarrow> string \<Rightarrow> string \<Rightarrow> 'r manager option
       \<Rightarrow> (go_error + string) \<times> 'r manager option" where
  "ResolvePreferredEndpoint ops c name fallback mo =
     (case mo of
        None \<Rightarrow> (Inl ErrNilManager, None)
      | Some m \<Rightarrow> ResolveEndpoint ops c name (mPreferView m) fallback mo)"

definition ResolvePreferredURL ::
    "'r registry_ops \<Rightarrow> ctx \<Rightarrow> string \<Rightarrow> string \<Rightarrow> 'r manager option
       \<Rightarrow> (go_error + string) \<times> 'r manager option" where
  "ResolvePreferredURL ops c name fallback mo =
     (case mo of
        None \<Rightarrow> (Inl ErrNilManager, None)
      | Some m \<Rightarrow> ResolveURL ops c name (mPreferView m) fallback mo)"

section \<open>Deregister, Close, Watch\<close>

definition Manager_Deregister ::
    "'r registry_ops \<Rightarrow> ctx \<Rightarrow> string \<Rightarrow> 'r manager option \<Rightarrow> go_error option \<times> 'r manager option"
  where
  "Manager_Deregister ops c serviceID mo =
     (case mo of
        None \<Rightarrow> (Some ErrNilManager, None)
      | Some m \<Rightarrow>
          if \<not> Enabled (mConfig m) then (None, Some m)
          else (case mRegistry m of
                  None \<Rightarrow> (Some (Panic ''nil registry''), Some m)
                | Some r \<Rightarrow>
                    (case opDeregister ops c serviceID r of
                       (e, r') \<Rightarrow> (e, Some (m\<lparr>mRegistry := Some r'\<rparr>)))))"

text \<open>Stopping one resolver: cancel its watch, delete it from the map.\<close>

definition stop_resolver :: "string \<times> managed_resolver \<Rightarrow> 'r manager \<Rightarrow> 'r manager" where
  "stop_resolver e m =
     (case e of (name, mr) \<Rightarrow>
        (mr_stop mr m)\<lparr>mResolvers := AList.delete name (mResolvers m)\<rparr>)"

definition doClose :: "'r registry_ops \<Rightarrow> 'r manager \<Rightarrow> go_error option \<times> 'r manager" where
  "doClose ops m0 =
     (let m1 = m0\<lparr>mClosed := True, mBaseDone := True\<rparr>;
          m = fold stop_resolver (mResolvers m1) m1
      in case mRegistry m of
           None \<Rightarrow> (None, m)
         | Some r \<Rightarrow>
             (case opClose ops of
                None \<Rightarrow> (None, m)
              | Some close \<Rightarrow> (case close r of (e, r') \<Rightarrow> (e, m\<lparr>mRegistry := Some r'\<rparr>))))"

definition Manager_Close ::
    "'r registry_ops \<Rightarrow> 'r manager option \<Rightarrow> go_error option \<times> 'r manager option" where
  "Manager_Close ops mo =
     (case mo of
        None \<Rightarrow> (None, None)
      | Some m \<Rightarrow>
          (case mCloseErr m of
             Some e \<Rightarrow> (e, Some m)
           | None \<Rightarrow> (case doClose ops m of (e, m') \<Rightarrow> (e, Some (m'\<lparr>mCloseErr := Some e\<rparr>)))))"

definition Manager_Watch ::
    "'r registry_ops \<Rightarrow> ctx \<Rightarrow> string \<Rightarrow> 'r manager option
       \<Rightarrow> (chan \<times> go_error option) \<times> 'r manager option" where
  "Manager_Watch ops c name mo =
     (case mo of
        None \<Rightarrow> ((ClosedChan, Some ErrNilManager), None)
      | Some m \<Rightarrow>
          if \<not> Enabled (mConfig m) then ((ClosedChan, None), Some m)
          else (case call_watch ops c name m of (res, m') \<Rightarrow> (res, Some m')))"

end
