(* ===== verification/DynamicResolver.thy ===== *)
theory DynamicResolver
  imports Manager
begin

text \<open>
  The auto-refreshing resolver of \<open>resolver.go\<close>: the snapshot it serves, its fail-open seed (for an
  address, and for a whole service), the start of its watch and the update loop. Every fallback
  path is independent of the view; only a genuine registry hit is mapped through it.
\<close>

section \<open>The resolver\<close>

text \<open>The snapshot is one immutable pair (address, scheme). \<open>drCancel\<close> is None before a watch starts.\<close>

record dynamic_resolver =
  drFallback :: string
  drFallbackScheme :: string
  drView :: endpoint_view
  drSnapshot :: "(string \<times> string) option"
  drCancel :: "bool option"

type_synonym resolver_option = "dynamic_resolver \<Rightarrow> dynamic_resolver"

definition WithView :: "endpoint_view \<Rightarrow> resolver_option" where
  "WithView view dr = dr\<lparr>drView := view\<rparr>"

fun apply_resolver_options :: "resolver_option option list \<Rightarrow> resolver_option" where
  "apply_resolver_options [] dr = dr"
| "apply_resolver_options (None # os) dr = apply_resolver_options os dr"
| "apply_resolver_options (Some opt # os) dr = apply_resolver_options os (opt dr)"

definition Address :: "dynamic_resolver option \<Rightarrow> string" where
  "Address d =
     (case d of
        None \<Rightarrow> []
      | Some dr \<Rightarrow> (case drSnapshot dr of Some (a, s) \<Rightarrow> a | None \<Rightarrow> drFallback dr))"

definition Scheme :: "dynamic_resolver option \<Rightarrow> string" where
  "Scheme d =
     (case d of
        None \<Rightarrow> []
      | Some dr \<Rightarrow> (case drSnapshot dr of Some (a, s) \<Rightarrow> s | None \<Rightarrow> drFallbackScheme dr))"

definition dr_store :: "string \<Rightarrow> string \<Rightarrow> dynamic_resolver \<Rightarrow> dynamic_resolver" where
  "dr_store address scheme dr = dr\<lparr>drSnapshot := Some (address, scheme)\<rparr>"

definition Stop :: "dynamic_resolver option \<Rightarrow> dynamic_resolver option" where
  "Stop d =
     (case d of
        None \<Rightarrow> None
      | Some dr \<Rightarrow>
          (case drCancel dr of None \<Rightarrow> Some dr | Some b \<Rightarrow> Some (dr\<lparr>drCancel := Some True\<rparr>)))"

section \<open>Seeding\<close>

definition log_degraded :: "string \<Rightarrow> endpoint_view \<Rightarrow> endpoint \<Rightarrow> 'r manager \<Rightarrow> 'r manager" where
  "log_degraded name view ep =
     m_log LevelWarn ''internal view degraded to external''
       [LString ''service'' name, LString ''addr'' (Endpoint_Addr ep), LString ''view'' view]"

definition resolveEndpointDirect ::
    "'r registry_ops \<Rightarrow> ctx \<Rightarrow> string \<Rightarrow> endpoint_view \<Rightarrow> string \<Rightarrow> 'r manager
       \<Rightarrow> (go_error + string) \<times> 'r manager" where
  "resolveEndpointDirect ops c name view fallback m =
     (if \<not> Enabled (mConfig m)
      then (if fallback = [] then (Inl (no_fallback name), m)
            else (Inr fallback, log_fallback LevelInfo name fallback ''discovery disabled'' [] m))
      else case call_resolve ops c name (workloadTag m) m of
        (Inr svc, m1) \<Rightarrow>
          (case EndpointFor svc view of
             Inl epErr \<Rightarrow>
               if fallback \<noteq> []
               then (Inr fallback,
                     log_fallback LevelWarn name fallback ''requested view unavailable''
                       [LString ''view'' view, LErr epErr] m1)
               else (Inl epErr, m1)
           | Inr ep \<Rightarrow>
               (Inr (Endpoint_Addr ep),
                if view = View_Internal \<and> sInternal svc = None then log_degraded name view ep m1
                else m1))
      | (Inl err, m1) \<Rightarrow>
          if fallback \<noteq> []
          then (Inr fallback,
                log_fallback LevelWarn name fallback ''consul resolve failed'' [LErr err] m1)
          else (Inl err, m1))"

definition seedServiceEndpoint ::
    "'r registry_ops \<Rightarrow> ctx \<Rightarrow> string \<Rightarrow> dynamic_resolver \<Rightarrow> service \<Rightarrow> 'r manager
       \<Rightarrow> (go_error + string \<times> string) \<times> 'r manager" where
  "seedServiceEndpoint ops c name dr fallback m =
     (if \<not> Enabled (mConfig m)
      then (if sAddress fallback = [] then (Inl (no_fallback name), m)
            else (Inr (drFallback dr, drFallbackScheme dr),
                  log_fallback LevelInfo name (drFallback dr) ''discovery disabled'' [] m))
      else
        let (res, m1) = call_resolve ops c name (workloadTag m) m;
            view = drView dr;
            miss = (\<lambda>err.
              if sAddress fallback \<noteq> []
              then (Inr (drFallback dr, drFallbackScheme dr),
                    log_fallback LevelWarn name (drFallback dr) ''consul resolve failed'' [LErr err] m1)
              else (Inl err, m1))
        in case res of
             Inl err \<Rightarrow> miss err
           | Inr svc \<Rightarrow>
               (case EndpointFor svc view of
                  Inl epErr \<Rightarrow> miss epErr
                | Inr ep \<Rightarrow>
                    (Inr (Endpoint_Addr ep, eScheme ep),
                     m_log LevelInfo ''service resolved''
                       [LString ''service'' name, LString ''addr'' (Endpoint_Addr ep),
                        LString ''source'' ''consul'', LString ''scheme'' (eScheme ep),
                        LString ''workload'' (mWorkload m), LString ''view'' view]
                       (if view = View_Internal \<and> sInternal svc = None
                        then log_degraded name view ep m1 else m1))))"

section \<open>Watching\<close>

definition startResolverWatch ::
    "'r registry_ops \<Rightarrow> ctx \<Rightarrow> dynamic_resolver \<Rightarrow> string \<Rightarrow> 'r manager
       \<Rightarrow> (go_error + dynamic_resolver) \<times> 'r manager" where
  "startResolverWatch ops c dr name m =
     (if \<not> Enabled (mConfig m) then (Inr dr, m)
      else let dr1 = dr\<lparr>drCancel := Some False\<rparr> in
        case call_watch ops c name m of
          ((ch, Some err), m1) \<Rightarrow> (Inl err, m1)
        | ((ch, None), m1) \<Rightarrow> (Inr dr1, m1))"

definition default_view :: "'r manager \<Rightarrow> dynamic_resolver \<Rightarrow> dynamic_resolver" where
  "default_view m dr = (if drView dr = [] then dr\<lparr>drView := mPreferView m\<rparr> else dr)"

definition log_seed_degraded ::
    "string \<Rightarrow> dynamic_resolver \<Rightarrow> go_error \<Rightarrow> 'r manager \<Rightarrow> 'r manager" where
  "log_seed_degraded name dr err =
     m_log LevelWarn ''dynamic resolver seed degraded; starting watch anyway''
       [LString ''service'' name, LString ''view'' (drView dr), LString ''fallback'' (drFallback dr),
        LErr err]"

definition new_dynamic :: "string \<Rightarrow> string \<Rightarrow> dynamic_resolver" where
  "new_dynamic fallback scheme =
     \<lparr>drFallback = fallback, drFallbackScheme = scheme, drView = [], drSnapshot = None,
      drCancel = None\<rparr>"

definition WatchResolve ::
    "'r registry_ops \<Rightarrow> ctx \<Rightarrow> string \<Rightarrow> string \<Rightarrow> resolver_option option list \<Rightarrow> 'r manager option
       \<Rightarrow> (go_error + dynamic_resolver) \<times> 'r manager option" where
  "WatchResolve ops c name fallback opts mo =
     (case mo of
        None \<Rightarrow> (Inl ErrNilManager, None)
      | Some m \<Rightarrow>
          let dr = default_view m (apply_resolver_options opts (new_dynamic fallback [])) in
          if \<not> Enabled (mConfig m)
          then (case resolveEndpointDirect ops c name (drView dr) fallback m of
                  (Inl err, m1) \<Rightarrow> (Inl err, Some m1)
                | (Inr addr, m1) \<Rightarrow>
                    (case startResolverWatch ops c (dr_store addr [] dr) name m1 of
                       (res, m2) \<Rightarrow> (res, Some m2)))
          else let seedCtx = WithTimeout c (mSeedTimeout m) in
            (case resolveEndpointDirect ops seedCtx name (drView dr) fallback m of
               (seed, m1) \<Rightarrow>
                 let (dr1, m2) =
                   (case seed of
                      Inl err \<Rightarrow> (dr_store fallback [] dr,
                                    m_log LevelWarn
                                      ''dynamic resolver seed degraded; starting watch anyway''
                                      [LString ''service'' name, LString ''view'' (drView dr),
                                       LString ''fallback'' fallback, LErr err] m1)
                    | Inr addr \<Rightarrow> (dr_store addr [] dr, m1))
                 in (case startResolverWatch ops c dr1 name m2 of (res, m3) \<Rightarrow> (res, Some m3))))"

definition WatchResolveService ::
    "'r registry_ops \<Rightarrow> ctx \<Rightarrow> string \<Rightarrow> service \<Rightarrow> resolver_option option list \<Rightarrow> 'r manager option
       \<Rightarrow> (go_error + dynamic_resolver) \<times> 'r manager option" where
  "WatchResolveService ops c name fallback opts mo =
     (case mo of
        None \<Rightarrow> (Inl ErrNilManager, None)
      | Some m \<Rightarrow>
          let dr0 = (if sAddress fallback \<noteq> []
                     then new_dynamic (Service_Addr fallback) (sScheme fallback)
                     else new_dynamic [] []);
              dr = default_view m (apply_resolver_options opts dr0) in
          if \<not> Enabled (mConfig m)
          then (case seedServiceEndpoint ops c name dr fallback m of
                  (Inl err, m1) \<Rightarrow> (Inl err, Some m1)
                | (Inr (addr, scheme), m1) \<Rightarrow>
                    (case startResolverWatch ops c (dr_store addr scheme dr) name m1 of
                       (res, m2) \<Rightarrow> (res, Some m2)))
          else let seedCtx = WithTimeout c (mSeedTimeout m) in
            (case seedServiceEndpoint ops seedCtx name dr fallback m of
               (seed, m1) \<Rightarrow>
                 let (dr1, m2) =
                   (case seed of
                      Inl err \<Rightarrow> (dr_store (drFallback dr) (drFallbackScheme dr) dr,
                                    log_seed_degraded name dr err m1)
                    | Inr (addr, scheme) \<Rightarrow> (dr_store addr scheme dr, m1))
                 in (case startResolverWatch ops c dr1 name m2 of (res, m3) \<Rightarrow> (res, Some m3))))"

section \<open>The update loop\<close>

text \<open>A panic of Resolve unwinds the loop and ends it: nothing is stored, nothing logged.\<close>

definition resolver_update ::
    "'r registry_ops \<Rightarrow> ctx \<Rightarrow> string \<Rightarrow> string \<Rightarrow> dynamic_resolver \<times> 'r
       \<Rightarrow> (dynamic_resolver \<times> 'r) \<times> log_call list" where
  "resolver_update ops c name tag s =
     (let (dr, r) = s; (res, r') = opResolve ops c name tag r
      in case res of
           Inl err \<Rightarrow>
             if is_panic err then ((dr, r'), [])
             else if drFallback dr \<noteq> []
             then ((dr_store (drFallback dr) (drFallbackScheme dr) dr, r'),
                   [logc LevelWarn ''dynamic resolve fell back''
                      [LString ''service'' name, LString ''fallback'' (drFallback dr), LErr err]])
             else ((dr, r'),
                   [logc LevelWarn ''dynamic resolve update failed; keeping last value''
                      [LString ''service'' name, LErr err]])
         | Inr svc \<Rightarrow>
             (case EndpointFor svc (drView dr) of
                Inl epErr \<Rightarrow>
                  ((dr, r'),
                   [logc LevelWarn ''dynamic resolve view unavailable; keeping last value''
                      [LString ''service'' name, LString ''view'' (drView dr), LErr epErr]])
              | Inr ep \<Rightarrow>
                  ((dr_store (Endpoint_Addr ep) (eScheme ep) dr, r'),
                   (if drView dr = View_Internal \<and> sInternal svc = None
                    then [logc LevelWarn ''internal view degraded to external''
                            [LString ''service'' name, LString ''addr'' (Endpoint_Addr ep),
                             LString ''view'' (drView dr)]]
                    else [])
                   @ [logc LevelDebug ''dynamic resolve updated''
                        [LString ''service'' name, LString ''addr'' (Endpoint_Addr ep),
                         LString ''scheme'' (eScheme ep), LString ''view'' (drView dr)]])))"

fun runResolverUpdates ::
    "'r registry_ops \<Rightarrow> ctx \<Rightarrow> string \<Rightarrow> string \<Rightarrow> select_case list \<Rightarrow> dynamic_resolver \<times> 'r
       \<Rightarrow> (dynamic_resolver \<times> 'r) \<times> log_call list" where
  "runResolverUpdates ops c name tag [] s = (s, [])"
| "runResolverUpdates ops c name tag (CtxDone # sels) s = (s, [])"
| "runResolverUpdates ops c name tag (ChanClosed # sels) s = (s, [])"
| "runResolverUpdates ops c name tag (Received ev # sels) s =
     (case resolver_update ops c name tag s of
        (s', l) \<Rightarrow>
          if panics (fst (opResolve ops c name tag (snd s))) then (s', l)
          else (case runResolverUpdates ops c name tag sels s' of (s'', ls) \<Rightarrow> (s'', l @ ls)))"

end
