(* ===== verification/ManagerLifecycle.thy ===== *)
theory ManagerLifecycle
  imports DynamicResolver
begin

text \<open>
  The life of a manager: every public call and every watch event as one step, the invariant that
  ties the resolver map to the watch goroutines, its preservation, and what follows from it for any
  backend: at most one live watch per name, none after Close, and, for a backend that honours the
  \<open>background_registry\<close> contract, nothing of the backend's own left running either.
\<close>

section \<open>The steps\<close>

text \<open>
  The calls on a manager, with their arguments, and the delivery of an event to a watch loop. The
  attempts of \<open>RegisterAsync\<close> are Register steps.
\<close>

datatype mgr_op =
    OpRegister ctx service
  | OpDeregister ctx string
  | OpResolve ctx string string
  | OpResolveService ctx string service
  | OpResolveEndpoint ctx string endpoint_view string bool
  | OpResolvePreferred ctx string string bool
  | OpWatch ctx string
  | OpWatchResolve ctx string string "resolver_option option list"
  | OpWatchResolveService ctx string service "resolver_option option list"
  | OpClose
  | OpEvent watch_loop

definition or_self :: "'r manager \<Rightarrow> 'r manager option \<Rightarrow> 'r manager" where
  "or_self m mo = (case mo of None \<Rightarrow> m | Some m' \<Rightarrow> m')"

fun mgr_after :: "'r registry_ops \<Rightarrow> mgr_op \<Rightarrow> 'r manager \<Rightarrow> 'r manager" where
  "mgr_after ops (OpRegister c s) m = or_self m (snd (Manager_Register ops c s (Some m)))"
| "mgr_after ops (OpDeregister c i) m = or_self m (snd (Manager_Deregister ops c i (Some m)))"
| "mgr_after ops (OpResolve c n f) m = or_self m (snd (Manager_Resolve ops c n f (Some m)))"
| "mgr_after ops (OpResolveService c n f) m = or_self m (snd (ResolveService ops c n f (Some m)))"
| "mgr_after ops (OpResolveEndpoint c n v f u) m =
     or_self m (snd (resolveEndpoint ops c n v f u (Some m)))"
| "mgr_after ops (OpResolvePreferred c n f u) m =
     or_self m (snd (if u then ResolvePreferredURL ops c n f (Some m)
                     else ResolvePreferredEndpoint ops c n f (Some m)))"
| "mgr_after ops (OpWatch c n) m = or_self m (snd (Manager_Watch ops c n (Some m)))"
| "mgr_after ops (OpWatchResolve c n f opts) m =
     or_self m (snd (WatchResolve ops c n f opts (Some m)))"
| "mgr_after ops (OpWatchResolveService c n f opts) m =
     or_self m (snd (WatchResolveService ops c n f opts (Some m)))"
| "mgr_after ops OpClose m = or_self m (snd (Manager_Close ops (Some m)))"
| "mgr_after ops (OpEvent l) m = deliver_event ops l m"

section \<open>What a step may touch\<close>

text \<open>The part of the manager the watch bookkeeping reads.\<close>

definition mgr_core where
  "mgr_core m = (mResolvers m, mClosed m, mBaseDone m, mCtxs m, mLoops m, mCloseErr m)"

text \<open>The registry moved by requests only.\<close>

definition reg_path :: "'r registry_ops \<Rightarrow> 'r option \<Rightarrow> 'r option \<Rightarrow> bool" where
  "reg_path ops a b \<longleftrightarrow>
     (case a of None \<Rightarrow> b = None | Some r \<Rightarrow> \<exists>qs. b = Some (fold (after_request ops) qs r))"

lemma reg_path_refl [simp]: "reg_path ops a a"
  by (cases a) (auto simp: reg_path_def intro: exI [of _ "[]"])

lemma reg_path_trans: "reg_path ops a b \<Longrightarrow> reg_path ops b c \<Longrightarrow> reg_path ops a c"
  by (auto simp: reg_path_def fold_append [symmetric] comp_def split: option.splits)
     (metis fold_append comp_apply)

lemma reg_path_one: "reg_path ops (Some r) (Some (after_request ops q r))"
  by (auto simp: reg_path_def intro: exI [of _ "[q]"])

lemma reg_path_call:
  "opResolve ops c n t r = (x, r') \<Longrightarrow> reg_path ops (Some r) (Some r')"
  "opWatch ops c n r = (y, r') \<Longrightarrow> reg_path ops (Some r) (Some r')"
  "opRegister ops c s r = (e, r') \<Longrightarrow> reg_path ops (Some r) (Some r')"
  "opDeregister ops c i r = (e, r') \<Longrightarrow> reg_path ops (Some r) (Some r')"
  using reg_path_one [of ops r "ReqResolve c n t"] reg_path_one [of ops r "ReqWatch c n"]
    reg_path_one [of ops r "ReqRegister c s"] reg_path_one [of ops r "ReqDeregister c i"]
  by simp_all

text \<open>A step that keeps the core and moves the registry by requests.\<close>

definition plain_step :: "'r registry_ops \<Rightarrow> 'r manager \<Rightarrow> 'r manager \<Rightarrow> bool" where
  "plain_step ops m m' \<longleftrightarrow>
     mgr_core m' = mgr_core m \<and> reg_path ops (mRegistry m) (mRegistry m') \<and> mConfig m' = mConfig m"

lemma plain_refl [simp, intro]: "plain_step ops m m"
  by (simp add: plain_step_def)

lemma plain_trans: "plain_step ops m m' \<Longrightarrow> plain_step ops m' m'' \<Longrightarrow> plain_step ops m m''"
  by (auto simp: plain_step_def intro: reg_path_trans)

lemma plain_log [simp]: "plain_step ops m (m_log l t is m') = plain_step ops m m'"
  by (simp add: plain_step_def m_log_def mgr_core_def)

lemma plain_log_fallback [simp]:
  "plain_step ops m (log_fallback l n a r x m') = plain_step ops m m'"
  by (simp add: log_fallback_def)

lemma plain_log_degraded [simp]:
  "plain_step ops m (log_degraded n v e m') = plain_step ops m m'"
  by (simp add: log_degraded_def)

lemma plain_log_seed_degraded [simp]:
  "plain_step ops m (log_seed_degraded n d e m') = plain_step ops m m'"
  by (simp add: log_seed_degraded_def)

lemma plain_call_resolve: "plain_step ops m (snd (call_resolve ops c n t m))"
  by (auto simp: call_resolve_def plain_step_def mgr_core_def intro: reg_path_call
      split: option.splits prod.splits)

lemma plain_call_watch: "plain_step ops m (snd (call_watch ops c n m))"
  by (auto simp: call_watch_def plain_step_def mgr_core_def intro: reg_path_call
      split: option.splits prod.splits)

lemma plain_call_register: "plain_step ops m (snd (call_register ops c s m))"
  by (auto simp: call_register_def plain_step_def mgr_core_def intro: reg_path_call
      split: option.splits prod.splits)

lemma plain_applyHealthCheck: "plain_step ops m (snd (applyHealthCheck s m))"
  by (simp add: applyHealthCheck_def split: option.splits sum.splits)

lemma plain_prepareRegister: "plain_step ops m (snd (prepareRegister s m))"
  by (simp add: prepareRegister_def Let_def plain_applyHealthCheck)

lemma or_self_Some [simp]: "or_self m (Some m') = m'"
  by (simp add: or_self_def)

lemma plain_Register: "plain_step ops m (or_self m (snd (Manager_Register ops c s (Some m))))"
proof (cases "Enabled (mConfig m)")
  case True
  obtain x m' where p: "prepareRegister s m = (x, m')" by fastforce
  have 1: "plain_step ops m m'" using plain_prepareRegister [of ops m s] p by simp
  show ?thesis
  proof (cases x)
    case (Inr s')
    obtain e m'' where q: "call_register ops c s' m' = (e, m'')" by fastforce
    have "plain_step ops m' m''" using plain_call_register [of ops m' c s'] q by simp
    with 1 True p q Inr show ?thesis by (auto simp: Manager_Register_def intro: plain_trans)
  qed (use 1 True p in \<open>simp add: Manager_Register_def\<close>)
qed (simp add: Manager_Register_def)

lemma plain_Deregister: "plain_step ops m (or_self m (snd (Manager_Deregister ops c i (Some m))))"
  by (auto simp: Manager_Deregister_def plain_step_def mgr_core_def intro: reg_path_call
      split: option.splits prod.splits)

lemma plain_Watch: "plain_step ops m (or_self m (snd (Manager_Watch ops c n (Some m))))"
  using plain_call_watch [of ops m c n] by (auto simp: Manager_Watch_def split: prod.splits)

lemma plain_resolveEndpointDirect:
  "resolveEndpointDirect ops c n v f m = (res, m') \<Longrightarrow> plain_step ops m m'"
  using plain_call_resolve [of ops m c n "workloadTag m"]
  by (auto simp: resolveEndpointDirect_def split: prod.splits sum.splits if_splits)

lemma plain_seedServiceEndpoint:
  "seedServiceEndpoint ops c n dr f m = (res, m') \<Longrightarrow> plain_step ops m m'"
  using plain_call_resolve [of ops m c n "workloadTag m"]
  by (auto simp: seedServiceEndpoint_def Let_def split: prod.splits sum.splits if_splits)

lemma plain_startResolverWatch:
  "startResolverWatch ops c dr n m = (res, m') \<Longrightarrow> plain_step ops m0 m \<Longrightarrow> plain_step ops m0 m'"
  using plain_call_watch [of ops m c n]
  by (auto simp: startResolverWatch_def Let_def split: prod.splits option.splits if_splits intro: plain_trans)

lemma plain_WatchResolve: "plain_step ops m (or_self m (snd (WatchResolve ops c n f os (Some m))))"
  unfolding WatchResolve_def Let_def
  by (auto split: prod.splits sum.splits
      dest!: plain_resolveEndpointDirect intro: plain_startResolverWatch)

lemma plain_WatchResolveService:
  "plain_step ops m (or_self m (snd (WatchResolveService ops c n f os (Some m))))"
  unfolding WatchResolveService_def Let_def
  by (auto split: prod.splits sum.splits
      dest!: plain_seedServiceEndpoint intro: plain_startResolverWatch)

text \<open>A call of the resolve family: a lookup in the managed cache, then a plain step.\<close>

definition cached_step :: "'r registry_ops \<Rightarrow> 'r manager \<Rightarrow> 'r manager \<Rightarrow> bool" where
  "cached_step ops m m' \<longleftrightarrow>
     plain_step ops m m' \<or> (\<exists>c n. plain_step ops (snd (managedResolverFor ops c n m)) m')"

lemma cached_plain: "plain_step ops m m' \<Longrightarrow> cached_step ops m m'"
  by (simp add: cached_step_def)

lemma cached_lookup:
  "managedResolverFor ops c n m = (mr, m1) \<Longrightarrow> plain_step ops m1 m' \<Longrightarrow> cached_step ops m m'"
  unfolding cached_step_def by (metis snd_conv)

lemma plain_resolveEmptyFallback:
  "resolveEmptyFallback n f mr m = (res, m') \<Longrightarrow> plain_step ops m m'"
  by (auto simp: resolveEmptyFallback_def split: if_splits)

lemma plain_endpoint_of_service:
  "endpoint_of_service n v f u svc m = (res, m') \<Longrightarrow> plain_step ops m m'"
  by (auto simp: endpoint_of_service_def Let_def split: sum.splits if_splits)

lemma cached_Resolve: "cached_step ops m (or_self m (snd (Manager_Resolve ops c n f (Some m))))"
  unfolding Manager_Resolve_def
  by (auto simp: cached_plain intro: cached_lookup dest: plain_resolveEmptyFallback
      split: prod.splits option.splits)

lemma cached_ResolveService: "cached_step ops m (or_self m (snd (ResolveService ops c n f (Some m))))"
  unfolding ResolveService_def
  by (auto simp: cached_plain intro: cached_lookup split: prod.splits option.splits)

lemma cached_resolveEndpoint:
  "cached_step ops m (or_self m (snd (resolveEndpoint ops c n v f u (Some m))))"
  unfolding resolveEndpoint_def
  by (auto simp: cached_plain intro: cached_lookup
      dest: plain_resolveEmptyFallback plain_endpoint_of_service split: prod.splits option.splits)

lemma cached_preferred:
  "cached_step ops m (or_self m (snd (if u then ResolvePreferredURL ops c n f (Some m)
     else ResolvePreferredEndpoint ops c n f (Some m))))"
  by (cases u) (simp_all add: ResolvePreferredURL_def ResolvePreferredEndpoint_def ResolveURL_def
      ResolveEndpoint_def cached_resolveEndpoint)

lemma cached_op:
  assumes "x \<noteq> OpClose" "\<not> (\<exists>l. x = OpEvent l)"
  shows "cached_step ops m (mgr_after ops x m)"
  using assms
  by (cases x) (simp_all only: mgr_after.simps cached_plain plain_Register plain_Deregister plain_Watch
      plain_WatchResolve plain_WatchResolveService cached_Resolve cached_ResolveService
      cached_resolveEndpoint cached_preferred mgr_op.distinct simp_thms, simp_all)

section \<open>The invariant\<close>

text \<open>
  Names are unique in the resolver map; loops have their own contexts; a loop whose context is not
  cancelled is the one its name's resolver would cancel.
\<close>

definition watch_inv :: "'r manager \<Rightarrow> bool" where
  "watch_inv m \<longleftrightarrow>
     distinct (map fst (mResolvers m)) \<and> distinct (map wlCtx (mLoops m))
     \<and> (\<forall>l \<in> set (mLoops m). wlCtx l < length (mCtxs m)
          \<and> (mCtxs m ! wlCtx l
             \<or> (\<exists>mr. map_of (mResolvers m) (wlName l) = Some mr \<and> mrCancel mr = Some (wlCtx l))))"

definition mgr_inv :: "'r manager \<Rightarrow> bool" where
  "mgr_inv m \<longleftrightarrow>
     watch_inv m \<and> (\<forall>(n, mr) \<in> set (mResolvers m). mrOnce mr)
     \<and> (mClosed m \<longrightarrow> mBaseDone m \<and> mResolvers m = [])
     \<and> (mCloseErr m \<noteq> None \<longleftrightarrow> mClosed m)"

lemma watch_invI:
  assumes "distinct (map fst (mResolvers m))" "distinct (map wlCtx (mLoops m))"
    "\<And>l. l \<in> set (mLoops m) \<Longrightarrow> wlCtx l < length (mCtxs m)"
    "\<And>l. l \<in> set (mLoops m) \<Longrightarrow> \<not> mCtxs m ! wlCtx l \<Longrightarrow>
       \<exists>mr. map_of (mResolvers m) (wlName l) = Some mr \<and> mrCancel mr = Some (wlCtx l)"
  shows "watch_inv m"
  using assms unfolding watch_inv_def by blast

lemma watch_invD:
  assumes "watch_inv m"
  shows "distinct (map fst (mResolvers m))" "distinct (map wlCtx (mLoops m))"
    "l \<in> set (mLoops m) \<Longrightarrow> wlCtx l < length (mCtxs m)"
    "l \<in> set (mLoops m) \<Longrightarrow> \<not> mCtxs m ! wlCtx l \<Longrightarrow>
       \<exists>mr. map_of (mResolvers m) (wlName l) = Some mr \<and> mrCancel mr = Some (wlCtx l)"
  using assms unfolding watch_inv_def by blast+

lemma core_inv:
  assumes "mgr_core m' = mgr_core m"
  shows "watch_inv m' = watch_inv m" "mgr_inv m' = mgr_inv m" "mClosed m' = mClosed m"
    "mCloseErr m' = mCloseErr m" "live_watch m' l = live_watch m l" "mResolvers m' = mResolvers m"
proof -
  have eqs: "mResolvers m' = mResolvers m" "mClosed m' = mClosed m" "mBaseDone m' = mBaseDone m"
    "mCtxs m' = mCtxs m" "mLoops m' = mLoops m" "mCloseErr m' = mCloseErr m"
    using assms unfolding mgr_core_def prod.inject by blast+
  show "watch_inv m' = watch_inv m" "mgr_inv m' = mgr_inv m" "mClosed m' = mClosed m"
    "mCloseErr m' = mCloseErr m" "live_watch m' l = live_watch m l" "mResolvers m' = mResolvers m"
    by (simp_all only: mgr_inv_def watch_inv_def live_watch_def loop_done_def eqs)
qed

lemma one_watch_per_name:
  assumes "watch_inv m" "live_watch m l" "live_watch m l'" "wlName l = wlName l'"
  shows "l = l'"
proof -
  have run: "\<not> mCtxs m ! wlCtx k \<and> k \<in> set (mLoops m)" if "live_watch m k" for k
    using that watch_invD(3) [OF assms(1)] by (auto simp: live_watch_def loop_done_def)
  obtain mr where "map_of (mResolvers m) (wlName l) = Some mr" "mrCancel mr = Some (wlCtx l)"
    using watch_invD(4) [OF assms(1)] run [OF assms(2)] by blast
  moreover obtain mr' where "map_of (mResolvers m) (wlName l') = Some mr'" "mrCancel mr' = Some (wlCtx l')"
    using watch_invD(4) [OF assms(1)] run [OF assms(3)] by blast
  ultimately have "wlCtx l = wlCtx l'" using assms(4) by simp
  with run [OF assms(2)] run [OF assms(3)] watch_invD(2) [OF assms(1)] show ?thesis
    by (auto simp: distinct_map inj_on_def)
qed

lemma closed_no_watch: "mgr_inv m \<Longrightarrow> mClosed m \<Longrightarrow> \<not> live_watch m l"
  by (simp add: mgr_inv_def live_watch_def loop_done_def)

section \<open>Every step keeps it\<close>

lemma call_watch_core: "call_watch ops c n m = (res, m') \<Longrightarrow> mgr_core m' = mgr_core m"
  using plain_call_watch [of ops m c n] by (simp add: plain_step_def)

lemma call_resolve_core: "call_resolve ops c n t m = (res, m') \<Longrightarrow> mgr_core m' = mgr_core m"
  using plain_call_resolve [of ops m c n t] by (simp add: plain_step_def)

text \<open>Starting a watch: a new context, stored in the resolver, with a loop or cancelled at once.\<close>

lemma startManagedWatch_core:
  assumes "startManagedWatch ops mr n t m = (mr', m')"
  shows "mr' = mr\<lparr>mrCancel := Some (length (mCtxs m))\<rparr>" "mResolvers m' = mResolvers m"
    "mClosed m' = mClosed m" "mBaseDone m' = mBaseDone m" "mCloseErr m' = mCloseErr m"
    "mConfig m' = mConfig m"
    "(mCtxs m', mLoops m') = (mCtxs m @ [True], mLoops m)
     \<or> (mCtxs m', mLoops m')
         = (mCtxs m @ [False], mLoops m @ [\<lparr>wlCtx = length (mCtxs m), wlName = n, wlTag = t\<rparr>])"
    "reg_path ops (mRegistry m) (mRegistry m')"
proof -
  let ?m = "m\<lparr>mCtxs := mCtxs m @ [False]\<rparr>"
  obtain ch err m1 where
    w: "call_watch ops \<lparr>ctxDone = mBaseDone m, ctxDeadline = None\<rparr> n ?m = ((ch, err), m1)"
    by (metis surj_pair)
  have p: "plain_step ops ?m m1" using plain_call_watch [of ops ?m _ n] w by (metis snd_conv)
  then have c: "mResolvers m1 = mResolvers m" "mClosed m1 = mClosed m" "mBaseDone m1 = mBaseDone m"
    "mCloseErr m1 = mCloseErr m" "mCtxs m1 = mCtxs m @ [False]" "mLoops m1 = mLoops m"
    "mConfig m1 = mConfig m" "reg_path ops (mRegistry m) (mRegistry m1)"
    by (simp_all add: plain_step_def mgr_core_def)
  have "(mr', m') = (mr\<lparr>mrCancel := Some (length (mCtxs m))\<rparr>,
      case err of
        Some e \<Rightarrow> m_log LevelWarn ''managed resolver watch failed to start; serving seed only''
          [LString ''service'' n, LErr e] (m1\<lparr>mCtxs := (mCtxs m1)[length (mCtxs m) := True]\<rparr>)
      | None \<Rightarrow> m1\<lparr>mLoops := mLoops m1 @ [\<lparr>wlCtx = length (mCtxs m), wlName = n, wlTag = t\<rparr>]\<rparr>)"
    using assms w by (auto simp: startManagedWatch_def Let_def split: option.splits)
  then show "mr' = mr\<lparr>mrCancel := Some (length (mCtxs m))\<rparr>" "mResolvers m' = mResolvers m"
    "mClosed m' = mClosed m" "mBaseDone m' = mBaseDone m" "mCloseErr m' = mCloseErr m"
    "mConfig m' = mConfig m"
    "(mCtxs m', mLoops m') = (mCtxs m @ [True], mLoops m)
     \<or> (mCtxs m', mLoops m')
         = (mCtxs m @ [False], mLoops m @ [\<lparr>wlCtx = length (mCtxs m), wlName = n, wlTag = t\<rparr>])"
    "reg_path ops (mRegistry m) (mRegistry m')"
    using c by (cases err; simp add: m_log_def)+
qed

text \<open>A seed is an attempt and the start of a watch, or a panic that unwinds before it.\<close>

lemma seed_is_start:
  assumes "seedManagedResolver ops c mr n m = (mr', m')"
  shows "\<exists>mr1 m1. plain_step ops m m1 \<and> mrOnce mr1 = mrOnce mr
     \<and> (startManagedWatch ops mr1 n (workloadTag m) m1 = (mr', m') \<or> (mr1, m1) = (mr', m'))"
proof -
  obtain res m1 where r: "call_resolve ops (WithTimeout c (mSeedTimeout m)) n (workloadTag m) m = (res, m1)"
    by fastforce
  have p: "plain_step ops m (m_log l msg items m1)" for l msg items
    using plain_call_resolve [of ops m "WithTimeout c (mSeedTimeout m)" n "workloadTag m"] r by simp
  show ?thesis
  proof (cases res)
    case (Inl e)
    let ?m = "m_log LevelWarn ''managed resolver seed degraded; watching for recovery''
      [LString ''service'' n, LString ''workload'' (mWorkload m), LErr e] m1"
    have "plain_step ops m m1"
      using plain_call_resolve [of ops m "WithTimeout c (mSeedTimeout m)" n "workloadTag m"] r by simp
    with Inl assms r p show ?thesis
      by (cases "is_panic e"; intro exI [of _ "mr\<lparr>mrSeedErr := Some e\<rparr>"] exI [of _ "if is_panic e then m1 else ?m"])
         (auto simp: seedManagedResolver_def Let_def)
  next
    case (Inr svc)
    let ?m = "m_log LevelDebug ''managed resolver seeded''
      [LString ''service'' n, LString ''source'' ''consul'', LString ''workload'' (mWorkload m)] m1"
    from Inr assms r p show ?thesis
      by (intro exI [of _ "mr_store svc mr"] exI [of _ ?m])
         (auto simp: seedManagedResolver_def Let_def mr_store_def)
  qed
qed

text \<open>A lookup: the resolver is known, the manager is closed, or the name is seeded and watched.\<close>

lemma new_resolver_once [simp]: "\<not> mrOnce new_resolver"
  by (simp add: new_resolver_def)

definition one_context :: "string \<Rightarrow> 'r manager \<Rightarrow> 'r manager \<Rightarrow> bool" where
  "one_context n m m' \<longleftrightarrow>
     (mCtxs m', mLoops m') = (mCtxs m, mLoops m) \<or> (mCtxs m', mLoops m') = (mCtxs m @ [True], mLoops m)
     \<or> (\<exists>t. (mCtxs m', mLoops m')
         = (mCtxs m @ [False], mLoops m @ [\<lparr>wlCtx = length (mCtxs m), wlName = n, wlTag = t\<rparr>]))"

definition seed_tail :: "'r registry_ops \<Rightarrow> string \<Rightarrow> managed_resolver \<Rightarrow> 'r manager \<Rightarrow> 'r manager \<Rightarrow> bool" where
  "seed_tail ops n mr m m' \<longleftrightarrow>
     mrOnce mr \<and> (mrCancel mr = Some (length (mCtxs m)) \<or> (mCtxs m', mLoops m') = (mCtxs m, mLoops m))
     \<and> mResolvers m' = mResolvers m \<and> mClosed m' = mClosed m \<and> mBaseDone m' = mBaseDone m
     \<and> mCloseErr m' = mCloseErr m \<and> mConfig m' = mConfig m \<and> reg_path ops (mRegistry m) (mRegistry m')
     \<and> one_context n m m'"

lemma start_tail:
  assumes "startManagedWatch ops mr2 n t m = (mr, m')" "mrOnce mr2" shows "seed_tail ops n mr m m'"
proof -
  note c = startManagedWatch_core [OF assms(1)]
  have "one_context n m m'" using c(7) unfolding one_context_def by blast
  then show ?thesis unfolding seed_tail_def using c(1-6,8) assms(2) by simp
qed

lemma panic_tail: "mrOnce mr \<Longrightarrow> seed_tail ops n mr m m"
  by (simp add: seed_tail_def one_context_def)

lemma lookup_cases:
  assumes "managedResolverFor ops c n m = (mr, m')" "mgr_inv m"
  obtains "map_of (mResolvers m) n = Some mr" "m' = m"
    | "mClosed m" "mr = new_resolver" "m' = m"
    | "map_of (mResolvers m) n = None" "\<not> mClosed m" "mrOnce mr"
      "mResolvers m' = AList.update n mr (mResolvers m)"
      "mrCancel mr = Some (length (mCtxs m)) \<or> (mCtxs m', mLoops m') = (mCtxs m, mLoops m)"
      "mClosed m' = mClosed m" "mBaseDone m' = mBaseDone m"
      "mCloseErr m' = mCloseErr m" "mConfig m' = mConfig m"
      "(mCtxs m', mLoops m') = (mCtxs m, mLoops m) \<or> (mCtxs m', mLoops m') = (mCtxs m @ [True], mLoops m)
       \<or> (\<exists>t. (mCtxs m', mLoops m')
           = (mCtxs m @ [False], mLoops m @ [\<lparr>wlCtx = length (mCtxs m), wlName = n, wlTag = t\<rparr>]))"
      "reg_path ops (mRegistry m) (mRegistry m')"
proof (cases "map_of (mResolvers m) n")
  case (Some mr0)
  then have "mrOnce mr0" using assms(2) by (auto simp: mgr_inv_def dest: map_of_SomeD)
  then have "managedResolverFor ops c n m = (mr0, m)"
    by (simp add: managedResolverFor_def seed_once_def Some)
  then have "mr = mr0" "m' = m" using assms(1) by simp_all
  with Some show ?thesis using that(1) by blast
next
  case None
  show ?thesis
  proof (cases "mClosed m")
    case True
    then have "managedResolverFor ops c n m = (new_resolver, m)"
      by (simp add: managedResolverFor_def None)
    then have "mr = new_resolver" "m' = m" using assms(1) by simp_all
    with True show ?thesis using that(2) by blast
  next
    case False
    let ?m = "m\<lparr>mResolvers := AList.update n new_resolver (mResolvers m)\<rparr>"
    obtain mr1 m1 where seed: "seedManagedResolver ops c (new_resolver\<lparr>mrOnce := True\<rparr>) n ?m = (mr1, m1)"
      by fastforce
    have "managedResolverFor ops c n m
        = (mr1, m1\<lparr>mResolvers := AList.update n mr1 (mResolvers m1)\<rparr>)"
      by (simp add: managedResolverFor_def seed_once_def None False seed)
    then have mr: "mr1 = mr" "m' = m1\<lparr>mResolvers := AList.update n mr (mResolvers m1)\<rparr>"
      unfolding assms(1) prod.inject by blast+
    obtain mr2 m2 where p: "plain_step ops ?m m2" and once: "mrOnce mr2"
      and start: "startManagedWatch ops mr2 n (workloadTag ?m) m2 = (mr, m1) \<or> (mr2, m2) = (mr, m1)"
      using seed_is_start [OF seed] mr(1) by auto
    have c: "mResolvers m2 = mResolvers ?m" "mClosed m2 = mClosed m" "mBaseDone m2 = mBaseDone m"
      "mCtxs m2 = mCtxs m" "mLoops m2 = mLoops m" "mCloseErr m2 = mCloseErr m" "mConfig m2 = mConfig m"
      "reg_path ops (mRegistry m) (mRegistry m2)"
      using p by (simp_all add: plain_step_def mgr_core_def)
    have d: "seed_tail ops n mr m2 m1" using start start_tail once panic_tail by blast
    have twice: "AList.update n mr (AList.update n new_resolver xs) = AList.update n mr xs" for xs
      by (induction xs) auto
    show ?thesis
    proof (rule that(3) [OF None False])
      show "mrOnce mr" using d by (simp add: seed_tail_def)
      show "mrCancel mr = Some (length (mCtxs m)) \<or> (mCtxs m', mLoops m') = (mCtxs m, mLoops m)"
        using d c mr(2) by (simp add: seed_tail_def)
      show "mResolvers m' = AList.update n mr (mResolvers m)" using d c mr(2) twice by (simp add: seed_tail_def)
      show "mClosed m' = mClosed m" "mBaseDone m' = mBaseDone m" "mCloseErr m' = mCloseErr m"
        "mConfig m' = mConfig m" using d c mr(2) by (simp_all add: seed_tail_def)
      show "(mCtxs m', mLoops m') = (mCtxs m, mLoops m) \<or> (mCtxs m', mLoops m') = (mCtxs m @ [True], mLoops m)
       \<or> (\<exists>t. (mCtxs m', mLoops m')
           = (mCtxs m @ [False], mLoops m @ [\<lparr>wlCtx = length (mCtxs m), wlName = n, wlTag = t\<rparr>]))"
        using d c mr(2) by (simp add: seed_tail_def one_context_def)
      show "reg_path ops (mRegistry m) (mRegistry m')"
        using d reg_path_trans [OF c(8)] mr(2) by (simp add: seed_tail_def)
    qed
  qed
qed

lemma update_new:
  "map_of al k = None \<Longrightarrow> AList.update k v al = al @ [(k, v)]"
  by (induction al) auto

lemma lookup_inv:
  assumes "managedResolverFor ops c n m = (mr, m')" "mgr_inv m"
  shows "mgr_inv m'"
  using assms
proof (cases rule: lookup_cases)
  case 3
  have wi: "watch_inv m" using assms(2) by (simp add: mgr_inv_def)
  note d = watch_invD [OF wi]
  have rs: "mResolvers m' = mResolvers m @ [(n, mr)]" using 3(1,4) update_new by metis
  have fst_new: "n \<notin> fst ` set (mResolvers m)" using 3(1) by (simp add: map_of_eq_None_iff)
  have small: "wlCtx l < length (mCtxs m)" if "l \<in> set (mLoops m)" for l using d(3) that .
  have old: "\<exists>mr'. map_of (mResolvers m') (wlName l) = Some mr' \<and> mrCancel mr' = Some (wlCtx l)"
    if l: "l \<in> set (mLoops m)" "\<not> mCtxs m ! wlCtx l" for l
    using d(4) [OF l] by (auto simp: rs map_add_Some_iff)
  have dist: "distinct (map fst (mResolvers m'))" using d(1) fst_new by (simp add: rs)
  have new: "\<exists>q. map_of (mResolvers m') n = Some q \<and> mrCancel q = Some (length (mCtxs m))"
    if "(mCtxs m', mLoops m') \<noteq> (mCtxs m, mLoops m)"
    using 3(1,5) that by (auto simp: rs map_add_Some_iff)
  have "watch_inv m'"
    using 3(10)
  proof (elim disjE)
    assume "(mCtxs m', mLoops m') = (mCtxs m, mLoops m)"
    then have e: "mCtxs m' = mCtxs m" "mLoops m' = mLoops m" by simp_all
    show ?thesis by (rule watch_invI) (use d(2) dist small old in \<open>auto simp: e\<close>)
  next
    assume "(mCtxs m', mLoops m') = (mCtxs m @ [True], mLoops m)"
    then have e: "mCtxs m' = mCtxs m @ [True]" "mLoops m' = mLoops m" by simp_all
    show ?thesis
      by (rule watch_invI) (use d(2) dist small old in \<open>auto simp: e nth_append less_SucI\<close>)
  next
    assume "\<exists>t. (mCtxs m', mLoops m') = (mCtxs m @ [False],
        mLoops m @ [\<lparr>wlCtx = length (mCtxs m), wlName = n, wlTag = t\<rparr>])"
    then obtain t where e: "mCtxs m' = mCtxs m @ [False]"
      "mLoops m' = mLoops m @ [\<lparr>wlCtx = length (mCtxs m), wlName = n, wlTag = t\<rparr>]" by auto
    have "length (mCtxs m) \<notin> wlCtx ` set (mLoops m)" using small by force
    then show ?thesis
      by (intro watch_invI)
         (use d(2) dist small old new in \<open>auto simp: e nth_append less_SucI split: if_splits\<close>)
  qed
  moreover have "\<forall>(k, r) \<in> set (mResolvers m'). mrOnce r"
    using assms(2) 3(3) by (auto simp: mgr_inv_def rs)
  ultimately show ?thesis using assms(2) 3(2,6-8) by (simp add: mgr_inv_def)
qed (use assms(2) in simp_all)

lemma cached_step_inv: "cached_step ops m m' \<Longrightarrow> mgr_inv m \<Longrightarrow> mgr_inv m'"
  unfolding cached_step_def plain_step_def using core_inv(2) lookup_inv by (metis prod.collapse)

lemma managed_update_fields:
  "mrCancel (fst (fst (managed_update ops c n t (mr, r)))) = mrCancel mr"
  "mrOnce (fst (fst (managed_update ops c n t (mr, r)))) = mrOnce mr"
  by (auto simp: managed_update_def mr_store_def mr_clear_def split: prod.splits sum.splits)

lemma map_fst_update_old: "k \<in> fst ` set al \<Longrightarrow> map fst (AList.update k v al) = map fst al"
  by (induction al) auto

lemma event_shape:
  obtains "deliver_event ops l m = m"
  | mr r res r' where "mRegistry m = Some r" "map_of (mResolvers m) (wlName l) = Some mr"
    "opResolve ops \<lparr>ctxDone = False, ctxDeadline = None\<rparr> (wlName l) (wlTag l) r = (res, r')"
    "mRegistry (deliver_event ops l m) = Some r'"
    "mResolvers (deliver_event ops l m) = AList.update (wlName l) (cell.update res mr) (mResolvers m)"
    "mLoops (deliver_event ops l m) = (if panics res then removeAll l (mLoops m) else mLoops m)"
    "mCtxs (deliver_event ops l m) = mCtxs m"
    "mClosed (deliver_event ops l m) = mClosed m" "mBaseDone (deliver_event ops l m) = mBaseDone m"
    "mCloseErr (deliver_event ops l m) = mCloseErr m" "mConfig (deliver_event ops l m) = mConfig m"
    "live_watch m l"
proof (cases "mRegistry m"; cases "map_of (mResolvers m) (wlName l)")
  fix r mr assume a: "mRegistry m = Some r" "map_of (mResolvers m) (wlName l) = Some mr"
  let ?c = "\<lparr>ctxDone = False, ctxDeadline = None\<rparr>"
  obtain res r' where res: "opResolve ops ?c (wlName l) (wlTag l) r = (res, r')" by fastforce
  obtain lg where lg: "managed_update ops ?c (wlName l) (wlTag l) (mr, r) = ((cell.update res mr, r'), lg)"
    using managed_update_cell [of ops ?c "wlName l" "wlTag l" mr r] res by (metis fst_conv prod.collapse snd_conv)
  show thesis
  proof (cases "live_watch m l \<and> mrCancel mr = Some (wlCtx l)")
    case True
    show thesis by (rule that(2) [OF a res]) (use True a lg res in \<open>simp_all add: deliver_event_def\<close>)
  next
    case False
    with a have "deliver_event ops l m = m" by (auto simp: deliver_event_def)
    then show thesis by (rule that(1))
  qed
qed (use that(1) in \<open>simp_all add: deliver_event_def\<close>)

lemma cell_update_fields: "mrCancel (cell.update res mr) = mrCancel mr" "mrOnce (cell.update res mr) = mrOnce mr"
  by (auto simp: cell.update_def mr_store_def mr_clear_def split: sum.splits)

lemma set_update_sub: "set (AList.update k v al) \<subseteq> insert (k, v) (set al)"
  by (induction al) auto

lemma event_inv:
  assumes "mgr_inv m" shows "mgr_inv (deliver_event ops l m)" (is "mgr_inv ?m")
proof (cases rule: event_shape [of ops l m])
  case (2 mr r res r')
  have wi: "watch_inv m" using assms by (simp add: mgr_inv_def)
  note d = watch_invD [OF wi]
  have n: "wlName l \<in> fst ` set (mResolvers m)" using 2(2) by (force dest: map_of_SomeD)
  have at: "map_of (mResolvers ?m) k
      = (if k = wlName l then Some (cell.update res mr) else map_of (mResolvers m) k)" for k
    by (simp add: 2(5) update_conv')
  have "watch_inv ?m"
  proof (rule watch_invI)
    fix k assume "k \<in> set (mLoops ?m)" "\<not> mCtxs ?m ! wlCtx k"
    then have "k \<in> set (mLoops m)" "\<not> mCtxs m ! wlCtx k" using 2(6,7) by (auto split: if_splits)
    then obtain q where "map_of (mResolvers m) (wlName k) = Some q" "mrCancel q = Some (wlCtx k)"
      using d(4) by metis
    then show "\<exists>q. map_of (mResolvers ?m) (wlName k) = Some q \<and> mrCancel q = Some (wlCtx k)"
      using 2(2) by (auto simp: at cell_update_fields)
  qed (use d(1-3) n in \<open>auto simp: 2(5,6,7) map_fst_update_old distinct_map removeAll_filter_not_eq
      intro: inj_on_subset split: if_splits\<close>)
  moreover have "mrOnce mr" using assms 2(2) by (auto simp: mgr_inv_def dest: map_of_SomeD)
  then have "\<forall>(k, q) \<in> set (mResolvers ?m). mrOnce q"
    using assms 2(5) set_update_sub by (fastforce simp: mgr_inv_def cell_update_fields)
  moreover have "mResolvers m = [] \<Longrightarrow> False" using n by simp
  ultimately show ?thesis using assms 2(8-10) by (auto simp: mgr_inv_def)
qed (use assms in simp)

text \<open>Close stops the resolvers one by one, then closes the backend.\<close>

lemma stop_resolver_fields:
  "mClosed (stop_resolver e m) = mClosed m" "mBaseDone (stop_resolver e m) = mBaseDone m"
  "mCloseErr (stop_resolver e m) = mCloseErr m" "mRegistry (stop_resolver e m) = mRegistry m"
  "mLoops (stop_resolver e m) = mLoops m" "mConfig (stop_resolver e m) = mConfig m"
  by (simp_all add: stop_resolver_def mr_stop_def split: prod.splits)

lemma stop_resolvers_fields:
  "mClosed (fold stop_resolver es m) = mClosed m" "mBaseDone (fold stop_resolver es m) = mBaseDone m"
  "mCloseErr (fold stop_resolver es m) = mCloseErr m"
  "mRegistry (fold stop_resolver es m) = mRegistry m" "mLoops (fold stop_resolver es m) = mLoops m"
  "mConfig (fold stop_resolver es m) = mConfig m"
  by (induction es arbitrary: m) (simp_all add: stop_resolver_fields)

lemma cancel_nth: "j < length xs \<Longrightarrow> xs[i := True] ! j \<longleftrightarrow> xs ! j \<or> i = j"
  by (cases "i = j") simp_all

lemma watch_inv_cong:
  "mResolvers m' = mResolvers m \<Longrightarrow> mCtxs m' = mCtxs m \<Longrightarrow> mLoops m' = mLoops m \<Longrightarrow>
     watch_inv m' = watch_inv m"
  by (simp only: watch_inv_def)

lemma stop_resolver_inv:
  assumes wi: "watch_inv m" and rs: "mResolvers m = (n, mr) # es"
  shows "watch_inv (stop_resolver (n, mr) m)" "mResolvers (stop_resolver (n, mr) m) = es"
proof -
  note d = watch_invD [OF wi]
  have "n \<notin> fst ` set es" using d(1) rs by simp
  then have del: "AList.delete n (mResolvers m) = es"
    using rs by (auto simp: AList.delete_eq filter_id_conv image_iff)
  then show "mResolvers (stop_resolver (n, mr) m) = es" by (simp add: stop_resolver_def mr_stop_def)
  have len: "length (mCtxs (stop_resolver (n, mr) m)) = length (mCtxs m)"
    by (simp add: stop_resolver_def mr_stop_def split: option.splits)
  show "watch_inv (stop_resolver (n, mr) m)"
  proof (rule watch_invI)
    fix l assume l: "l \<in> set (mLoops (stop_resolver (n, mr) m))"
      "\<not> mCtxs (stop_resolver (n, mr) m) ! wlCtx l"
    then have in_m: "l \<in> set (mLoops m)" by (simp add: stop_resolver_fields)
    have "\<not> mCtxs m ! wlCtx l" "mrCancel mr \<noteq> Some (wlCtx l)"
      using l(2) d(3) [OF in_m]
      by (auto simp: stop_resolver_def mr_stop_def cancel_nth split: option.splits)
    with d(4) [OF in_m] obtain q where q: "map_of (mResolvers m) (wlName l) = Some q"
      "mrCancel q = Some (wlCtx l)" "wlName l \<noteq> n" by (auto simp: rs split: if_splits)
    then show "\<exists>q. map_of (mResolvers (stop_resolver (n, mr) m)) (wlName l) = Some q
        \<and> mrCancel q = Some (wlCtx l)"
      using \<open>mResolvers (stop_resolver (n, mr) m) = es\<close> by (auto simp: rs)
  qed (use d rs len \<open>mResolvers (stop_resolver (n, mr) m) = es\<close> in
      \<open>auto simp: stop_resolver_fields\<close>)
qed

lemma stop_resolvers_inv:
  "watch_inv m \<Longrightarrow> mResolvers m = es \<Longrightarrow>
     watch_inv (fold stop_resolver es m) \<and> mResolvers (fold stop_resolver es m) = []"
proof (induction es arbitrary: m)
  case (Cons e es)
  obtain n mr where e: "e = (n, mr)" by (cases e)
  with Cons stop_resolver_inv [of m n mr es] show ?case by simp
qed simp

lemma same_registry: "mRegistry m = x \<Longrightarrow> m\<lparr>mRegistry := x\<rparr> = m"
  by (cases m) simp

lemma close_shape:
  assumes "mgr_inv m"
  obtains "mClosed m" "mgr_after ops OpClose m = m"
    | "\<not> mClosed m" "mgr_inv (mgr_after ops OpClose m)" "mClosed (mgr_after ops OpClose m)"
      "mRegistry (mgr_after ops OpClose m) = map_option (after_close ops) (mRegistry m)"
      "mCloseErr (mgr_after ops OpClose m)
         = Some (case mRegistry m of None \<Rightarrow> None | Some r \<Rightarrow> close_error ops r)"
      "mConfig (mgr_after ops OpClose m) = mConfig m"
proof (cases "mClosed m")
  case True
  then have "mCloseErr m \<noteq> None" using assms by (simp add: mgr_inv_def)
  with True that(1) show ?thesis by (auto simp: Manager_Close_def)
next
  case False
  let ?m1 = "m\<lparr>mClosed := True, mBaseDone := True\<rparr>"
  define m2 where "m2 = fold stop_resolver (mResolvers ?m1) ?m1"
  have none: "mCloseErr m = None" using False assms by (simp add: mgr_inv_def)
  have "watch_inv ?m1 = watch_inv m" by (rule watch_inv_cong) simp_all
  then have "watch_inv ?m1" using assms by (simp add: mgr_inv_def)
  then have w: "watch_inv m2" "mResolvers m2 = []" using stop_resolvers_inv m2_def by blast+
  have f: "mRegistry m2 = mRegistry m" "mClosed m2" "mBaseDone m2" "mConfig m2 = mConfig m"
    by (simp_all add: m2_def stop_resolvers_fields)
  define m3 where "m3 = snd (doClose ops m)"
  have "doClose ops m = (case mRegistry m of
      None \<Rightarrow> (None, m2)
    | Some r \<Rightarrow> (case opClose ops of None \<Rightarrow> (None, m2)
                 | Some close \<Rightarrow> (case close r of (e, r') \<Rightarrow> (e, m2\<lparr>mRegistry := Some r'\<rparr>))))"
    unfolding doClose_def Let_def m2_def [symmetric] f(1) ..
  then have m3: "m3 = m2\<lparr>mRegistry := map_option (after_close ops) (mRegistry m)\<rparr>"
    "fst (doClose ops m) = (case mRegistry m of None \<Rightarrow> None | Some r \<Rightarrow> close_error ops r)"
    using same_registry [OF f(1)]
    by (auto simp: m3_def after_close_def close_error_def split: option.splits prod.splits)
  have c: "mgr_after ops OpClose m = m3\<lparr>mCloseErr := Some (fst (doClose ops m))\<rparr>"
    using none by (simp add: Manager_Close_def m3_def case_prod_unfold)
  have "watch_inv (mgr_after ops OpClose m) = watch_inv m2"
    unfolding c m3(1) by (rule watch_inv_cong) simp_all
  then have inv: "mgr_inv (mgr_after ops OpClose m)" using w f unfolding c m3(1) by (simp add: mgr_inv_def)
  show ?thesis by (rule that(2) [OF False inv]) (unfold c m3, simp_all add: f)
qed

lemma step_inv [inv_intros]: "mgr_inv m \<Longrightarrow> mgr_inv (mgr_after ops x m)"
proof -
  assume inv: "mgr_inv m"
  consider "x = OpClose" | l where "x = OpEvent l" | "x \<noteq> OpClose" "\<not> (\<exists>l. x = OpEvent l)" by blast
  then show ?thesis
  proof cases
    case 1
    with inv show ?thesis by (metis close_shape)
  next
    case 2
    with inv event_inv show ?thesis by simp
  next
    case 3
    show ?thesis by (rule cached_step_inv [OF cached_op [OF 3] inv])
  qed
qed

lemma steps_inv: "mgr_inv m \<Longrightarrow> mgr_inv (fold (mgr_after ops) xs m)"
  by (induction xs arbitrary: m) (simp_all add: step_inv)

section \<open>The backend under the manager\<close>

text \<open>A step moves the backend by requests, or closes it, once.\<close>

lemma lookup_registry:
  assumes "managedResolverFor ops c n m = (mr, m')" "mgr_inv m"
  shows "reg_path ops (mRegistry m) (mRegistry m')" "mClosed m' = mClosed m"
    "mCloseErr m' = mCloseErr m" "mConfig m' = mConfig m"
  using assms by (cases rule: lookup_cases; simp)+

lemma cached_registry:
  assumes "cached_step ops m m'" "mgr_inv m"
  shows "reg_path ops (mRegistry m) (mRegistry m') \<and> mClosed m' = mClosed m
    \<and> mCloseErr m' = mCloseErr m \<and> mConfig m' = mConfig m"
proof -
  consider "plain_step ops m m'" | c n where "plain_step ops (snd (managedResolverFor ops c n m)) m'"
    using assms(1) by (auto simp: cached_step_def)
  then show ?thesis
  proof cases
    case 1
    then show ?thesis by (simp add: plain_step_def mgr_core_def)
  next
    case 2
    obtain mr m1 where l: "managedResolverFor ops c n m = (mr, m1)" by fastforce
    from 2 l have p: "mgr_core m' = mgr_core m1" "reg_path ops (mRegistry m1) (mRegistry m')"
      "mConfig m' = mConfig m1" by (simp_all add: plain_step_def)
    note d = lookup_registry [OF l assms(2)]
    show ?thesis using reg_path_trans [OF d(1) p(2)] d p by (simp add: mgr_core_def)
  qed
qed

lemma step_registry:
  assumes "mgr_inv m" "x \<noteq> OpClose"
  shows "reg_path ops (mRegistry m) (mRegistry (mgr_after ops x m))
    \<and> mClosed (mgr_after ops x m) = mClosed m \<and> mCloseErr (mgr_after ops x m) = mCloseErr m
    \<and> mConfig (mgr_after ops x m) = mConfig m"
proof (cases "\<exists>l. x = OpEvent l")
  case True
  then obtain l where x: "x = OpEvent l" by blast
  show ?thesis
  proof (cases rule: event_shape [of ops l m])
    case (2 mr r res r')
    then show ?thesis using x by (auto intro: reg_path_call)
  qed (simp add: x)
next
  case False
  show ?thesis using cached_registry [OF cached_op [OF assms(2) False] assms(1)] .
qed

lemma closed_steps:
  assumes "mgr_inv m" "mClosed m"
  shows "mClosed (fold (mgr_after ops) xs m) \<and> mCloseErr (fold (mgr_after ops) xs m) = mCloseErr m
    \<and> reg_path ops (mRegistry m) (mRegistry (fold (mgr_after ops) xs m))"
  using assms
proof (induction xs arbitrary: m)
  case (Cons x xs)
  have "mgr_after ops x m = m \<or> x \<noteq> OpClose" using close_shape [OF Cons.prems(1)] Cons.prems(2) by blast
  then have s: "mClosed (mgr_after ops x m) \<and> mCloseErr (mgr_after ops x m) = mCloseErr m
      \<and> reg_path ops (mRegistry m) (mRegistry (mgr_after ops x m))"
    using step_registry [OF Cons.prems(1)] Cons.prems(2) by fastforce
  with Cons.IH [of "mgr_after ops x m"] step_inv [OF Cons.prems(1)] show ?case
    by (auto intro: reg_path_trans)
qed simp

text \<open>The client side of the backend contracts.\<close>

context stateful_registry
begin

lemma path_inv: "reg_path ops (Some r) (Some r') \<Longrightarrow> inv r \<Longrightarrow> inv r'"
  by (auto simp: reg_path_def inv_requests)

lemma managed_inv:
  assumes "mgr_inv m" "mRegistry m = Some r" "inv r"
  shows "\<exists>r'. mRegistry (fold (mgr_after ops) xs m) = Some r' \<and> inv r'"
  using assms
proof (induction xs arbitrary: m r)
  case (Cons x xs)
  have "\<exists>r'. mRegistry (mgr_after ops x m) = Some r' \<and> inv r'"
  proof (cases "x = OpClose")
    case True
    then show ?thesis using close_shape [OF Cons.prems(1), of ops] Cons.prems(2,3) inv_close
      by (metis option.simps(9))
  next
    case False
    then have "reg_path ops (Some r) (mRegistry (mgr_after ops x m))"
      using step_registry [OF Cons.prems(1)] Cons.prems(2) by metis
    then show ?thesis using path_inv Cons.prems(3) by (auto simp: reg_path_def)
  qed
  with Cons.IH [of "mgr_after ops x m"] step_inv [OF Cons.prems(1)] show ?case by auto
qed simp

end

context background_registry
begin

text \<open>A manager over such a backend: once it is closed, nothing of either runs, whatever is called.\<close>

lemma managed_closed:
  assumes "mgr_inv m" "mRegistry m = Some r" "inv r" "mClosed m \<longrightarrow> closed r"
  shows "\<exists>r'. mRegistry (fold (mgr_after ops) xs m) = Some r' \<and> inv r'
    \<and> (mClosed (fold (mgr_after ops) xs m) \<longrightarrow> live r' = {})"
  using assms
proof (induction xs arbitrary: m r)
  case Nil
  then show ?case using closed_quiet by auto
next
  case (Cons x xs)
  have "\<exists>r'. mRegistry (mgr_after ops x m) = Some r' \<and> inv r' \<and> (mClosed (mgr_after ops x m) \<longrightarrow> closed r')"
  proof (cases "x = OpClose")
    case True
    show ?thesis
    proof (cases rule: close_shape [OF Cons.prems(1), of ops])
      case 1
      with True Cons.prems show ?thesis by simp
    next
      case 2
      with True Cons.prems(2,3) inv_close close_closes show ?thesis by simp
    qed
  next
    case False
    obtain qs where "mRegistry (mgr_after ops x m) = Some (fold (after_request ops) qs r)"
      using step_registry [OF Cons.prems(1) False, of ops] Cons.prems(2) by (auto simp: reg_path_def)
    moreover have "mClosed (mgr_after ops x m) = mClosed m"
      using step_registry [OF Cons.prems(1) False] by blast
    ultimately show ?thesis using inv_requests closed_requests Cons.prems(3,4) by auto
  qed
  with Cons.IH [of "mgr_after ops x m"] step_inv [OF Cons.prems(1)] show ?case by auto
qed

end

lemma closes:
  "mgr_inv m \<Longrightarrow> OpClose \<in> set xs \<or> mClosed m \<Longrightarrow> mClosed (fold (mgr_after ops) xs m)"
proof (induction xs arbitrary: m)
  case (Cons x xs)
  have "x = OpClose \<Longrightarrow> mClosed (mgr_after ops x m)" by (metis close_shape [OF Cons.prems(1)])
  moreover have "x \<noteq> OpClose \<Longrightarrow> mClosed (mgr_after ops x m) = mClosed m"
    using step_registry [OF Cons.prems(1)] by blast
  ultimately show ?case
    using Cons.IH [OF step_inv [OF Cons.prems(1)], of ops x] Cons.prems(2)
    by (auto simp del: mgr_after.simps)
qed simp

section \<open>Properties\<close>

text \<open>\<open>New\<close> with the default backend, and the options that only name a logger and a workload.\<close>

definition consul_backend ::
    "'c consul_api \<Rightarrow> api_config \<Rightarrow> 'c \<Rightarrow> config \<Rightarrow> go_error + 'c consul_registry option" where
  "consul_backend api dflt server cfg =
     (case newConsulRegistry api dflt server cfg of Inl e \<Rightarrow> Inl e | Inr r \<Rightarrow> Inr (Some r))"

lemma withDefaults_Enabled [simp]: "Enabled (withDefaults c) = Enabled c"
  by (simp add: withDefaults_def parseAdvertiseAddrs_def Let_def split: prod.splits)

lemma withDefaults_valid: "Validate (withDefaults c) = None"
  by (simp add: Validate_def withDefaults_def parseAdvertiseAddrs_def Let_def split: prod.splits)

lemma New_fields:
  assumes "New mk cfg [Some (WithLogger l), Some (WithWorkload w)] = Inr m"
  shows "mResolvers m = []" "\<not> mClosed m" "mCtxs m = []" "mLoops m = []" "mCloseErr m = None"
    "mConfig m = withDefaults cfg" "mWorkload m = w" "mSeedTimeout m = SeedTimeout (withDefaults cfg)"
    "mPreferView m = PreferView (withDefaults cfg)" "\<not> mBaseDone m"
    "Enabled cfg \<Longrightarrow> \<exists>r. mRegistry m = Some r \<and> mk (withDefaults cfg) = Inr r"
  using assms
  by (auto simp: New_def Let_def withDefaults_valid WithLogger_def WithWorkload_def m_log_def
      split: if_splits sum.splits)

lemma New_inv: "New mk cfg [Some (WithLogger l), Some (WithWorkload w)] = Inr m \<Longrightarrow> mgr_inv m"
  by (simp add: mgr_inv_def watch_inv_def New_fields)

text \<open>
  C1. Shutdown is complete: for a manager built on the Consul backend, in any sequence of calls and
  watch events that contains a Close, no matter how many or what follows it, the manager ends with
  no resolver and no live watch, and its backend with no live heartbeat.
\<close>

theorem shutdown_leaves_nothing:
  assumes "New (consul_backend api dflt server) cfg [Some (WithLogger l), Some (WithWorkload w)] = Inr m"
    and "Enabled cfg" and "OpClose \<in> set xs"
  shows "mResolvers (fold (mgr_after (consul_ops api)) xs m) = []
     \<and> (\<forall>k. \<not> live_watch (fold (mgr_after (consul_ops api)) xs m) k)
     \<and> (\<exists>r. mRegistry (fold (mgr_after (consul_ops api)) xs m) = Some r \<and> cr_live r = {})"
proof -
  let ?t = "fold (mgr_after (consul_ops api)) xs m"
  have inv: "mgr_inv m" using New_inv [OF assms(1)] .
  obtain r0 where r0: "mRegistry m = Some r0" "consul_backend api dflt server (withDefaults cfg) = Inr r0"
    using New_fields(11) [OF assms(1,2)] by blast
  then have "cr_inv r0"
    by (auto simp: consul_backend_def cr_inv_def newConsulRegistry_inv split: sum.splits)
  then obtain r where r: "mRegistry ?t = Some r" "mClosed ?t \<longrightarrow> cr_live r = {}"
    using consul.managed_closed [OF inv r0(1), of api xs] New_fields(2) [OF assms(1)] by blast
  have t: "mgr_inv ?t" "mClosed ?t" using steps_inv [OF inv] closes [OF inv] assms(3) by auto
  then have "mResolvers ?t = []" by (simp add: mgr_inv_def)
  with r t closed_no_watch [OF t] show ?thesis by blast
qed

definition enabled_config :: config where
  "enabled_config = zero_config\<lparr>Enabled := True, AdvertiseAddr := ''a.example.com'', AdvertisePort := 443,
     PreferView := View_External\<rparr>"

lemma New_succeeds:
  assumes "\<And>c. \<exists>r. mk c = Inr r"
  shows "\<exists>m. New mk enabled_config [Some (WithLogger NilInterface), Some (WithWorkload w)] = Inr m"
  using assms
  by (simp add: New_def Let_def withDefaults_valid WithLogger_def WithWorkload_def isNilLogger_def
      split: sum.splits) (metis Inl_Inr_False)

lemma quiet_backend: "\<exists>r. consul_backend quiet_api default_api_config () c = Inr r"
  by (simp add: consul_backend_def newConsulRegistry_def quiet_api_def)

theorem shutdown_leaves_nothing_witness:
  "\<exists>m r. New (consul_backend quiet_api default_api_config ()) enabled_config
      [Some (WithLogger NilInterface), Some (WithWorkload ''w'')] = Inr m
    \<and> mRegistry (fold (mgr_after (consul_ops quiet_api))
         [OpRegister Background ttl_service, OpResolve Background ''a'' [], OpClose,
          OpRegister Background ttl_service] m) = Some r \<and> cr_live r = {}"
proof -
  obtain m where m: "New (consul_backend quiet_api default_api_config ()) enabled_config
      [Some (WithLogger NilInterface), Some (WithWorkload ''w'')] = Inr m"
    using New_succeeds quiet_backend by blast
  have "Enabled enabled_config" by (simp add: enabled_config_def)
  from shutdown_leaves_nothing [OF m this, of "[OpRegister Background ttl_service,
      OpResolve Background ''a'' [], OpClose, OpRegister Background ttl_service]"] m
  show ?thesis by (auto simp del: fold_simps)
qed

text \<open>
  C21. One watch per name: however the calls on a manager and its watch events are ordered, two live
  watch loops for the same service name are the same loop, and a name has at most one resolver.
\<close>

theorem one_live_watch_per_name:
  assumes "New mk cfg [Some (WithLogger l), Some (WithWorkload w)] = Inr m"
    and "live_watch (fold (mgr_after ops) xs m) a" and "live_watch (fold (mgr_after ops) xs m) b"
    and "wlName a = wlName b"
  shows "a = b \<and> distinct (map fst (mResolvers (fold (mgr_after ops) xs m)))"
proof -
  have "watch_inv (fold (mgr_after ops) xs m)"
    using steps_inv [OF New_inv [OF assms(1)], of ops xs] by (simp add: mgr_inv_def)
  then show ?thesis using one_watch_per_name assms(2-4) watch_invD(1) by blast
qed

text \<open>A backend that knows one service, for the witnesses.\<close>

definition stub_ops :: "service \<Rightarrow> nat registry_ops" where
  "stub_ops svc =
     \<lparr>opRegister = \<lambda>_ _ n. (None, n + 1), opDeregister = \<lambda>_ _ n. (None, n + 1),
      opResolve = \<lambda>_ _ _ n. (Inr svc, n + 1), opWatch = \<lambda>_ _ n. ((LiveChan, None), n + 1),
      opClose = Some (\<lambda>n. (Some (Foreign ''closed''), n + 100))\<rparr>"

definition stub_manager :: "nat manager" where
  "stub_manager =
     \<lparr>mConfig = withDefaults enabled_config, mRegistry = Some 0, mLogger = NopLogger, mWorkload = ''w'',
      mSeedTimeout = SeedTimeout (withDefaults enabled_config),
      mPreferView = PreferView (withDefaults enabled_config), mResolvers = [], mClosed = False,
      mBaseDone = False, mCtxs = [], mLoops = [], mCloseErr = None,
      mTrace = [logc LevelInfo ''service discovery enabled''
        [LString ''consul'' (ConsulAddr (withDefaults enabled_config)),
         LString ''advertise'' (AdvertiseAddr (withDefaults enabled_config))]]\<rparr>"

lemma withDefaults_logger [simp]: "cfgLogger (withDefaults c) = cfgLogger c"
  by (simp add: withDefaults_def parseAdvertiseAddrs_def Let_def split: prod.splits)

lemma stub_New:
  "New (\<lambda>_. Inr 0) enabled_config [Some (WithLogger NilInterface), Some (WithWorkload ''w'')] = Inr stub_manager"
  by (simp add: New_def Let_def withDefaults_valid WithLogger_def WithWorkload_def isNilLogger_def
      stub_manager_def m_log_def toObsLogger_def)
     (simp add: enabled_config_def zero_config_def)

lemma stub_fields [simp]:
  "Enabled (mConfig stub_manager)" "mRegistry stub_manager = Some 0" "mResolvers stub_manager = []"
  "\<not> mClosed stub_manager" "\<not> mBaseDone stub_manager" "mCtxs stub_manager = []" "mLoops stub_manager = []"
  "mWorkload stub_manager = ''w''" "mCloseErr stub_manager = None"
  by (simp_all add: stub_manager_def) (simp add: enabled_config_def)

text \<open>The first lookup of a name: what it asks the backend, and what it leaves.\<close>

lemma workloadTag_upd [simp]:
  "workloadTag (m\<lparr>mResolvers := x\<rparr>) = workloadTag m" "workloadTag (m\<lparr>mRegistry := y\<rparr>) = workloadTag m"
  by (simp_all add: workloadTag_def)

definition seeded :: "go_error + service \<Rightarrow> managed_resolver" where
  "seeded res =
     (case res of
        Inr s \<Rightarrow> mr_store s (new_resolver\<lparr>mrOnce := True\<rparr>)
      | Inl e \<Rightarrow> new_resolver\<lparr>mrOnce := True, mrSeedErr := Some e\<rparr>)"

lemma managed_first:
  assumes "\<not> mClosed m" "map_of (mResolvers m) n = None" "mRegistry m = Some r"
    and "opResolve ops (WithTimeout c (mSeedTimeout m)) n (workloadTag m) r = (res, r1)"
    and "opWatch ops \<lparr>ctxDone = mBaseDone m, ctxDeadline = None\<rparr> n r1 = ((ch, err), r2)" "\<not> panics res"
  shows "fst (managedResolverFor ops c n m) = (seeded res)\<lparr>mrCancel := Some (length (mCtxs m))\<rparr>"
    "mLoops (snd (managedResolverFor ops c n m)) = mLoops m @ (if err = None
        then [\<lparr>wlCtx = length (mCtxs m), wlName = n, wlTag = workloadTag m\<rparr>] else [])"
    "mCtxs (snd (managedResolverFor ops c n m)) = mCtxs m @ [err \<noteq> None]"
    "mRegistry (snd (managedResolverFor ops c n m)) = Some r2"
    "mBaseDone (snd (managedResolverFor ops c n m)) = mBaseDone m"
  using assms
  by (cases res; cases err; simp add: managedResolverFor_def seed_once_def seedManagedResolver_def
      call_resolve_def Let_def startManagedWatch_def call_watch_def m_log_def seeded_def)+

theorem one_live_watch_per_name_witness:
  "\<exists>k. live_watch (fold (mgr_after (stub_ops ttl_service))
       [OpResolve Background ''a'' [], OpResolve Background ''a'' []] stub_manager) k
     \<and> distinct (map fst (mResolvers (fold (mgr_after (stub_ops ttl_service))
       [OpResolve Background ''a'' [], OpResolve Background ''a'' []] stub_manager)))"
proof -
  let ?ops = "stub_ops ttl_service" and ?k = "\<lparr>wlCtx = 0, wlName = ''a'', wlTag = ''workload=w''\<rparr>"
  let ?t = "fold (mgr_after ?ops) [OpResolve Background ''a'' [], OpResolve Background ''a'' []] stub_manager"
  obtain mr m1 where look: "managedResolverFor ?ops Background ''a'' stub_manager = (mr, m1)" by fastforce
  have f: "mLoops m1 = [?k]" "mCtxs m1 = [False]" "\<not> mBaseDone m1" "mr_service mr = Some ttl_service"
    using managed_first [of stub_manager "''a''" 0 ?ops Background "Inr ttl_service" 1 LiveChan None 2] look
    by (simp_all add: stub_ops_def workloadTag_def seeded_def mr_store_def mr_service_def)
  have g: "map_of (mResolvers m1) ''a'' = Some mr" "Enabled (mConfig m1)" "mrOnce mr"
    by (cases rule: lookup_cases [OF look New_inv [OF stub_New]]; simp)+
  then have "managedResolverFor ?ops Background ''a'' m1 = (mr, m1)"
    by (simp add: managedResolverFor_def seed_once_def)
  then have t: "?t = m1"
    using look f(4) g(2) by (simp add: Manager_Resolve_def)
  have "live_watch m1 ?k" using f by (simp add: live_watch_def loop_done_def)
  with one_live_watch_per_name [OF stub_New, of ?ops "[OpResolve Background ''a'' [], OpResolve Background ''a'' []]" ?k ?k]
  show ?thesis unfolding t by blast
qed

text \<open>
  Close happens once: the first Close hands the backend its one close and keeps the answer; any
  later one, whatever was called in between, returns that same answer and changes nothing.
\<close>

lemma close_once:
  assumes "mgr_inv m" and "\<not> mClosed m" and "Manager_Close ops (Some m) = (e, Some m1)"
    and "m2 = fold (mgr_after ops) xs m1"
  shows "mRegistry m1 = map_option (after_close ops) (mRegistry m)
     \<and> e = (case mRegistry m of None \<Rightarrow> None | Some r \<Rightarrow> close_error ops r)
     \<and> Manager_Close ops (Some m2) = (e, Some m2)"
proof -
  have m1: "m1 = mgr_after ops OpClose m" using assms(3) by simp
  have ce: "mCloseErr m1 = Some e"
    using assms(1-3) by (auto simp: Manager_Close_def mgr_inv_def split: prod.splits option.splits)
  from assms(2) have shape: "mgr_inv m1" "mClosed m1" "mRegistry m1 = map_option (after_close ops) (mRegistry m)"
    "mCloseErr m1 = Some (case mRegistry m of None \<Rightarrow> None | Some r \<Rightarrow> close_error ops r)"
    unfolding m1 by (metis close_shape [OF assms(1)])+
  have "mCloseErr m2 = Some e"
    using closed_steps [OF shape(1,2), of ops xs] ce assms(4) by simp
  with shape(3,4) ce show ?thesis by (simp add: Manager_Close_def)
qed

end
