(* ===== verification/ManagerCalls.thy ===== *)
theory ManagerCalls
  imports ManagerLifecycle
begin

text \<open>
  What the calls on a manager answer: the resolve family over the cache (hot path, first lookup,
  after a watch event, after Close, disabled), registration from the configuration with its health
  check and its retries, and the construction.
\<close>

section \<open>Resolving\<close>

text \<open>A call that only adds log lines.\<close>

definition only_logs :: "'r manager \<Rightarrow> 'r manager \<Rightarrow> bool" where
  "only_logs m m' \<longleftrightarrow> (\<exists>tr. m' = m\<lparr>mTrace := tr\<rparr>)"

lemma only_logs_refl [simp]: "only_logs m m"
  unfolding only_logs_def by (rule exI [of _ "mTrace m"]) simp

lemma only_logs_log [simp]: "only_logs m m' \<Longrightarrow> only_logs m (m_log l t is m')"
  by (auto simp: only_logs_def m_log_def)

lemma only_logs_fallback [simp]: "only_logs m m' \<Longrightarrow> only_logs m (log_fallback l n a r x m')"
  by (simp add: log_fallback_def)

lemma only_logs_empty: "only_logs m (snd (resolveEmptyFallback n f mr m))"
  by (simp add: resolveEmptyFallback_def)

lemma only_logs_endpoint: "only_logs m (snd (endpoint_of_service n v f u svc m))"
  by (simp add: endpoint_of_service_def Let_def split: sum.splits)

definition or_fallback :: "string \<Rightarrow> go_error \<Rightarrow> go_error + string" where
  "or_fallback fallback e = (if fallback = [] then Inl e else Inr fallback)"

fun addr_of_view :: "string \<Rightarrow> cache_view \<Rightarrow> go_error + string" where
  "addr_of_view fallback (Serving s) = Inr (Service_Addr s)"
| "addr_of_view fallback (Unavailable e) = or_fallback fallback e"

lemma resolveEmptyFallback_result:
  "fst (resolveEmptyFallback n f mr m) = or_fallback f (mr_emptyErr mr)"
  by (simp add: resolveEmptyFallback_def or_fallback_def)

lemma Manager_Resolve_view:
  assumes "Enabled (mConfig m)"
  shows "fst (Manager_Resolve ops c n f (Some m))
     = addr_of_view f (view_of (fst (managedResolverFor ops c n m)))"
  using assms
  by (simp add: Manager_Resolve_def view_of_def case_prod_unfold resolveEmptyFallback_result
      split: option.splits)

lemma known_resolver:
  "map_of (mResolvers m) n = Some mr \<Longrightarrow> mrOnce mr \<Longrightarrow> managedResolverFor ops c n m = (mr, m)"
  by (simp add: managedResolverFor_def seed_once_def)

text \<open>
  The hot path: once a name's resolver is seeded, Resolve and ResolveService answer from the
  cache and leave the whole manager as it was, so no call reaches the backend; ResolveEndpoint and
  ResolveURL only add a log line.
\<close>

lemma cached_resolve_is_local:
  assumes "Enabled (mConfig m)" and "map_of (mResolvers m) n = Some mr" and "mrOnce mr"
    and "mr_service mr = Some svc"
  shows "Manager_Resolve ops c n f (Some m) = (Inr (Service_Addr svc), Some m)
     \<and> ResolveService ops c n fs (Some m) = (Inr svc, Some m)
     \<and> (\<exists>m'. snd (resolveEndpoint ops c n v f u (Some m)) = Some m' \<and> only_logs m m')"
proof (intro conjI)
  note look = known_resolver [OF assms(2,3), of ops c]
  show "Manager_Resolve ops c n f (Some m) = (Inr (Service_Addr svc), Some m)"
    using assms(1,4) look by (simp add: Manager_Resolve_def)
  show "ResolveService ops c n fs (Some m) = (Inr svc, Some m)"
    using assms(1,4) look by (simp add: ResolveService_def)
  show "\<exists>m'. snd (resolveEndpoint ops c n v f u (Some m)) = Some m' \<and> only_logs m m'"
    using assms(1,4) look only_logs_endpoint by (auto simp: resolveEndpoint_def case_prod_unfold)
qed

definition warm_manager :: "service \<Rightarrow> nat manager" where
  "warm_manager svc = stub_manager
     \<lparr>mResolvers := [(''a'', (seeded (Inr svc))\<lparr>mrCancel := Some 0\<rparr>)], mCtxs := [False],
      mLoops := [\<lparr>wlCtx = 0, wlName = ''a'', wlTag = ''workload=w''\<rparr>]\<rparr>"

lemma warm_facts [simp]:
  "Enabled (mConfig (warm_manager svc))" "mRegistry (warm_manager svc) = Some 0"
  "map_of (mResolvers (warm_manager svc)) ''a'' = Some ((seeded (Inr svc))\<lparr>mrCancel := Some 0\<rparr>)"
  "mrOnce ((seeded (Inr svc))\<lparr>mrCancel := Some 0\<rparr>)"
  "mr_service ((seeded (Inr svc))\<lparr>mrCancel := Some 0\<rparr>) = Some svc"
  "mgr_inv (warm_manager svc)"
  "live_watch (warm_manager svc) \<lparr>wlCtx = 0, wlName = ''a'', wlTag = ''workload=w''\<rparr>"
  by (simp_all add: warm_manager_def seeded_def mr_store_def mr_service_def mgr_inv_def watch_inv_def
      live_watch_def loop_done_def)

text \<open>
  The first Resolve of a name asks the backend once, with the workload tag and a context that
  ends within the seed timeout, and answers with that: the address of the service found, else the
  fallback, else the backend's own error.
\<close>

lemma first_resolve_answers:
  assumes "Enabled (mConfig m)" and "\<not> mClosed m" and "map_of (mResolvers m) n = None"
    and "mRegistry m = Some r"
    and "opResolve ops (WithTimeout c (mSeedTimeout m)) n (workloadTag m) r = (res, r1)" "\<not> panics res"
  shows "fst (Manager_Resolve ops c n f (Some m))
       = (case res of Inr svc \<Rightarrow> Inr (Service_Addr svc) | Inl e \<Rightarrow> or_fallback f e)
     \<and> (\<exists>d. ctxDeadline (WithTimeout c (mSeedTimeout m)) = Some d \<and> d \<le> mSeedTimeout m)"
proof
  obtain ch err r2 where w: "opWatch ops \<lparr>ctxDone = mBaseDone m, ctxDeadline = None\<rparr> n r1 = ((ch, err), r2)"
    by (metis surj_pair)
  have "fst (managedResolverFor ops c n m) = (seeded res)\<lparr>mrCancel := Some (length (mCtxs m))\<rparr>"
    by (rule managed_first(1) [OF assms(2-5) w assms(6)])
  moreover have "view_of ((seeded res)\<lparr>mrCancel := i\<rparr>)
      = (case res of Inr svc \<Rightarrow> Serving svc | Inl e \<Rightarrow> Unavailable e)" for i
    by (cases res) (simp_all add: seeded_def view_of_def mr_service_def mr_emptyErr_def mr_store_def
        new_resolver_def)
  ultimately show "fst (Manager_Resolve ops c n f (Some m))
      = (case res of Inr svc \<Rightarrow> Inr (Service_Addr svc) | Inl e \<Rightarrow> or_fallback f e)"
    by (simp add: Manager_Resolve_view [OF assms(1)] split: sum.splits)
  show "\<exists>d. ctxDeadline (WithTimeout c (mSeedTimeout m)) = Some d \<and> d \<le> mSeedTimeout m"
    by (simp add: WithTimeout_def split: option.splits)
qed

text \<open>
  C20. A watch event reaches the readers: after an event on a live watch loop, Resolve of that name
  answers by the backend's new answer when it is authoritative (an instance, or none healthy), and
  as before the event when it is a transient failure.
\<close>

theorem event_reaches_resolve:
  assumes "mgr_inv m" and "Enabled (mConfig m)" and "live_watch m l" and "mRegistry m = Some r"
    and "map_of (mResolvers m) (wlName l) = Some mr"
    and "opResolve ops Background (wlName l) (wlTag l) r = (res, r')"
  shows "fst (Manager_Resolve ops c (wlName l) f (Some (deliver_event ops l m)))
     = addr_of_view f (absorb res (view_of mr))"
proof -
  have w: "watch_inv m" using assms(1) by (simp add: mgr_inv_def)
  have "l \<in> set (mLoops m)" "\<not> mCtxs m ! wlCtx l"
    using assms(3) watch_invD(3) [OF w] by (auto simp: live_watch_def loop_done_def)
  then have own: "mrCancel mr = Some (wlCtx l)" using watch_invD(4) [OF w] assms(5) by fastforce
  have e: "mResolvers (deliver_event ops l m) = AList.update (wlName l) (cell.update res mr) (mResolvers m)
      \<and> mConfig (deliver_event ops l m) = mConfig m"
    using assms(3-6) own managed_update_cell [of ops Background "wlName l" "wlTag l" mr r]
    by (auto simp: deliver_event_def Background_def [symmetric] split: prod.splits)
  have "mrOnce mr" using assms(1,5) by (auto simp: mgr_inv_def dest: map_of_SomeD)
  then have "managedResolverFor ops c (wlName l) (deliver_event ops l m)
      = (cell.update res mr, deliver_event ops l m)"
    by (intro known_resolver) (simp_all add: e update_conv' cell_update_fields)
  then show ?thesis
    using assms(2) e by (simp add: Manager_Resolve_view cell.view_update)
qed

theorem event_reaches_resolve_witness:
  "fst (Manager_Resolve (stub_ops dual_service) Background ''a'' []
      (Some (deliver_event (stub_ops dual_service) \<lparr>wlCtx = 0, wlName = ''a'', wlTag = ''workload=w''\<rparr>
        (warm_manager ttl_service)))) = Inr (Service_Addr dual_service)"
  using event_reaches_resolve [of "warm_manager ttl_service"
      "\<lparr>wlCtx = 0, wlName = ''a'', wlTag = ''workload=w''\<rparr>" 0
      "(seeded (Inr ttl_service))\<lparr>mrCancel := Some 0\<rparr>" "stub_ops dual_service" "Inr dual_service" 1
      Background "[]"]
  by (simp add: stub_ops_def)

text \<open>
  After Close an enabled manager starts nothing: Resolve answers with the fallback, or with
  \<open>ErrNoHealthyInstances\<close> when there is none, without calling the backend and without leaving a
  resolver, a context or a loop behind.
\<close>

lemma closed_resolve_is_inert:
  assumes "mgr_inv m" and "mClosed m" and "Enabled (mConfig m)"
  shows "fst (Manager_Resolve ops c n f (Some m)) = or_fallback f ErrNoHealthyInstances
     \<and> (\<exists>m'. snd (Manager_Resolve ops c n f (Some m)) = Some m' \<and> only_logs m m')"
proof -
  have look: "managedResolverFor ops c n m = (new_resolver, m)"
    using assms(1,2) by (simp add: managedResolverFor_def mgr_inv_def)
  have e: "mr_service new_resolver = None" "mr_emptyErr new_resolver = ErrNoHealthyInstances"
    by (simp_all add: new_resolver_def mr_service_def mr_emptyErr_def)
  show ?thesis
    using assms(3) look e only_logs_empty
    by (auto simp: Manager_Resolve_def resolveEmptyFallback_result case_prod_unfold)
qed

text \<open>
  A URL is served only with a scheme: for a cached service, ResolveURL answers
  \<open>scheme://address:port\<close> of the endpoint the view selects; when the view is unavailable, or its
  endpoint has no scheme, it answers with the fallback, or with an \<open>ErrEndpointViewUnavailable\<close> when
  there is none.
\<close>

lemma resolve_url_answers:
  assumes "Enabled (mConfig m)" and "map_of (mResolvers m) n = Some mr" and "mrOnce mr"
    and "mr_service mr = Some svc"
  shows "fst (ResolveURL ops c n v f (Some m))
     = (case EndpointFor svc v of
          Inl _ \<Rightarrow> or_fallback f ErrEndpointViewUnavailable
        | Inr ep \<Rightarrow>
            if eScheme ep = []
            then or_fallback f (Errorf ''%w: %q has no scheme for view %q'' ErrEndpointViewUnavailable [n, v])
            else Inr (eScheme ep @ ''://'' @ eAddress ep @ '':'' @ itoa (ePort ep)))"
proof -
  have "fst (ResolveURL ops c n v f (Some m)) = fst (endpoint_of_service n v f True svc m)"
    using assms known_resolver [OF assms(2,3), of ops c]
    by (simp add: ResolveURL_def resolveEndpoint_def case_prod_unfold)
  moreover have "EndpointFor svc v = Inl x \<Longrightarrow> x = ErrEndpointViewUnavailable" for x
    by (auto simp: EndpointFor_def split: option.splits if_splits)
  ultimately show ?thesis
    by (simp add: endpoint_of_service_def Let_def or_fallback_def Endpoint_Addr_def host_port_def
        split: sum.splits)
qed

text \<open>
  With discovery disabled the manager is transparent: registration, deregistration and watching
  succeed without doing anything (the watch channel is closed), nothing reaches a backend, and every
  resolution answers with its fallback or \<open>ErrDiscoveryDisabledNoFallback\<close>.
\<close>

lemma disabled_is_transparent:
  assumes "\<not> Enabled (mConfig m)"
  shows "Manager_Register ops c svc (Some m) = (None, Some m)
     \<and> Manager_Deregister ops c i (Some m) = (None, Some m)
     \<and> Manager_Watch ops c n (Some m) = ((ClosedChan, None), Some m)
     \<and> RegisterAsync ops c svc as (Some m) = (Stopped, [], Some m)
     \<and> fst (Manager_Resolve ops c n f (Some m)) = or_fallback f (no_fallback n)
     \<and> fst (resolveEndpoint ops c n v f u (Some m)) = or_fallback f (no_fallback n)
     \<and> fst (ResolveService ops c n fs (Some m))
       = (if sAddress fs = [] then Inl (no_fallback n) else Inr fs)
     \<and> errors_Is (no_fallback n) ErrDiscoveryDisabledNoFallback
     \<and> (\<exists>m'. snd (Manager_Resolve ops c n f (Some m)) = Some m' \<and> only_logs m m')"
  using assms
  by (simp add: Manager_Register_def Manager_Deregister_def Manager_Watch_def RegisterAsync_def
      Manager_Resolve_def resolveEndpoint_def ResolveService_def or_fallback_def no_fallback_def)

section \<open>Registering\<close>

lemma ttl_parses:
  assumes "ttlWithDefaults raw = Inr t" shows "\<exists>d. parse_duration t = Some d \<and> 15 * second \<le> d"
proof -
  have print: "parse_duration (duration_string d) = Some d" if "15 * second \<le> d" "int64_range d" for d
    using parse_duration_string that by simp
  show ?thesis
    using assms print [of "30 * second"] print [of "15 * second"] print parse_duration_range
    by (auto simp: ttlWithDefaults_def Let_def default_durations int64_range_def
        split: if_splits option.splits)
qed

lemma advertised_ends:
  "sExternal (advertised cfg s) = (if AdvertiseAddr cfg = [] then None else Some
     \<lparr>eAddress = AdvertiseAddr cfg,
      ePort = (if AdvertisePort cfg > 0 then AdvertisePort cfg else sPort s),
      eScheme = (if sScheme s = [] then AdvertiseScheme cfg else sScheme s)\<rparr>)"
  "sInternal (advertised cfg s) = (if AdvertiseInternalAddr cfg = [] then None else Some
     \<lparr>eAddress = AdvertiseInternalAddr cfg,
      ePort = (if AdvertiseInternalPort cfg \<noteq> 0 then AdvertiseInternalPort cfg
               else if AdvertiseAddr cfg \<noteq> [] \<and> AdvertisePort cfg > 0 then AdvertisePort cfg
               else sPort s),
      eScheme = (if AdvertiseInternalScheme cfg = [] then ''http''
                 else AdvertiseInternalScheme cfg)\<rparr>)"
  by (auto simp: advertised_def Let_def normalizeEndpoints_external externalEndpoint_def)

lemma advertised_agrees: "flat_agrees (advertised cfg s)"
  by (simp add: advertised_def Let_def)

lemma advertised_frame:
  "sID (advertised cfg s) = sID s" "sName (advertised cfg s) = sName s" "sTags (advertised cfg s) = sTags s"
  "sMeta (advertised cfg s) = sMeta s" "sHealthCheck (advertised cfg s) = sHealthCheck s"
  by (simp_all add: advertised_def Let_def)

lemma applyHealthCheck_frame:
  assumes "fst (applyHealthCheck svc m) = Inr svc'"
  shows "\<exists>hc. svc' = svc\<lparr>sHealthCheck := hc\<rparr>"
  using assms
  by (auto simp: applyHealthCheck_def split: option.splits if_splits sum.splits intro: exI [of _ None])

lemma flat_agrees_frame [simp]:
  "flat_agrees (s\<lparr>sTags := t\<rparr>) = flat_agrees s" "flat_agrees (s\<lparr>sHealthCheck := h\<rparr>) = flat_agrees s"
  by (simp_all add: flat_agrees_def rootEndpoint_def split: option.splits)

lemma prepared_shape:
  assumes "fst (prepareRegister s m) = Inr svc"
  obtains "sExternal (advertised (mConfig m) s) \<noteq> None \<or> sInternal (advertised (mConfig m) s) \<noteq> None"
    "fst (applyHealthCheck (tagWorkload (mWorkload m) (advertised (mConfig m) s)) m) = Inr svc"
  using assms that by (auto simp: prepareRegister_def Let_def split: if_splits)

text \<open>
  C24. Registration is configuration-driven: what Register sends does not depend on any address or
  endpoint the caller set, and it is refused with \<open>ErrNoEndpoint\<close>, before anything reaches the
  backend, exactly when the configuration advertises neither address. So an enabled manager without an
  advertise address refuses a service that carries an endpoint of its own, which the comment on
  \<open>ErrNoEndpoint\<close> (\<open>types.go\<close>) promises to accept.
\<close>

theorem register_is_config_driven:
  "prepareRegister (s\<lparr>sAddress := a, sExternal := x, sInternal := y\<rparr>) m = prepareRegister s m
   \<and> (fst (prepareRegister s m) = Inl ErrNoEndpoint \<longleftrightarrow>
        AdvertiseAddr (mConfig m) = [] \<and> AdvertiseInternalAddr (mConfig m) = [])
   \<and> (Enabled (mConfig m) \<and> AdvertiseAddr (mConfig m) = [] \<and> AdvertiseInternalAddr (mConfig m) = [] \<longrightarrow>
        Manager_Register ops c s (Some m) = (Some ErrNoEndpoint, Some m)
        \<and> Manager_Register ops c (s\<lparr>sAddress := a, sExternal := Some own, sInternal := y\<rparr>) (Some m)
          = (Some ErrNoEndpoint, Some m))"
proof (intro conjI impI)
  have "advertised cfg (s\<lparr>sAddress := a, sExternal := x, sInternal := y\<rparr>) = advertised cfg s" for cfg
    by (simp add: advertised_def Let_def)
  then show "prepareRegister (s\<lparr>sAddress := a, sExternal := x, sInternal := y\<rparr>) m = prepareRegister s m"
    by (simp add: prepareRegister_def)
  have "fst (applyHealthCheck svc m) \<noteq> Inl ErrNoEndpoint" for svc
    by (auto simp: applyHealthCheck_def ttlWithDefaults_def Let_def split: option.splits sum.splits)
  then show "fst (prepareRegister s m) = Inl ErrNoEndpoint \<longleftrightarrow>
      AdvertiseAddr (mConfig m) = [] \<and> AdvertiseInternalAddr (mConfig m) = []"
    by (simp add: prepareRegister_def Let_def advertised_ends)
  assume "Enabled (mConfig m) \<and> AdvertiseAddr (mConfig m) = [] \<and> AdvertiseInternalAddr (mConfig m) = []"
  then show "Manager_Register ops c s (Some m) = (Some ErrNoEndpoint, Some m)"
    "Manager_Register ops c (s\<lparr>sAddress := a, sExternal := Some own, sInternal := y\<rparr>) (Some m) = (Some ErrNoEndpoint, Some m)"
    by (simp_all add: Manager_Register_def prepareRegister_def Let_def advertised_ends)
qed

theorem register_is_config_driven_witness:
  "Manager_Register (stub_ops ttl_service) Background
      (ttl_service\<lparr>sExternal := Some \<lparr>eAddress = ''own.example.com'', ePort = 443, eScheme = ''https''\<rparr>\<rparr>)
      (Some (stub_manager\<lparr>mConfig := zero_config\<lparr>Enabled := True\<rparr>\<rparr>))
    = (Some ErrNoEndpoint, Some (stub_manager\<lparr>mConfig := zero_config\<lparr>Enabled := True\<rparr>\<rparr>))"
proof -
  let ?m = "stub_manager\<lparr>mConfig := zero_config\<lparr>Enabled := True\<rparr>\<rparr>"
    and ?own = "\<lparr>eAddress = ''own.example.com'', ePort = 443, eScheme = ''https''\<rparr>"
  have "Enabled (mConfig ?m) \<and> AdvertiseAddr (mConfig ?m) = [] \<and> AdvertiseInternalAddr (mConfig ?m) = []"
    by (simp add: zero_config_def)
  with register_is_config_driven [where s = ttl_service and a = "sAddress ttl_service" and y = "sInternal ttl_service" and m = ?m
      and ops = "stub_ops ttl_service" and c = Background and own = ?own]
  have "Manager_Register (stub_ops ttl_service) Background
      (ttl_service\<lparr>sAddress := sAddress ttl_service, sExternal := Some ?own, sInternal := sInternal ttl_service\<rparr>) (Some ?m)
      = (Some ErrNoEndpoint, Some ?m)" by blast
  then show ?thesis by simp
qed

lemma prepared_codec_ready:
  assumes "fst (prepareRegister s m) = Inr svc" "int64_range (sPort s)"
    and "int64_range (AdvertisePort (mConfig m))" "int64_range (AdvertiseInternalPort (mConfig m))"
  shows "codec_ready svc" "sExternal svc = sExternal (advertised (mConfig m) s)"
    "sInternal svc = sInternal (advertised (mConfig m) s)" "sID svc = sID s"
    "sTags svc = sTags s @ (if mWorkload m = [] then [] else [''workload='' @ mWorkload m])"
proof -
  let ?a = "advertised (mConfig m) s"
  obtain some: "sExternal ?a \<noteq> None \<or> sInternal ?a \<noteq> None"
    and app: "fst (applyHealthCheck (tagWorkload (mWorkload m) ?a) m) = Inr svc"
    using prepared_shape [OF assms(1)] by blast
  obtain hc where svc: "svc = (tagWorkload (mWorkload m) ?a)\<lparr>sHealthCheck := hc\<rparr>"
    using applyHealthCheck_frame [OF app] by blast
  show ends: "sExternal svc = sExternal ?a" "sInternal svc = sInternal ?a" "sID svc = sID s"
    "sTags svc = sTags s @ (if mWorkload m = [] then [] else [''workload='' @ mWorkload m])"
    by (simp_all add: svc tagWorkload_def advertised_frame)
  have "flat_agrees svc" using advertised_agrees [of "mConfig m" s] by (simp add: svc tagWorkload_def)
  moreover have "ports_ok svc" using assms(2-4) by (auto simp: ports_ok_def ends advertised_ends split: if_splits)
  moreover have "codec_ok svc" using some by (auto simp: codec_ok_def ends advertised_ends)
  ultimately show "codec_ready svc" by (simp add: codec_ready_def)
qed

lemma prepared_read:
  assumes "fst (prepareRegister s m) = Inr svc" "entry_reflects e (registrationFor svc)" "int64_range (sPort s)"
    and "int64_range (AdvertisePort (mConfig m))" "int64_range (AdvertiseInternalPort (mConfig m))"
  shows "EndpointFor (serviceFromEntry e) v = EndpointFor (advertised (mConfig m) s) v"
  using consul_codec.view_preserved [OF prepared_codec_ready(1) [OF assms(1,3-5)] assms(2)]
    prepared_codec_ready(2,3) [OF assms(1,3-5)]
  by (simp only: EndpointFor_def)

text \<open>
  C2. End to end: an instance registered through the manager, written to the Consul catalog and
  read back by another process, offers exactly the endpoints its configuration advertises, under
  both views, and carries the workload tag the readers filter on.
\<close>

theorem register_then_read:
  assumes "fst (prepareRegister s m) = Inr svc" and "entry_reflects e (registrationFor svc)"
    and "int64_range (sPort s)" and "int64_range (AdvertisePort (mConfig m))"
    and "int64_range (AdvertiseInternalPort (mConfig m))"
  shows "sExternal (serviceFromEntry e) = sExternal (advertised (mConfig m) s)
     \<and> sInternal (serviceFromEntry e) = sInternal (advertised (mConfig m) s)
     \<and> (\<forall>v. EndpointFor (serviceFromEntry e) v = EndpointFor (advertised (mConfig m) s) v)
     \<and> sID (serviceFromEntry e) = sID s
     \<and> sTags (serviceFromEntry e)
       = sTags s @ (if mWorkload m = [] then [] else [''workload='' @ mWorkload m])"
proof -
  note p = prepared_codec_ready [OF assms(1,3-5)]
  show ?thesis
    using consul_codec.read_write [OF p(1) assms(2)] consul_codec.identity_preserved [OF assms(2)]
      prepared_read [OF assms]
    by (simp add: p(2-))
qed

definition config_manager :: "nat manager" where
  "config_manager = stub_manager\<lparr>mConfig := enabled_config\<rparr>"

definition http_service :: service where
  "http_service = empty_service\<lparr>sID := ''a-1'', sName := ''a'', sPort := 8080, sTags := [''v1''],
     sHealthCheck := Some \<lparr>hcHTTP = [], hcInterval = ''10s'', hcTimeout = ''1s'', hcPath = [], hcTTL = []\<rparr>\<rparr>"

lemma enabled_advertises: "AdvertiseAddr (withDefaults enabled_config) = ''a.example.com''"
  by code_simp

lemma http_prepares: "AdvertiseAddr (mConfig q) \<noteq> [] \<Longrightarrow> \<exists>svc. fst (prepareRegister http_service q) = Inr svc"
  by (simp add: prepareRegister_def Let_def advertised_ends applyHealthCheck_def tagWorkload_def
      advertised_frame http_service_def split: sum.splits)

lemma http_prepared: "\<exists>svc. fst (prepareRegister http_service config_manager) = Inr svc"
  by (rule http_prepares) (simp add: config_manager_def enabled_config_def)

theorem register_then_read_witness:
  "\<exists>svc. fst (prepareRegister http_service config_manager) = Inr svc
     \<and> EndpointFor (serviceFromEntry (entry_of (registrationFor svc))) View_Internal
       = Inr \<lparr>eAddress = ''a.example.com'', ePort = 443, eScheme = []\<rparr>
     \<and> sTags (serviceFromEntry (entry_of (registrationFor svc))) = [''v1'', ''workload=w'']"
proof -
  obtain svc where svc: "fst (prepareRegister http_service config_manager) = Inr svc"
    using http_prepared by blast
  have "EndpointFor (advertised (mConfig config_manager) http_service) View_Internal
      = Inr \<lparr>eAddress = ''a.example.com'', ePort = 443, eScheme = []\<rparr>"
    by (simp add: EndpointFor_def advertised_ends config_manager_def enabled_config_def zero_config_def
        http_service_def empty_service_def)
  with register_then_read [OF svc entry_of_reflects] svc show ?thesis
    by (simp add: http_service_def empty_service_def int64_range_def config_manager_def enabled_config_def
        zero_config_def)
qed

text \<open>
  The health check of a registration reaches the instance: a TTL check is registered with a
  TTL of at least 15s; an HTTP check targets the internal endpoint when one is advertised, the
  external one otherwise, with a default scheme and a path that starts with a slash.
\<close>

lemma health_check_target:
  assumes "fst (prepareRegister s m) = Inr svc" and "sHealthCheck s = Some hc"
  shows "\<exists>hc'. sHealthCheck svc = Some hc'
     \<and> (if hcTTL hc \<noteq> []
        then \<exists>d. parse_duration (hcTTL hc') = Some d \<and> 15 * second \<le> d
        else \<exists>ep p. hcHTTP hc' = (if eScheme ep = [] then ''http'' else eScheme ep) @ ''://'' @ eAddress ep
               @ '':'' @ itoa (ePort ep) @ ''/'' @ p
             \<and> Some ep = (if AdvertiseInternalAddr (mConfig m) \<noteq> []
                          then sInternal (advertised (mConfig m) s)
                          else sExternal (advertised (mConfig m) s)))"
proof -
  let ?a = "advertised (mConfig m) s" and ?t = "tagWorkload (mWorkload m) (advertised (mConfig m) s)"
  obtain some: "sExternal ?a \<noteq> None \<or> sInternal ?a \<noteq> None" and app: "fst (applyHealthCheck ?t m) = Inr svc"
    using prepared_shape [OF assms(1)] by blast
  have t: "sHealthCheck ?t = Some hc" "sExternal ?t = sExternal ?a" "sInternal ?t = sInternal ?a"
    using assms(2) by (simp_all add: tagWorkload_def advertised_frame)
  show ?thesis
  proof (cases "hcTTL hc = []")
    case False
    obtain ttl where ttl: "ttlWithDefaults (hcTTL hc) = Inr ttl" "sHealthCheck svc = Some (hc\<lparr>hcTTL := ttl\<rparr>)"
      using app False by (auto simp: applyHealthCheck_def t split: sum.splits)
    obtain d where "parse_duration ttl = Some d" "15 * second \<le> d"
      using ttl_parses [OF ttl(1)] by blast
    with ttl False show ?thesis by auto
  next
    case True
    define ep where "ep = (case sInternal ?a of Some i \<Rightarrow> i | None \<Rightarrow> the (sExternal ?a))"
    have ep: "EndpointFor ?t View_Internal = Inr ep"
      using some by (auto simp: EndpointFor_def t ep_def split: option.splits)
    have url: "\<exists>p. healthCheckURL sc a port path = (if sc = [] then ''http'' else sc) @ ''://'' @ a
        @ '':'' @ itoa port @ ''/'' @ p" for sc a port path
      by (cases path) (auto simp: healthCheckURL_def Let_def has_prefix_def)
    let ?hc = "hc\<lparr>hcHTTP := healthCheckURL (eScheme ep) (eAddress ep) (ePort ep) (hcPath hc)\<rparr>"
    have set_hc: "sHealthCheck svc = Some ?hc" using app True ep by (auto simp: applyHealthCheck_def t)
    have sel: "Some ep = (if AdvertiseInternalAddr (mConfig m) \<noteq> [] then sInternal ?a else sExternal ?a)"
      using some by (auto simp: ep_def advertised_ends)
    obtain p where p: "healthCheckURL (eScheme ep) (eAddress ep) (ePort ep) (hcPath hc)
        = (if eScheme ep = [] then ''http'' else eScheme ep) @ ''://'' @ eAddress ep @ '':''
          @ itoa (ePort ep) @ ''/'' @ p" using url by blast
    have "hcHTTP ?hc = healthCheckURL (eScheme ep) (eAddress ep) (ePort ep) (hcPath hc)" by simp
    also note p
    finally have "hcHTTP ?hc = (if eScheme ep = [] then ''http'' else eScheme ep) @ ''://'' @ eAddress ep
        @ '':'' @ itoa (ePort ep) @ ''/'' @ p" .
    with set_hc sel show ?thesis
      unfolding True by (intro exI [of _ ?hc] conjI) (simp_all only: simp_thms if_False, blast)
  qed
qed

section \<open>Retrying\<close>

lemma register_loop_sleeps:
  "register_loop ops c svc (int n) as m = (o1, ds, m') \<Longrightarrow>
     ds = map (\<lambda>i. backoffDuration (int (n + i))) [0..<length ds] \<and> length ds \<le> length as"
proof (induction as arbitrary: n m o1 ds m')
  case (Cons a as)
  let ?m = "atEnv a m"
  obtain e mo where reg: "Manager_Register ops c svc (Some ?m) = (e, mo)" by fastforce
  show ?case
  proof (cases "mBaseDone ?m \<or> e = None \<or> is_panic (the e) \<or> \<not> atSlept a")
    case True
    then have "ds = [] \<or> ds = [backoffDuration (int n)]"
      using Cons.prems reg by (auto simp: Let_def split: if_splits option.splits)
    then show ?thesis by auto
  next
    case False
    then obtain err where err: "e = Some err" by (cases e) auto
    obtain m1 ds1 where rest: "register_loop ops c svc (int (Suc n)) as m1 = (o1, ds1, m')"
      and ds: "ds = backoffDuration (int n) # ds1"
      using Cons.prems reg False err
      by (auto simp: Let_def add.commute split: prod.splits option.splits if_splits)
    have "ds1 = map (\<lambda>i. backoffDuration (int (Suc n + i))) [0..<length ds1] \<and> length ds1 \<le> length as"
      by (rule Cons.IH [OF rest])
    then show ?thesis by (simp add: ds map_upt_Suc ac_simps del: upt_Suc)
  qed
qed simp

lemma register_loop_success:
  "register_loop ops c svc n as m = (Registered, ds, m') \<Longrightarrow>
     \<exists>a b. Manager_Register ops c svc (Some a) = (None, b)"
proof (induction as arbitrary: n m ds)
  case (Cons x as)
  then show ?case by (auto simp: Let_def split: if_splits prod.splits option.splits)
qed simp

lemma register_loop_stops:
  assumes "k < length as" "\<And>q. mBaseDone (atEnv (as ! k) q)"
    and "register_loop ops c svc n as m = (o1, ds, m')"
  shows "length ds \<le> k \<and> o1 \<noteq> Retrying"
  using assms
proof (induction as arbitrary: k n m o1 ds)
  case (Cons x as)
  show ?case
  proof (cases k)
    case 0
    with Cons.prems show ?thesis by simp
  next
    case (Suc j)
    obtain e mo where reg: "Manager_Register ops c svc (Some (atEnv x m)) = (e, mo)" by fastforce
    show ?thesis
    proof (cases "mBaseDone (atEnv x m) \<or> e = None \<or> is_panic (the e) \<or> \<not> atSlept x")
      case True
      then show ?thesis
        using Cons.prems(3) reg Suc by (auto simp: Let_def split: if_splits option.splits)
    next
      case False
      then obtain err where err: "e = Some err" by (cases e) auto
      obtain m1 ds1 where rest: "register_loop ops c svc (n + 1) as m1 = (o1, ds1, m')"
        and ds: "length ds = Suc (length ds1)"
        using Cons.prems(3) reg False err by (auto simp: Let_def split: prod.splits if_splits)
      have "length ds1 \<le> j \<and> o1 \<noteq> Retrying"
        by (rule Cons.IH [OF _ _ rest]) (use Cons.prems(1,2) Suc in simp_all)
      with ds Suc show ?thesis by simp
    qed
  qed
qed simp

text \<open>
  RegisterAsync is paced and stops: whatever the attempts meet, its sleeps are the backoff
  sequence 100ms, 200ms, ... capped at 30s; it reports success only after an attempt in which
  Register succeeded; and once the manager's base context is done (Close) at some attempt, it makes
  no attempt from there on.
\<close>

lemma register_async_paced:
  assumes "RegisterAsync ops c svc as (Some m) = (o1, ds, mo)"
  shows "ds = map (\<lambda>i. if i < 9 then 100 * millisecond * 2 ^ i else 30 * second) [0..<length ds]
     \<and> (o1 = Registered \<longrightarrow> (\<exists>a b. Manager_Register ops c svc (Some a) = (None, b)))
     \<and> (\<forall>k < length as. (\<forall>q. mBaseDone (atEnv (as ! k) q)) \<longrightarrow> length ds \<le> k \<and> o1 \<noteq> Retrying)"
proof (cases "Enabled (mConfig m)")
  case True
  obtain m' where l: "register_loop ops c svc (int 0) as m = (o1, ds, m')"
    using assms True by (auto simp: RegisterAsync_def split: prod.splits)
  have b: "backoffDuration (int i) = (if i < 9 then 100 * millisecond * 2 ^ i else 30 * second)" for i
    by (simp add: backoff_small backoff_large watch_constants)
  have "ds = map (\<lambda>i. backoffDuration (int (0 + i))) [0..<length ds]"
    using register_loop_sleeps [OF l] by blast
  then have "ds = map (\<lambda>i. if i < 9 then 100 * millisecond * 2 ^ i else 30 * second) [0..<length ds]"
    unfolding b add_0 .
  with register_loop_success register_loop_stops l show ?thesis by blast
next
  case False
  with assms show ?thesis by (auto simp: RegisterAsync_def)
qed

section \<open>Construction\<close>

text \<open>The exported options.\<close>

datatype 'r exported_option = OLogger logger | ORegistry "'r option" | OWorkload string

fun option_of :: "'r exported_option \<Rightarrow> 'r manager_option" where
  "option_of (OLogger l) = WithLogger l"
| "option_of (ORegistry r) = WithRegistry r"
| "option_of (OWorkload w) = WithWorkload w"

lemma option_core: "mgr_core (option_of opt m) = mgr_core m" "mConfig (option_of opt m) = mConfig m"
  by (cases opt; simp add: WithLogger_def WithRegistry_def WithWorkload_def mgr_core_def split: option.splits)+

lemma options_core:
  "mgr_core (apply_options (map (map_option option_of) os) m) = mgr_core m
   \<and> mConfig (apply_options (map (map_option option_of) os) m) = mConfig m"
proof (induction os arbitrary: m)
  case (Cons x os)
  then show ?case by (cases x) (simp_all add: option_core)
qed simp

lemma New_general:
  assumes "New mk cfg (map (map_option option_of) os) = Inr m"
  shows "mgr_inv m \<and> mConfig m = withDefaults cfg \<and> (Enabled cfg \<longrightarrow> mRegistry m \<noteq> None)"
proof -
  define m0 :: "'a manager" where "m0 = \<lparr>mConfig = withDefaults cfg, mRegistry = None,
      mLogger = toObsLogger (cfgLogger (withDefaults cfg)), mWorkload = Workload (withDefaults cfg),
      mSeedTimeout = SeedTimeout (withDefaults cfg), mPreferView = PreferView (withDefaults cfg),
      mResolvers = [], mClosed = False, mBaseDone = False, mCtxs = [], mLoops = [], mCloseErr = None,
      mTrace = []\<rparr>"
  let ?m = "apply_options (map (map_option option_of) os) m0"
  have "mgr_inv m0" by (simp add: mgr_inv_def watch_inv_def m0_def)
  then have "mgr_inv ?m" "mConfig ?m = withDefaults cfg"
    using options_core [of os m0] core_inv(2) by (metis, simp add: m0_def)
  moreover have "mgr_core m = mgr_core ?m \<and> mConfig m = mConfig ?m \<and> (Enabled cfg \<longrightarrow> mRegistry m \<noteq> None)"
    using assms unfolding New_def Let_def withDefaults_valid m0_def [symmetric]
    by (auto simp: m_log_def mgr_core_def split: if_splits option.splits sum.splits)
  ultimately show ?thesis using core_inv(2) by metis
qed

lemma keeps_registry:
  assumes "mgr_inv m" "mRegistry m \<noteq> None"
  shows "mRegistry (fold (mgr_after ops) xs m) \<noteq> None"
  using assms
proof (induction xs arbitrary: m)
  case (Cons x xs)
  have "mRegistry (mgr_after ops x m) \<noteq> None"
  proof (cases "x = OpClose")
    case True
    with Cons.prems show ?thesis by (cases rule: close_shape [OF Cons.prems(1), of ops]) auto
  next
    case False
    from step_registry [OF Cons.prems(1) False, of ops] Cons.prems(2) show ?thesis
      by (auto simp: reg_path_def)
  qed
  then show ?case using Cons.IH [OF step_inv [OF Cons.prems(1)]] by simp
qed simp

text \<open>
  C30. No method of an enabled manager meets a nil registry: whatever exported options it was built
  with (nil ones included), an enabled manager has a backend, and keeps one through any sequence of
  calls and events. Construction itself fails only when the default backend cannot be built, with
  that error wrapped; an empty Consul address cannot make it fail, it is defaulted first.
\<close>

theorem enabled_manager_has_backend:
  "(\<forall>m. New mk cfg (map (map_option option_of) os) = Inr m \<and> Enabled cfg \<longrightarrow>
      (\<forall>xs. mRegistry (fold (mgr_after ops) xs m) \<noteq> None))
   \<and> (\<forall>e. New mk cfg (map (map_option option_of) os) = Inl e \<longrightarrow>
      (\<exists>e'. mk (withDefaults cfg) = Inl e' \<and> e = Errorf ''lib-service-discovery: %w'' e' []))"
proof (intro conjI allI impI)
  fix m xs assume "New mk cfg (map (map_option option_of) os) = Inr m \<and> Enabled cfg"
  then show "mRegistry (fold (mgr_after ops) xs m) \<noteq> None"
    using New_general keeps_registry by blast
next
  fix e assume "New mk cfg (map (map_option option_of) os) = Inl e"
  then show "\<exists>e'. mk (withDefaults cfg) = Inl e' \<and> e = Errorf ''lib-service-discovery: %w'' e' []"
    unfolding New_def Let_def withDefaults_valid
    by (auto split: if_splits option.splits sum.splits)
qed

theorem enabled_manager_has_backend_witness:
  "mRegistry (fold (mgr_after (stub_ops ttl_service)) [OpClose, OpResolve Background ''a'' []] stub_manager) \<noteq> None"
proof -
  have "New (\<lambda>_. Inr 0) enabled_config (map (map_option option_of)
      [Some (OLogger NilInterface), Some (OWorkload ''w'')]) = Inr stub_manager"
    using stub_New by simp
  moreover have "Enabled enabled_config" by (simp add: enabled_config_def)
  ultimately show ?thesis using enabled_manager_has_backend by blast
qed

end
