(* ===== verification/DynamicResolution.thy ===== *)
theory DynamicResolution
  imports ManagerCalls
begin

text \<open>
  What a dynamic resolver serves: its fail-open seed, for an address and for a service, and the
  value after any run of watch events as a fold over the backend's answers.
\<close>

section \<open>The value after a run of updates\<close>

text \<open>The abstract step: a hit mapped through the view, a fallback on an error, else (a panic too) the old value.\<close>

fun dyn_absorb ::
    "endpoint_view \<Rightarrow> string \<times> string \<Rightarrow> go_error + service \<Rightarrow> (string \<times> string) option
       \<Rightarrow> (string \<times> string) option" where
  "dyn_absorb view fb (Inr svc) v =
     (case EndpointFor svc view of Inr ep \<Rightarrow> Some (Endpoint_Addr ep, eScheme ep) | Inl _ \<Rightarrow> v)"
| "dyn_absorb view fb (Inl e) v = (if fst fb \<noteq> [] \<and> \<not> is_panic e then Some fb else v)"

lemma resolver_update_step:
  assumes "opResolve ops c n t r = (res, r')"
  shows "fst (resolver_update ops c n t (dr, r))
     = (dr\<lparr>drSnapshot := dyn_absorb (drView dr) (drFallback dr, drFallbackScheme dr) res (drSnapshot dr)\<rparr>, r')"
  using assms
  by (cases res) (auto simp: resolver_update_def dr_store_def split: sum.splits)

lemma run_updates_fold:
  "fst (runResolverUpdates ops c n t sels (dr, r)) =
     (case answers ops c n t (received sels) r of (rs, r') \<Rightarrow>
        (dr\<lparr>drSnapshot := fold (dyn_absorb (drView dr) (drFallback dr, drFallbackScheme dr)) rs
              (drSnapshot dr)\<rparr>, r'))"
proof (induction sels arbitrary: dr r)
  case (Cons sel sels)
  show ?case
  proof (cases sel)
    case (Received ev)
    obtain res r' where res: "opResolve ops c n t r = (res, r')" by fastforce
    let ?dr = "dr\<lparr>drSnapshot := dyn_absorb (drView dr) (drFallback dr, drFallbackScheme dr) res (drSnapshot dr)\<rparr>"
    obtain l where "resolver_update ops c n t (dr, r) = ((?dr, r'), l)"
      using resolver_update_step [OF res, of dr] by (metis prod.collapse)
    moreover have "panics res \<Longrightarrow> ?dr = dr" by (cases res) simp_all
    ultimately show ?thesis using Received res Cons.IH [of ?dr r'] by (auto split: prod.splits)
  qed simp_all
qed simp

text \<open>
  C26. The value of a dynamic resolver after any run of watch events is the fold of the backend's
  answers over its seed: a hit is served through the resolver's view, an error switches to the
  fallback when there is one, everything else keeps the last value. So what it serves is always its
  seed, its fallback, or an endpoint the backend answered under that view.
\<close>

theorem dynamic_updates_fold:
  assumes "answers ops c n t (received sels) r = (rs, r')"
    and "fst (runResolverUpdates ops c n t sels (dr, r)) = (dr', q)"
  shows "drSnapshot dr' = fold (dyn_absorb (drView dr) (drFallback dr, drFallbackScheme dr)) rs (drSnapshot dr)
     \<and> q = r'
     \<and> (drSnapshot dr' = drSnapshot dr
        \<or> (drFallback dr \<noteq> [] \<and> drSnapshot dr' = Some (drFallback dr, drFallbackScheme dr))
        \<or> (\<exists>svc ep. Inr svc \<in> set rs \<and> EndpointFor svc (drView dr) = Inr ep
             \<and> drSnapshot dr' = Some (Endpoint_Addr ep, eScheme ep)))"
proof -
  let ?f = "dyn_absorb (drView dr) (drFallback dr, drFallbackScheme dr)"
  have served: "fold ?f rs v = v
      \<or> (drFallback dr \<noteq> [] \<and> fold ?f rs v = Some (drFallback dr, drFallbackScheme dr))
      \<or> (\<exists>svc ep. Inr svc \<in> set rs \<and> EndpointFor svc (drView dr) = Inr ep
           \<and> fold ?f rs v = Some (Endpoint_Addr ep, eScheme ep))" for v
  proof (induction rs arbitrary: v)
    case (Cons x rs)
    have "?f x v = v \<or> (drFallback dr \<noteq> [] \<and> ?f x v = Some (drFallback dr, drFallbackScheme dr))
        \<or> (\<exists>svc ep. x = Inr svc \<and> EndpointFor svc (drView dr) = Inr ep
             \<and> ?f x v = Some (Endpoint_Addr ep, eScheme ep))"
      by (cases x) (auto split: sum.splits)
    with Cons.IH [of "?f x v"] show ?case by auto
  qed simp
  have "dr' = dr\<lparr>drSnapshot := fold ?f rs (drSnapshot dr)\<rparr>" "q = r'"
    using run_updates_fold [of ops c n t sels dr r] assms by simp_all
  with served [of "drSnapshot dr"] show ?thesis by simp
qed

theorem dynamic_updates_fold_witness:
  "\<exists>dr' q. fst (runResolverUpdates (stub_ops dual_service) Background ''a'' []
       [Received \<lparr>evType = EventRegistered, evService = dual_service\<rparr>, ChanClosed]
       (dr_store ''seed:1'' [] ((new_dynamic ''fb:1'' [])\<lparr>drView := View_Internal\<rparr>), 0)) = (dr', q)
     \<and> drSnapshot dr' = Some (''a.svc:8080'', ''http'')"
proof -
  let ?dr = "dr_store ''seed:1'' [] ((new_dynamic ''fb:1'' [])\<lparr>drView := View_Internal\<rparr>)"
  let ?sels = "[Received \<lparr>evType = EventRegistered, evService = dual_service\<rparr>, ChanClosed]"
  obtain dr' q where r: "fst (runResolverUpdates (stub_ops dual_service) Background ''a'' [] ?sels (?dr, 0)) = (dr', q)"
    by fastforce
  have a: "answers (stub_ops dual_service) Background ''a'' [] (received ?sels) 0 = ([Inr dual_service], 1)"
    by (simp add: stub_ops_def numeral_eq_Suc)
  have "Endpoint_Addr \<lparr>eAddress = ''a.svc'', ePort = 8080, eScheme = ''http''\<rparr> = ''a.svc:8080''" by code_simp
  with dynamic_updates_fold [OF a r] r show ?thesis
    by (simp add: dr_store_def new_dynamic_def EndpointFor_def dual_service_def)
qed

section \<open>Fail-open seeding\<close>

text \<open>The resolver the options make, before its seed.\<close>

definition configured :: "'r manager \<Rightarrow> resolver_option option list \<Rightarrow> dynamic_resolver \<Rightarrow> dynamic_resolver" where
  "configured m opts dr = default_view m (apply_resolver_options opts dr)"

definition views :: "endpoint_view list \<Rightarrow> resolver_option option list" where
  "views vs = map (Some \<circ> WithView) vs"

lemma views_apply:
  "apply_resolver_options (views vs) dr = dr\<lparr>drView := (if vs = [] then drView dr else last vs)\<rparr>"
proof (induction vs arbitrary: dr)
  case Nil
  then show ?case by (simp add: views_def)
next
  case (Cons v vs)
  then show ?case by (simp add: views_def WithView_def)
qed

text \<open>What the seed stores for an answer of the backend.\<close>

definition seed_addr :: "endpoint_view \<Rightarrow> string \<Rightarrow> go_error + service \<Rightarrow> string" where
  "seed_addr view fb res =
     (case res of
        Inl _ \<Rightarrow> fb
      | Inr svc \<Rightarrow> (case EndpointFor svc view of Inl _ \<Rightarrow> fb | Inr ep \<Rightarrow> Endpoint_Addr ep))"

lemma direct_seed:
  assumes "Enabled (mConfig m)" "call_resolve ops c n (workloadTag m) m = (res, m1)"
  shows "(case fst (resolveEndpointDirect ops c n v f m) of Inl _ \<Rightarrow> f | Inr a \<Rightarrow> a) = seed_addr v f res"
    "mRegistry (snd (resolveEndpointDirect ops c n v f m)) = mRegistry m1"
    "mConfig (snd (resolveEndpointDirect ops c n v f m)) = mConfig m1"
  using assms
  by (auto simp: resolveEndpointDirect_def seed_addr_def log_fallback_def m_log_def log_degraded_def
      split: sum.splits)

lemma direct_service_seed:
  assumes "Enabled (mConfig m)" "call_resolve ops c n (workloadTag m) m = (res, m1)"
    and "sAddress fs = [] \<Longrightarrow> drFallback dr = [] \<and> drFallbackScheme dr = []"
  shows "(case fst (seedServiceEndpoint ops c n dr fs m) of
        Inl _ \<Rightarrow> (drFallback dr, drFallbackScheme dr) | Inr p \<Rightarrow> p)
      = (case res of
           Inl _ \<Rightarrow> (drFallback dr, drFallbackScheme dr)
         | Inr svc \<Rightarrow> (case EndpointFor svc (drView dr) of
                         Inl _ \<Rightarrow> (drFallback dr, drFallbackScheme dr)
                       | Inr ep \<Rightarrow> (Endpoint_Addr ep, eScheme ep)))"
    "mRegistry (snd (seedServiceEndpoint ops c n dr fs m)) = mRegistry m1"
    "mConfig (snd (seedServiceEndpoint ops c n dr fs m)) = mConfig m1"
  using assms
  by (auto simp: seedServiceEndpoint_def Let_def log_fallback_def m_log_def log_degraded_def
      split: sum.splits)

lemma watch_start:
  assumes "Enabled (mConfig m)" "mRegistry m = Some r" "opWatch ops c n r = ((ch, err), r2)"
  shows "fst (startResolverWatch ops c dr n m)
     = (case err of Some e \<Rightarrow> Inl e | None \<Rightarrow> Inr (dr\<lparr>drCancel := Some False\<rparr>))"
  using assms by (simp add: startResolverWatch_def Let_def call_watch_def split: option.splits)

lemma log_keeps [simp]:
  "mRegistry (m_log l t is m) = mRegistry m" "mConfig (m_log l t is m) = mConfig m"
  "mRegistry (log_seed_degraded n d e m) = mRegistry m" "mConfig (log_seed_degraded n d e m) = mConfig m"
  by (simp_all add: m_log_def log_seed_degraded_def)

text \<open>
  C25. WatchResolve fails open: with discovery enabled, whatever the seed resolution answers, the
  call fails only when the watch itself cannot be opened; otherwise it returns a resolver under the
  last given view (or the configured one), seeded with the endpoint found under that view, else with
  the fallback, even an empty one. The seed runs under the seed timeout, the watch under the
  caller's own context.
\<close>

theorem watch_resolve_fails_open:
  assumes "Enabled (mConfig m)" and "mRegistry m = Some r"
    and "opResolve ops (WithTimeout c (mSeedTimeout m)) n (workloadTag m) r = (res, r1)"
    and "opWatch ops c n r1 = ((ch, err), r2)"
    and "v = (if vs = [] \<or> last vs = [] then mPreferView m else last vs)"
  shows "fst (WatchResolve ops c n f (views vs) (Some m))
     = (case err of
          Some e \<Rightarrow> Inl e
        | None \<Rightarrow> Inr \<lparr>drFallback = f, drFallbackScheme = [], drView = v,
                      drSnapshot = Some (seed_addr v f res, []), drCancel = Some False\<rparr>)"
proof -
  define dr where "dr = default_view m (apply_resolver_options (views vs) (new_dynamic f []))"
  have dr: "dr = \<lparr>drFallback = f, drFallbackScheme = [], drView = v, drSnapshot = None, drCancel = None\<rparr>"
    using assms(5) by (auto simp: dr_def default_view_def views_apply new_dynamic_def)
  obtain m1 where cr: "call_resolve ops (WithTimeout c (mSeedTimeout m)) n (workloadTag m) m = (res, m1)"
    and m1: "mRegistry m1 = Some r1" "mConfig m1 = mConfig m"
    using assms(2,3) by (simp add: call_resolve_def)
  obtain seed m2 where d: "resolveEndpointDirect ops (WithTimeout c (mSeedTimeout m)) n v f m = (seed, m2)"
    by fastforce
  note ds = direct_seed [OF assms(1) cr, where v = v and f = f, unfolded d fst_conv snd_conv]
  have m2: "mRegistry m2 = Some r1" "Enabled (mConfig m2)" using ds(2,3) m1 assms(1) by simp_all
  have "fst (WatchResolve ops c n f (views vs) (Some m))
      = fst (startResolverWatch ops c (dr_store (case seed of Inl _ \<Rightarrow> f | Inr a \<Rightarrow> a) [] dr) n
          (case seed of Inl e \<Rightarrow> m_log LevelWarn ''dynamic resolver seed degraded; starting watch anyway''
              [LString ''service'' n, LString ''view'' v, LString ''fallback'' f, LErr e] m2
           | Inr _ \<Rightarrow> m2))"
    using assms(1) d dr
    by (cases seed) (simp_all add: WatchResolve_def Let_def dr_def [symmetric] case_prod_unfold)
  also have "\<dots> = (case err of Some e \<Rightarrow> Inl e
      | None \<Rightarrow> Inr ((dr_store (case seed of Inl _ \<Rightarrow> f | Inr a \<Rightarrow> a) [] dr)\<lparr>drCancel := Some False\<rparr>))"
    by (rule watch_start [OF _ _ assms(4)]) (use m2 in \<open>auto split: sum.splits\<close>)
  finally show ?thesis unfolding ds(1) by (cases err) (simp_all add: dr_store_def dr)
qed

theorem watch_resolve_fails_open_witness:
  "\<exists>dr. fst (WatchResolve (stub_ops dual_service) Background ''a'' [] (views [View_Internal]) (Some stub_manager))
       = Inr dr \<and> Address (Some dr) = ''a.svc:8080''"
proof -
  have "Endpoint_Addr \<lparr>eAddress = ''a.svc'', ePort = 8080, eScheme = ''http''\<rparr> = ''a.svc:8080''" by code_simp
  then show ?thesis
    using watch_resolve_fails_open [of stub_manager 0 "stub_ops dual_service" Background "''a''"
        "Inr dual_service" 1 LiveChan None 2 View_Internal "[View_Internal]" "[]"]
    by (simp add: stub_ops_def seed_addr_def EndpointFor_def dual_service_def Address_def)
qed

text \<open>
  WatchResolveService fails open in the same way, and keeps address and scheme together: the
  resolver it returns is seeded with the endpoint found under its view and that endpoint's scheme,
  else with the fallback service's address and scheme.
\<close>

lemma watch_resolve_service_fails_open:
  assumes "Enabled (mConfig m)" and "mRegistry m = Some r"
    and "opResolve ops (WithTimeout c (mSeedTimeout m)) n (workloadTag m) r = (res, r1)"
    and "opWatch ops c n r1 = ((ch, err), r2)"
    and "v = (if vs = [] \<or> last vs = [] then mPreferView m else last vs)"
    and "(fb, fbs) = (if sAddress fs = [] then ([], []) else (Service_Addr fs, sScheme fs))"
  shows "fst (WatchResolveService ops c n fs (views vs) (Some m))
     = (case err of
          Some e \<Rightarrow> Inl e
        | None \<Rightarrow> Inr \<lparr>drFallback = fb, drFallbackScheme = fbs, drView = v,
            drSnapshot = Some (case res of
                Inl _ \<Rightarrow> (fb, fbs)
              | Inr svc \<Rightarrow> (case EndpointFor svc v of
                             Inl _ \<Rightarrow> (fb, fbs) | Inr ep \<Rightarrow> (Endpoint_Addr ep, eScheme ep))),
            drCancel = Some False\<rparr>)"
proof -
  define dr where "dr = default_view m (apply_resolver_options (views vs)
      (if sAddress fs \<noteq> [] then new_dynamic (Service_Addr fs) (sScheme fs) else new_dynamic [] []))"
  have dr: "dr = \<lparr>drFallback = fb, drFallbackScheme = fbs, drView = v, drSnapshot = None, drCancel = None\<rparr>"
    using assms(5,6) by (auto simp: dr_def default_view_def views_apply new_dynamic_def split: if_splits)
  obtain m1 where cr: "call_resolve ops (WithTimeout c (mSeedTimeout m)) n (workloadTag m) m = (res, m1)"
    and m1: "mRegistry m1 = Some r1" "mConfig m1 = mConfig m"
    using assms(2,3) by (simp add: call_resolve_def)
  obtain seed m2 where d: "seedServiceEndpoint ops (WithTimeout c (mSeedTimeout m)) n dr fs m = (seed, m2)"
    by fastforce
  have dd: "drFallback dr = fb" "drFallbackScheme dr = fbs" "drView dr = v" by (simp_all add: dr)
  have "sAddress fs = [] \<Longrightarrow> drFallback dr = [] \<and> drFallbackScheme dr = []" using assms(6) by (simp add: dr)
  note ds = direct_service_seed [OF assms(1) cr this, where fs = fs, unfolded d fst_conv snd_conv]
  have m2: "mRegistry m2 = Some r1" "Enabled (mConfig m2)" using ds(2,3) m1 assms(1) by simp_all
  let ?p = "case seed of Inl _ \<Rightarrow> (drFallback dr, drFallbackScheme dr) | Inr p \<Rightarrow> p"
  have "fst (WatchResolveService ops c n fs (views vs) (Some m))
      = fst (startResolverWatch ops c (dr_store (fst ?p) (snd ?p) dr) n
          (case seed of Inl e \<Rightarrow> log_seed_degraded n dr e m2 | Inr _ \<Rightarrow> m2))"
    using assms(1) d
    by (cases seed) (simp_all add: WatchResolveService_def Let_def dr_def [symmetric] case_prod_unfold)
  also have "\<dots> = (case err of Some e \<Rightarrow> Inl e
      | None \<Rightarrow> Inr ((dr_store (fst ?p) (snd ?p) dr)\<lparr>drCancel := Some False\<rparr>))"
    by (rule watch_start [OF _ _ assms(4)]) (use m2 in \<open>auto split: sum.splits\<close>)
  also have "?p = (case res of
      Inl _ \<Rightarrow> (fb, fbs)
    | Inr svc \<Rightarrow> (case EndpointFor svc v of Inl _ \<Rightarrow> (fb, fbs) | Inr ep \<Rightarrow> (Endpoint_Addr ep, eScheme ep)))"
    using ds(1) unfolding dd .
  finally show ?thesis by (cases err) (simp_all add: dr_store_def dr)
qed

lemma WatchResolve_snapshot:
  "fst (WatchResolve ops c n f opts (Some m)) = Inr dr \<Longrightarrow> \<exists>a. drSnapshot dr = Some (a, [])"
  by (auto simp: WatchResolve_def Let_def startResolverWatch_def dr_store_def
      split: if_splits prod.splits sum.splits option.splits)

text \<open>
  A resolver of WatchResolve reports no scheme only until its first hit: it is created with the
  empty scheme, and the first event whose resolution finds an endpoint gives it that endpoint's
  scheme (the comments on Scheme and WatchResolve promise it stays empty).
\<close>

lemma watch_resolve_scheme_appears:
  assumes "fst (WatchResolve ops c n f opts (Some m)) = Inr dr"
    and "opResolve ops c' n t r = (Inr svc, r')" and "EndpointFor svc (drView dr) = Inr ep"
  shows "Scheme (Some dr) = []
     \<and> Scheme (Some (fst (fst (runResolverUpdates ops c' n t [Received ev] (dr, r))))) = eScheme ep"
  using WatchResolve_snapshot [OF assms(1)] assms(2,3)
  by (auto simp: Scheme_def resolver_update_def dr_store_def split: prod.splits)

end
