(* ===== verification/Reachability.thy ===== *)
theory Reachability
  imports Prelude
begin

text \<open>
  Interleavings of atomic steps, for the theories of the concurrent parts: the states a step relation
  reaches, and three contracts a relation can have. In a \<open>step_system\<close> every step keeps a predicate, so
  every reachable state has it. In a \<open>measured_system\<close> some step always brings the work left down, so
  from any state of the system one without work is reachable. In a \<open>ranked_system\<close> every step goes down in a
  well-founded order, so no schedule goes on for ever.
\<close>

inductive reach :: "('s \<Rightarrow> 's \<Rightarrow> bool) \<Rightarrow> 's \<Rightarrow> 's \<Rightarrow> bool" for step where
  refl: "reach step s s"
| step: "reach step s t \<Longrightarrow> step t u \<Longrightarrow> reach step s u"

lemma reach_trans: "reach step s t \<Longrightarrow> reach step t u \<Longrightarrow> reach step s u"
  by (rotate_tac 1, induction rule: reach.induct) (auto intro: reach.intros)

lemma reach_first: "step s t \<Longrightarrow> reach step t u \<Longrightarrow> reach step s u"
  using reach_trans [OF reach.step [OF reach.refl]] .

lemma reach_weaken: "reach step s t \<Longrightarrow> (\<And>x y. step x y \<Longrightarrow> step' x y) \<Longrightarrow> reach step' s t"
  by (induction rule: reach.induct) (auto intro: reach.intros)

locale step_system =
  fixes step :: "'s \<Rightarrow> 's \<Rightarrow> bool" and inv :: "'s \<Rightarrow> bool"
  assumes step_inv: "step s t \<Longrightarrow> inv s \<Longrightarrow> inv t"
begin

lemma reach_inv: "reach step s t \<Longrightarrow> inv s \<Longrightarrow> inv t"
  by (induction rule: reach.induct) (auto intro: step_inv)

end

locale measured_system = step_system step inv for step :: "'s \<Rightarrow> 's \<Rightarrow> bool" and inv +
  fixes work :: "'s \<Rightarrow> nat"
  assumes progress: "inv s \<Longrightarrow> work s \<noteq> 0 \<Longrightarrow> \<exists>t. step s t \<and> work t < work s"
begin

lemma finishes: "inv s \<Longrightarrow> \<exists>t. reach step s t \<and> work t = 0"
proof (induction "work s" arbitrary: s rule: less_induct)
  case less
  show ?case
  proof (cases "work s = 0")
    case True
    then show ?thesis by (intro exI [of _ s] conjI reach.refl)
  next
    case False
    then obtain v where v: "step s v" "work v < work s" using progress [OF less.prems] by blast
    have "inv v" using step_inv [OF v(1) less.prems] .
    from less.hyps [OF v(2) this] obtain t where t: "reach step v t" "work t = 0" by blast
    have "reach step s t" by (rule reach_first [of step, OF v(1) t(1)])
    with t(2) show ?thesis by blast
  qed
qed

end

locale ranked_system = step_system step inv for step :: "'s \<Rightarrow> 's \<Rightarrow> bool" and inv +
  fixes rank :: "'s \<Rightarrow> 'a" and less :: "('a \<times> 'a) set"
  assumes wf_less: "wf less" and descends: "step s t \<Longrightarrow> inv s \<Longrightarrow> (rank t, rank s) \<in> less"
begin

lemma run_ends:
  assumes "inv (f 0)" shows "\<exists>i. \<not> step (f i) (f (Suc i))"
proof (rule ccontr)
  assume "\<nexists>i. \<not> step (f i) (f (Suc i))"
  then have run: "step (f i) (f (Suc i))" for i by blast
  have "inv (f i)" for i by (induction i) (use assms step_inv [OF run] in auto)
  then have "(rank (f (Suc i)), rank (f i)) \<in> less" for i using descends [OF run] by blast
  then have "\<exists>g. \<forall>i. (g (Suc i), g i) \<in> less" by (intro exI [of _ "\<lambda>i. rank (f i)"]) blast
  then show False using wf_less unfolding wf_iff_no_infinite_down_chain by blast
qed

end

end
