(* ===== verification/HeartbeatConcurrency.thy ===== *)
theory HeartbeatConcurrency
  imports ConsulHeartbeats Reachability
begin

text \<open>
  The interleavings of \<open>startHeartbeat\<close> with Close, Deregister, the heartbeat tickers and other
  registrations. A registration is a thread that goes through the closed test (one lock section),
  the first pass (no lock) and the storing section (a second lock section); between any two of its
  steps the other threads may run. The step relation has one rule per step.
\<close>

section \<open>Threads and steps\<close>

datatype hb_pc =
    AtCheck registration string
  | AtPass nat registration duration
  | AtCommit nat registration duration
  | HbDone

record 'c hb_sys =
  hsReg :: "'c consul_registry"
  hsThreads :: "hb_pc list"

fun pending_ctx :: "hb_pc \<Rightarrow> nat list" where
  "pending_ctx (AtPass i reg iv) = [i]"
| "pending_ctx (AtCommit i reg iv) = [i]"
| "pending_ctx pc = []"

definition pending :: "'c hb_sys \<Rightarrow> nat list" where
  "pending s = concat (map pending_ctx (hsThreads s))"

text \<open>
  A heartbeat loop whose context is done may still take its ticker, when both are ready in the \<open>select\<close>; that
  pass runs under the cancelled context.
\<close>

inductive hb_step :: "'c consul_api \<Rightarrow> 'c hb_sys \<Rightarrow> 'c hb_sys \<Rightarrow> bool" for api where
  spawn:
    "hb_step api s (s\<lparr>hsThreads := hsThreads s @ [AtCheck reg ttl]\<rparr>)"
| check_closed:
    "\<lbrakk>t < length (hsThreads s); hsThreads s ! t = AtCheck reg ttl; crClosed (hsReg s)\<rbrakk>
     \<Longrightarrow> hb_step api s (s\<lparr>hsThreads := (hsThreads s)[t := HbDone]\<rparr>)"
| check_open:
    "\<lbrakk>t < length (hsThreads s); hsThreads s ! t = AtCheck reg ttl; \<not> crClosed (hsReg s)\<rbrakk>
     \<Longrightarrow> hb_step api s
          (s\<lparr>hsReg := (hsReg s)\<lparr>crCtxs := crCtxs (hsReg s) @ [False]\<rparr>,
             hsThreads := (hsThreads s)
               [t := AtPass (length (crCtxs (hsReg s))) reg (heartbeatInterval ttl)]\<rparr>)"
| first_pass:
    "\<lbrakk>t < length (hsThreads s); hsThreads s ! t = AtPass i reg iv\<rbrakk>
     \<Longrightarrow> hb_step api s
          (s\<lparr>hsReg := heartbeat_pass api i reg (hsReg s),
             hsThreads := (hsThreads s)[t := AtCommit i reg iv]\<rparr>)"
| commit:
    "\<lbrakk>t < length (hsThreads s); hsThreads s ! t = AtCommit i reg iv\<rbrakk>
     \<Longrightarrow> hb_step api s
          (s\<lparr>hsReg := heartbeat_commit i reg iv (hsReg s),
             hsThreads := (hsThreads s)[t := HbDone]\<rparr>)"
| tick:
    "h \<in> set (crLoops (hsReg s)) \<Longrightarrow>
     hb_step api s (s\<lparr>hsReg := heartbeat_pass api (hbCtx h) (hbReg h) (hsReg s)\<rparr>)"
| loop_ends:
    "\<lbrakk>h \<in> set (crLoops (hsReg s)); ctxDone (hb_ctx (hbCtx h) (hsReg s))\<rbrakk> \<Longrightarrow>
     hb_step api s (s\<lparr>hsReg := (hsReg s)\<lparr>crLoops := removeAll h (crLoops (hsReg s))\<rparr>\<rparr>)"
| deregister:
    "hb_step api s (s\<lparr>hsReg := stop_heartbeat k (hsReg s)\<rparr>)"
| close:
    "hb_step api s (s\<lparr>hsReg := close_heartbeats (hsReg s)\<rparr>)"

abbreviation hb_reach :: "'c consul_api \<Rightarrow> 'c hb_sys \<Rightarrow> 'c hb_sys \<Rightarrow> bool" where
  "hb_reach api \<equiv> reach (hb_step api)"

lemmas hb_reach_step = reach.step [where step = "hb_step api"] for api

inductive_cases hb_step_cases: "hb_step api s s'"

section \<open>The invariant\<close>

text \<open>
  The registry invariant; the contexts of threads in flight are distinct and nobody else's; and no
  context leaks: each one is cancelled, stored in the map, or held by a thread in flight.
\<close>

definition no_leak :: "'c hb_sys \<Rightarrow> bool" where
  "no_leak s \<longleftrightarrow>
     (\<forall>i < length (crCtxs (hsReg s)).
        crCtxs (hsReg s) ! i \<or> i \<in> snd ` set (crHeartbeats (hsReg s)) \<or> i \<in> set (pending s))"

definition sys_inv :: "'c hb_sys \<Rightarrow> bool" where
  "sys_inv s \<longleftrightarrow>
     hb_inv (hsReg s) \<and> distinct (pending s) \<and> (\<forall>i \<in> set (pending s). fresh_ctx i (hsReg s))
     \<and> no_leak s"

lemma sys_invI:
  "hb_inv (hsReg s) \<Longrightarrow> distinct (pending s) \<Longrightarrow>
     (\<And>i. i \<in> set (pending s) \<Longrightarrow> fresh_ctx i (hsReg s)) \<Longrightarrow> no_leak s \<Longrightarrow> sys_inv s"
  by (simp add: sys_inv_def)

lemma pending_split:
  assumes "t < length (hsThreads s)"
  shows "\<exists>as bs. pending s = as @ pending_ctx (hsThreads s ! t) @ bs
    \<and> pending (s\<lparr>hsReg := r, hsThreads := (hsThreads s)[t := pc]\<rparr>) = as @ pending_ctx pc @ bs
    \<and> pending (s\<lparr>hsThreads := (hsThreads s)[t := pc]\<rparr>) = as @ pending_ctx pc @ bs"
proof (intro exI conjI)
  let ?as = "concat (map pending_ctx (take t (hsThreads s)))"
  let ?bs = "concat (map pending_ctx (drop (Suc t) (hsThreads s)))"
  show "pending s = ?as @ pending_ctx (hsThreads s ! t) @ ?bs"
    unfolding pending_def using id_take_nth_drop [OF assms]
    by (metis concat.simps(2) concat_append list.simps(9) map_append)
  show "pending (s\<lparr>hsReg := r, hsThreads := (hsThreads s)[t := pc]\<rparr>) = ?as @ pending_ctx pc @ ?bs"
    "pending (s\<lparr>hsThreads := (hsThreads s)[t := pc]\<rparr>) = ?as @ pending_ctx pc @ ?bs"
    using assms by (simp_all add: pending_def upd_conv_take_nth_drop)
qed

lemma pending_hsReg [simp]: "pending (s\<lparr>hsReg := r\<rparr>) = pending s"
  by (simp add: pending_def)

text \<open>A registry change that only cancels contexts and drops their entries.\<close>

definition shrinks :: "'c consul_registry \<Rightarrow> 'c consul_registry \<Rightarrow> bool" where
  "shrinks r r' \<longleftrightarrow>
     length (crCtxs r') = length (crCtxs r)
     \<and> set (crHeartbeats r') \<subseteq> set (crHeartbeats r) \<and> set (crLoops r') \<subseteq> set (crLoops r)
     \<and> (\<forall>i < length (crCtxs r). crCtxs r ! i \<longrightarrow> crCtxs r' ! i)
     \<and> (\<forall>i < length (crCtxs r). i \<in> snd ` set (crHeartbeats r) \<longrightarrow>
          crCtxs r' ! i \<or> i \<in> snd ` set (crHeartbeats r'))"

lemma shrinks_refl: "shrinks r r"
  by (simp add: shrinks_def)

lemma shrinks_trans: "shrinks r r' \<Longrightarrow> shrinks r' r'' \<Longrightarrow> shrinks r r''"
  unfolding shrinks_def by (metis subset_trans)

lemma shrinksI:
  assumes "length (crCtxs r') = length (crCtxs r)"
    "set (crHeartbeats r') \<subseteq> set (crHeartbeats r)" "set (crLoops r') \<subseteq> set (crLoops r)"
    "\<And>j. j < length (crCtxs r) \<Longrightarrow> crCtxs r ! j \<Longrightarrow> crCtxs r' ! j"
    "\<And>j k. j < length (crCtxs r) \<Longrightarrow> (k, j) \<in> set (crHeartbeats r) \<Longrightarrow>
       crCtxs r' ! j \<or> j \<in> snd ` set (crHeartbeats r')"
  shows "shrinks r r'"
  using assms unfolding shrinks_def by fastforce

lemma shrinksD:
  assumes "shrinks r r'"
  shows "length (crCtxs r') = length (crCtxs r)"
    "set (crHeartbeats r') \<subseteq> set (crHeartbeats r)" "set (crLoops r') \<subseteq> set (crLoops r)"
    "j < length (crCtxs r) \<Longrightarrow> crCtxs r ! j \<Longrightarrow> crCtxs r' ! j"
    "j < length (crCtxs r) \<Longrightarrow> j \<in> snd ` set (crHeartbeats r) \<Longrightarrow>
       crCtxs r' ! j \<or> j \<in> snd ` set (crHeartbeats r')"
  using assms unfolding shrinks_def by simp_all

lemma cancelled_stays: "j < length xs \<Longrightarrow> xs ! j \<Longrightarrow> xs[i := True] ! j"
  by (cases "i = j") simp_all

lemma shrinks_drop:
  assumes "distinct (map fst (crHeartbeats r))" "(k, i) \<in> set (crHeartbeats r)"
  shows "shrinks r ((cancel_ctx i r)\<lparr>crHeartbeats := AList.delete k (crHeartbeats r)\<rparr>)"
proof (rule shrinksI)
  fix j k' assume j: "j < length (crCtxs r)" "(k', j) \<in> set (crHeartbeats r)"
  show "crCtxs ((cancel_ctx i r)\<lparr>crHeartbeats := AList.delete k (crHeartbeats r)\<rparr>) ! j \<or>
      j \<in> snd ` set (crHeartbeats ((cancel_ctx i r)\<lparr>crHeartbeats := AList.delete k (crHeartbeats r)\<rparr>))"
  proof (cases "k' = k")
    case True
    with j(2) assms have "j = i" by (metis eq_key_imp_eq_value)
    with j(1) show ?thesis by simp
  next
    case False
    with j(2) have "(k', j) \<in> set (AList.delete k (crHeartbeats r))" by (simp add: in_delete)
    then show ?thesis by force
  qed
qed (auto simp: in_delete cancelled_stays)

lemma shrinks_stop: "hb_inv r \<Longrightarrow> shrinks r (stop_heartbeat k r)"
  by (cases "map_of (crHeartbeats r) k")
     (simp_all add: stop_heartbeat_def shrinks_refl shrinks_drop [OF hb_invD(1)] map_of_SomeD)

lemma shrinks_drain:
  "distinct (map fst es) \<Longrightarrow> crHeartbeats r = es \<Longrightarrow> shrinks r (fold drain_one es r)"
proof (induction es arbitrary: r)
  case (Cons e es)
  obtain k i where e: "e = (k, i)" by (cases e)
  let ?r = "(cancel_ctx i r)\<lparr>crHeartbeats := AList.delete k (crHeartbeats r)\<rparr>"
  have "AList.delete k ((k, i) # es) = es"
    using Cons.prems(1) e by (auto simp: AList.delete_eq filter_id_conv image_iff)
  then have "crHeartbeats ?r = es" using Cons.prems(2) e by simp
  then have rest: "shrinks ?r (fold drain_one es ?r)"
    using Cons.prems(1) by (intro Cons.IH) simp_all
  have one: "shrinks r ?r" using Cons.prems e by (intro shrinks_drop) auto
  have "fold drain_one (e # es) r = fold drain_one es ?r" by (simp add: drain_one_def e)
  then show ?case using shrinks_trans [OF one rest] by (simp only:)
qed (simp add: shrinks_refl)

lemma shrinks_close:
  assumes inv: "hb_inv r" shows "shrinks r (close_heartbeats r)"
proof -
  have "shrinks r (r\<lparr>crClosed := True\<rparr>)" by (simp add: shrinks_def)
  moreover have "shrinks (r\<lparr>crClosed := True\<rparr>) (close_heartbeats r)"
    unfolding close_heartbeats_def using hb_invD(1) [OF inv] by (intro shrinks_drain) simp_all
  ultimately show ?thesis by (rule shrinks_trans)
qed

lemma fresh_ctx_shrinks:
  assumes "shrinks r r'" "fresh_ctx i r" shows "fresh_ctx i r'"
  using assms shrinksD(1-3) [OF assms(1)] unfolding fresh_ctx_def by auto

lemma no_leakD:
  assumes "no_leak s" "j < length (crCtxs (hsReg s))"
  obtains "crCtxs (hsReg s) ! j" | "j \<in> snd ` set (crHeartbeats (hsReg s))" | "j \<in> set (pending s)"
  using assms unfolding no_leak_def by blast

lemma shrink_step:
  assumes inv: "sys_inv s" and r: "hb_inv r" and sh: "shrinks (hsReg s) r"
  shows "sys_inv (s\<lparr>hsReg := r\<rparr>)"
proof (rule sys_invI)
  fix i assume "i \<in> set (pending (s\<lparr>hsReg := r\<rparr>))"
  then have "fresh_ctx i (hsReg s)" using inv by (simp add: sys_inv_def)
  then show "fresh_ctx i (hsReg (s\<lparr>hsReg := r\<rparr>))" using fresh_ctx_shrinks [OF sh] by simp
next
  have leak: "no_leak s" using inv by (simp add: sys_inv_def)
  have "crCtxs r ! j \<or> j \<in> snd ` set (crHeartbeats r) \<or> j \<in> set (pending s)"
    if j: "j < length (crCtxs (hsReg s))" for j
    using leak j by (rule no_leakD) (use shrinksD(4,5) [OF sh j] in blast)+
  then show "no_leak (s\<lparr>hsReg := r\<rparr>)" by (simp add: no_leak_def shrinksD(1) [OF sh])
qed (use inv r in \<open>simp_all add: sys_inv_def\<close>)

text \<open>A registry change outside the heartbeat core.\<close>

lemma hb_core_fields:
  assumes "hb_core r = hb_core r'"
  shows "crCtxs r = crCtxs r'" "crHeartbeats r = crHeartbeats r'"
  using assms by (simp_all add: hb_core_def)

lemma sys_inv_core:
  assumes core: "hb_core (hsReg s') = hb_core (hsReg s)" and p: "pending s' = pending s"
    and inv: "sys_inv s"
  shows "sys_inv s'"
proof (rule sys_invI)
  show "hb_inv (hsReg s')" using hb_core_eq(1) [OF core] inv by (simp add: sys_inv_def)
  show "fresh_ctx i (hsReg s')" if "i \<in> set (pending s')" for i
    using fresh_ctx_core [OF core] inv p that by (simp add: sys_inv_def)
  show "no_leak s'" using inv by (simp add: sys_inv_def no_leak_def p hb_core_fields [OF core])
qed (use inv p in \<open>simp add: sys_inv_def\<close>)

section \<open>Every step keeps it\<close>

lemma pending_same:
  assumes "t < length (hsThreads s)" "pending_ctx (hsThreads s ! t) = pending_ctx pc"
  shows "pending (s\<lparr>hsReg := r, hsThreads := (hsThreads s)[t := pc]\<rparr>) = pending s"
    "pending (s\<lparr>hsThreads := (hsThreads s)[t := pc]\<rparr>) = pending s"
  using pending_split [OF assms(1), where r = r and pc = pc] assms(2) by metis+

lemma check_open_step:
  assumes inv: "sys_inv s" and t: "t < length (hsThreads s)" "hsThreads s ! t = AtCheck reg ttl"
  shows "sys_inv (s\<lparr>hsReg := (hsReg s)\<lparr>crCtxs := crCtxs (hsReg s) @ [False]\<rparr>,
      hsThreads := (hsThreads s)[t := AtPass (length (crCtxs (hsReg s))) reg iv]\<rparr>)"
    (is "sys_inv ?s")
proof -
  let ?r = "hsReg s" and ?n = "length (crCtxs (hsReg s))"
  obtain as bs where p: "pending s = as @ bs" "pending ?s = as @ ?n # bs"
    using pending_split [OF t(1), where r = "?r\<lparr>crCtxs := crCtxs ?r @ [False]\<rparr>"
        and pc = "AtPass ?n reg iv"] unfolding t(2) pending_ctx.simps by auto
  have hb: "hb_inv ?r" and fresh: "\<And>i. i \<in> set (pending s) \<Longrightarrow> fresh_ctx i ?r"
    and leak: "no_leak s" and dist: "distinct (pending s)"
    using inv by (simp_all add: sys_inv_def)
  have small: "?n \<notin> set (pending s)" using fresh by (auto simp: fresh_ctx_def)
  show ?thesis
  proof (rule sys_invI)
    show "hb_inv (hsReg ?s)" using add_ctx_inv [OF hb] by simp
    show "distinct (pending ?s)" using dist small p by simp
    fix i assume "i \<in> set (pending ?s)"
    then have "i = ?n \<or> fresh_ctx i ?r" using p fresh by auto
    then show "fresh_ctx i (hsReg ?s)"
      using add_ctx_fresh [OF hb, of False] by (auto simp: fresh_ctx_def)
  next
    have "crCtxs (hsReg ?s) ! j \<or> j \<in> snd ` set (crHeartbeats ?r) \<or> j \<in> set (pending ?s)"
      if j: "j < Suc ?n" for j
    proof (cases "j = ?n")
      case False
      with j have j': "j < ?n" by simp
      from leak j' show ?thesis
        by (rule no_leakD) (use p j' in \<open>auto simp: nth_append\<close>)
    qed (simp add: p)
    then show "no_leak ?s" by (simp add: no_leak_def)
  qed
qed

text \<open>An open commit stops the heartbeat of the service, then stores the new one.\<close>

lemma open_commit:
  assumes "hb_inv r" "\<not> crClosed r"
  shows "crCtxs (heartbeat_commit i reg iv r) = crCtxs (stop_heartbeat (rgID reg) r)"
    "set (crHeartbeats (heartbeat_commit i reg iv r))
       = insert (rgID reg, i) (set (crHeartbeats (stop_heartbeat (rgID reg) r)))"
  using assms(2) set_update_alist [OF hb_invD(1) [OF assms(1)], of "rgID reg" i]
  by (simp_all add: heartbeat_commit_def stop_heartbeat_def AList.delete_eq split: option.splits)
    (force simp: map_of_eq_None_iff)?

lemma commit_length [simp]:
  "length (crCtxs (heartbeat_commit i reg iv r)) = length (crCtxs r)"
  by (simp add: heartbeat_commit_def split: option.splits)

lemma commit_loops:
  "hbCtx ` set (crLoops (heartbeat_commit i reg iv r)) \<subseteq> insert i (hbCtx ` set (crLoops r))"
  by (auto simp: heartbeat_commit_def split: option.splits)

lemma commit_map:
  "hb_inv r \<Longrightarrow> snd ` set (crHeartbeats (heartbeat_commit i reg iv r))
     \<subseteq> insert i (snd ` set (crHeartbeats r))"
proof (cases "crClosed r")
  case False
  assume "hb_inv r"
  from open_commit(2) [OF this False, of i reg iv] shrinksD(2) [OF shrinks_stop [OF this], of "rgID reg"]
  show ?thesis by auto
qed (simp add: heartbeat_commit_def subset_insertI)

lemma commit_accounts:
  assumes hb: "hb_inv r" and fresh: "fresh_ctx i r" and j: "j < length (crCtxs r)"
    and old: "crCtxs r ! j \<or> j \<in> snd ` set (crHeartbeats r) \<or> j = i"
  shows "crCtxs (heartbeat_commit i reg iv r) ! j
     \<or> j \<in> snd ` set (crHeartbeats (heartbeat_commit i reg iv r))"
proof (cases "crClosed r")
  case True
  with old hb_invD(7) [OF hb] j show ?thesis
    by (auto simp: heartbeat_commit_def cancelled_stays)
next
  case False
  show ?thesis
    unfolding open_commit [OF hb False]
    using old shrinksD(4,5) [OF shrinks_stop [OF hb] j, of "rgID reg"] by auto
qed

lemma commit_step:
  assumes inv: "sys_inv s" and t: "t < length (hsThreads s)" "hsThreads s ! t = AtCommit i reg iv"
  shows "sys_inv (s\<lparr>hsReg := heartbeat_commit i reg iv (hsReg s),
      hsThreads := (hsThreads s)[t := HbDone]\<rparr>)" (is "sys_inv ?s")
proof -
  let ?r = "hsReg s"
  obtain as bs where p: "pending s = as @ i # bs" "pending ?s = as @ bs"
    using pending_split [OF t(1), where r = "heartbeat_commit i reg iv ?r" and pc = HbDone]
    unfolding t(2) pending_ctx.simps by auto
  have hb: "hb_inv ?r" and fresh: "\<And>j. j \<in> set (pending s) \<Longrightarrow> fresh_ctx j ?r"
    and leak: "no_leak s" and dist: "distinct (pending s)"
    using inv by (simp_all add: sys_inv_def)
  have fi: "fresh_ctx i ?r" using fresh p by simp
  show ?thesis
  proof (rule sys_invI)
    show "hb_inv (hsReg ?s)" using heartbeat_commit_inv [OF hb fi] by simp
    show "distinct (pending ?s)" using dist p by simp
    fix j assume "j \<in> set (pending ?s)"
    then have "fresh_ctx j ?r" "j \<noteq> i" using dist p fresh by auto
    then show "fresh_ctx j (hsReg ?s)"
      using commit_map [OF hb, of i reg iv] commit_loops [of i reg iv ?r]
      by (simp add: fresh_ctx_def) blast
  next
    have "crCtxs (hsReg ?s) ! j \<or> j \<in> snd ` set (crHeartbeats (hsReg ?s)) \<or> j \<in> set (pending ?s)"
      if j: "j < length (crCtxs ?r)" for j
    proof (cases "j \<in> set (pending ?s)")
      case False
      from leak j have "crCtxs ?r ! j \<or> j \<in> snd ` set (crHeartbeats ?r) \<or> j = i"
        by (rule no_leakD) (use False p in auto)
      from commit_accounts [OF hb fi j this, of reg iv] show ?thesis by auto
    qed simp
    then show "no_leak ?s" by (simp add: no_leak_def)
  qed
qed

lemma loop_ends_step:
  assumes inv: "sys_inv s" and "ctxDone (hb_ctx (hbCtx h) (hsReg s))"
  shows "sys_inv (s\<lparr>hsReg := (hsReg s)\<lparr>crLoops := removeAll h (crLoops (hsReg s))\<rparr>\<rparr>)"
proof -
  have hb: "hb_inv (hsReg s)" using inv by (simp add: sys_inv_def)
  have e: "heartbeat_tick api h (hsReg s) = (hsReg s)\<lparr>crLoops := removeAll h (crLoops (hsReg s))\<rparr>" for api
    using assms(2) by (simp add: heartbeat_tick_def)
  have "shrinks (hsReg s) ((hsReg s)\<lparr>crLoops := removeAll h (crLoops (hsReg s))\<rparr>)" by (auto simp: shrinks_def)
  from shrink_step [OF inv heartbeat_tick_inv [OF hb, of undefined h, unfolded e] this] show ?thesis .
qed

lemma hb_step_inv: "hb_step api s s' \<Longrightarrow> sys_inv s \<Longrightarrow> sys_inv s'"
proof (induction rule: hb_step.induct)
  case (spawn s reg ttl)
  then show ?case by (rule sys_inv_core [rotated 2]) (simp_all add: pending_def)
next
  case (check_closed t s reg ttl)
  show ?case
    by (rule sys_inv_core [OF _ _ check_closed(4)])
       (simp_all add: pending_same(2) check_closed(1,2))
next
  case (check_open t s reg ttl)
  then show ?case by (intro check_open_step)
next
  case (first_pass t s i reg iv)
  show ?case
    by (rule sys_inv_core [OF _ _ first_pass(3)])
       (simp_all add: pending_same(1) first_pass(1,2) hb_core_pass)
next
  case (commit t s i reg iv)
  then show ?case by (intro commit_step)
next
  case (tick h s)
  show ?case by (rule sys_inv_core [OF _ _ tick(2)]) (simp_all add: hb_core_pass)
next
  case (loop_ends h s)
  then show ?case by (intro loop_ends_step)
next
  case (deregister s k)
  then have "hb_inv (hsReg s)" by (simp add: sys_inv_def)
  with deregister show ?case by (intro shrink_step inv_intros shrinks_stop)
next
  case (close s)
  then have "hb_inv (hsReg s)" by (simp add: sys_inv_def)
  with close show ?case by (intro shrink_step inv_intros shrinks_close)
qed

interpretation hb: step_system "hb_step api" sys_inv
  by unfold_locales (rule hb_step_inv)

lemma drain_keeps_closed: "crClosed (fold drain_one es r) = crClosed r"
  by (induction es arbitrary: r) (simp_all add: drain_one_def split: prod.splits)

lemma close_keeps_closed: "crClosed (close_heartbeats r)"
  by (simp add: close_heartbeats_def drain_keeps_closed)

lemma hb_step_closed: "hb_step api s s' \<Longrightarrow> crClosed (hsReg s) \<Longrightarrow> crClosed (hsReg s')"
  by (elim hb_step_cases) (auto simp: heartbeat_commit_def close_keeps_closed)

interpretation hb_closed: step_system "hb_step api" "\<lambda>s. crClosed (hsReg s)"
  by unfold_locales (rule hb_step_closed)

section \<open>Properties\<close>

lemma new_sys_inv:
  "newConsulRegistry api dflt server c = Inr r \<Longrightarrow> sys_inv \<lparr>hsReg = r, hsThreads = []\<rparr>"
  by (simp add: sys_inv_def newConsulRegistry_inv pending_def no_leak_def newConsulRegistry_fields)

lemma all_done_pending: "set (hsThreads t) \<subseteq> {HbDone} \<Longrightarrow> pending t = []"
  by (auto simp: pending_def)

text \<open>
  C6. However registrations, first passes, ticks, deregistrations and Close interleave: at most one
  heartbeat per service is live; once the registry is closed none is, now or later, so a
  registration that was between its closed test and its commit when Close ran cannot leave one
  behind; and when the registrations in flight have finished, every context ever created is
  cancelled (no leak).
\<close>

theorem interleaved_heartbeats:
  assumes "newConsulRegistry api dflt server c = Inr r"
    and "hb_reach api \<lparr>hsReg = r, hsThreads = []\<rparr> t"
  shows "(\<forall>h h'. live_loop (hsReg t) h \<and> live_loop (hsReg t) h' \<and> rgID (hbReg h) = rgID (hbReg h')
            \<longrightarrow> h = h')
     \<and> (crClosed (hsReg t) \<longrightarrow>
          (\<forall>u. hb_reach api t u \<longrightarrow> live_services (hsReg u) = {})
          \<and> (set (hsThreads t) \<subseteq> {HbDone} \<longrightarrow> (\<forall>b \<in> set (crCtxs (hsReg t)). b)))"
proof -
  have inv: "sys_inv t" using hb.reach_inv [OF assms(2) new_sys_inv [OF assms(1)]] .
  then have hb: "hb_inv (hsReg t)" and leak: "no_leak t" by (simp_all add: sys_inv_def)
  have quiet: "live_services (hsReg u) = {}" if "crClosed (hsReg t)" "hb_reach api t u" for u
    using hb.reach_inv [OF that(2) inv] hb_closed.reach_inv [OF that(2,1)]
    by (simp add: sys_inv_def closed_no_live)
  have "b" if "crClosed (hsReg t)" "set (hsThreads t) \<subseteq> {HbDone}" "b \<in> set (crCtxs (hsReg t))" for b
    using leak hb_invD(7) [OF hb that(1)] all_done_pending [OF that(2)] that(3)
    by (auto simp: no_leak_def in_set_conv_nth)
  with quiet one_loop_per_service [OF hb] show ?thesis by blast
qed

text \<open>The witness: a registration passes the closed test, Close runs, the registration finishes.\<close>

lemma late_registration:
  "\<exists>t. hb_reach quiet_api \<lparr>hsReg = open_registry, hsThreads = []\<rparr> t
     \<and> crClosed (hsReg t) \<and> hsThreads t = [HbDone] \<and> length (crCtxs (hsReg t)) = 1"
proof -
  define reg iv where d: "reg = registrationFor ttl_service" "iv = heartbeatInterval ''30s''"
  define r1 where r1: "r1 = open_registry\<lparr>crCtxs := crCtxs open_registry @ [False]\<rparr>"
  define r2 where r2: "r2 = close_heartbeats r1"
  define r3 where r3: "r3 = heartbeat_pass quiet_api 0 reg r2"
  define r4 where r4: "r4 = heartbeat_commit 0 reg iv r3"
  have e: "crCtxs open_registry = []" "\<not> crClosed open_registry" by (simp_all add: open_registry_def)
  have "hb_reach quiet_api \<lparr>hsReg = open_registry, hsThreads = []\<rparr>
      \<lparr>hsReg = open_registry, hsThreads = [AtCheck reg ''30s'']\<rparr>"
    using hb_reach_step [OF reach.refl
        hb_step.spawn [of quiet_api "\<lparr>hsReg = open_registry, hsThreads = []\<rparr>" reg "''30s''"]] by simp
  moreover have "hb_step quiet_api \<lparr>hsReg = open_registry, hsThreads = [AtCheck reg ''30s'']\<rparr>
      \<lparr>hsReg = r1, hsThreads = [AtPass 0 reg iv]\<rparr>"
    using hb_step.check_open [of 0 "\<lparr>hsReg = open_registry, hsThreads = [AtCheck reg ''30s'']\<rparr>"]
    by (simp add: e r1 d)
  moreover have "hb_step quiet_api \<lparr>hsReg = r1, hsThreads = [AtPass 0 reg iv]\<rparr>
      \<lparr>hsReg = r2, hsThreads = [AtPass 0 reg iv]\<rparr>"
    using hb_step.close [of quiet_api "\<lparr>hsReg = r1, hsThreads = [AtPass 0 reg iv]\<rparr>"] by (simp add: r2)
  moreover have "hb_step quiet_api \<lparr>hsReg = r2, hsThreads = [AtPass 0 reg iv]\<rparr>
      \<lparr>hsReg = r3, hsThreads = [AtCommit 0 reg iv]\<rparr>"
    using hb_step.first_pass [of 0 "\<lparr>hsReg = r2, hsThreads = [AtPass 0 reg iv]\<rparr>"] by (simp add: r3)
  moreover have "hb_step quiet_api \<lparr>hsReg = r3, hsThreads = [AtCommit 0 reg iv]\<rparr>
      \<lparr>hsReg = r4, hsThreads = [HbDone]\<rparr>"
    using hb_step.commit [of 0 "\<lparr>hsReg = r3, hsThreads = [AtCommit 0 reg iv]\<rparr>"] by (simp add: r4)
  ultimately have "hb_reach quiet_api \<lparr>hsReg = open_registry, hsThreads = []\<rparr>
      \<lparr>hsReg = r4, hsThreads = [HbDone]\<rparr>"
    by (meson hb_reach_step)
  moreover have "length (crCtxs r2) = 1"
    using shrinksD(1) [OF shrinks_close, of r1] add_ctx_inv [of open_registry False]
    by (simp add: r2 r1 e hb_inv_def open_registry_def)
  then have "crClosed r4" "length (crCtxs r4) = 1"
    by (simp_all add: r4 r3 r2 heartbeat_commit_def close_keeps_closed)
  ultimately show ?thesis by (metis hb_sys.select_convs)
qed

theorem interleaved_heartbeats_witness:
  "\<exists>r t. newConsulRegistry quiet_api default_api_config ()
        (zero_config\<lparr>WatchWaitTime := 30 * second\<rparr>) = Inr r
     \<and> hb_reach quiet_api \<lparr>hsReg = r, hsThreads = []\<rparr> t \<and> crCtxs (hsReg t) = [True]"
proof -
  have new: "newConsulRegistry quiet_api default_api_config ()
      (zero_config\<lparr>WatchWaitTime := 30 * second\<rparr>) = Inr open_registry"
    by (simp add: newConsulRegistry_def quiet_api_def open_registry_def zero_config_def newTunedConfig_def)
  obtain t where t: "hb_reach quiet_api \<lparr>hsReg = open_registry, hsThreads = []\<rparr> t"
    "crClosed (hsReg t)" "hsThreads t = [HbDone]" "length (crCtxs (hsReg t)) = 1"
    using late_registration by blast
  from interleaved_heartbeats [OF new t(1)] t(2,3) have "\<forall>b \<in> set (crCtxs (hsReg t)). b" by auto
  with t(4) have "crCtxs (hsReg t) = [True]" by (auto simp: length_Suc_conv)
  with new t(1) show ?thesis by blast
qed

text \<open>
  C38. A deregistration that runs while a registration of the same service is between its first pass
  and its commit does not stop it: the commit stores and starts the heartbeat, which then keeps
  the deregistered service alive (and re-registers it when Consul no longer knows the check).
\<close>

theorem deregister_race:
  assumes "sys_inv s" and "t < length (hsThreads s)" and "hsThreads s ! t = AtCommit i reg iv"
    and "\<not> crClosed (hsReg s)" and "\<not> crCtxs (hsReg s) ! i"
  shows "\<exists>s1 s2. hb_step api s s1 \<and> hsReg s1 = stop_heartbeat (rgID reg) (hsReg s)
     \<and> hb_step api s1 s2 \<and> rgID reg \<in> live_services (hsReg s2)"
proof -
  let ?r1 = "stop_heartbeat (rgID reg) (hsReg s)"
  let ?s1 = "s\<lparr>hsReg := ?r1\<rparr>"
  let ?s2 = "?s1\<lparr>hsReg := heartbeat_commit i reg iv (hsReg ?s1),
      hsThreads := (hsThreads ?s1)[t := HbDone]\<rparr>"
  have st: "hb_step api s ?s1" by (rule hb_step.deregister)
  have st2: "hb_step api ?s1 ?s2" by (rule hb_step.commit) (simp_all add: assms(2,3))
  have "i \<in> set (pending s)"
    using assms(2,3) nth_mem [OF assms(2)] by (force simp: pending_def)
  then have fresh: "fresh_ctx i (hsReg s)" using assms(1) by (simp add: sys_inv_def)
  then have "map_of (crHeartbeats (hsReg s)) (rgID reg) \<noteq> Some i"
    by (force simp: fresh_ctx_def dest: map_of_SomeD)
  then have "crCtxs ?r1 ! i = crCtxs (hsReg s) ! i"
    by (auto simp: stop_heartbeat_def split: option.splits)
  moreover have "map_of (crHeartbeats ?r1) (rgID reg) = None"
    by (auto simp: map_of_eq_None_iff AList.delete_eq)
  moreover have "length (crCtxs ?r1) = length (crCtxs (hsReg s))"
    using shrinksD(1) [OF shrinks_stop] assms(1) by (auto simp: sys_inv_def)
  ultimately have "live_loop (heartbeat_commit i reg iv ?r1) \<lparr>hbCtx = i, hbReg = reg, hbInterval = iv\<rparr>"
    using fresh assms(4,5) by (simp add: heartbeat_commit_def live_loop_def fresh_ctx_def Let_def)
  then have "rgID reg \<in> live_services (hsReg ?s2)" by (force simp: live_services_def)
  with st st2 show ?thesis by (intro exI [of _ ?s1] exI [of _ ?s2]) simp
qed

theorem deregister_race_witness:
  "\<exists>s1 s2. hb_step quiet_api
       \<lparr>hsReg = open_registry\<lparr>crCtxs := [False]\<rparr>,
        hsThreads = [AtCommit 0 (registrationFor ttl_service) (15 * second)]\<rparr> s1
     \<and> hb_step quiet_api s1 s2 \<and> ''a-1'' \<in> live_services (hsReg s2)"
proof -
  let ?s = "\<lparr>hsReg = open_registry\<lparr>crCtxs := [False]\<rparr>,
      hsThreads = [AtCommit 0 (registrationFor ttl_service) (15 * second)]\<rparr>"
  have "sys_inv ?s"
    by (simp add: sys_inv_def hb_inv_def open_registry_def pending_def fresh_ctx_def no_leak_def)
  from deregister_race [OF this, of 0 0 "registrationFor ttl_service" "15 * second" quiet_api]
  show ?thesis by (auto simp: open_registry_def ttl_service_def)
qed

end
