(* ===== verification/ConsulResolve.thy ===== *)
theory ConsulResolve
  imports ConsulHeartbeats
begin

text \<open>
  Reading from the Consul backend: the round-robin cursor over the healthy instances, below and
  beyond the overflow of its counter, and the answers of Resolve.
\<close>

section \<open>The round-robin cursor\<close>

fun draws :: "nat \<Rightarrow> nat \<Rightarrow> 64 word \<Rightarrow> int list" where
  "draws n 0 rr = []"
| "draws n (Suc j) rr = (case nextIndex n rr of (i, rr') \<Rightarrow> i # draws n j rr')"

lemma nextIndex_below:
  assumes "2 \<le> n" "k < 2 ^ 63"
  shows "nextIndex n (of_nat k) = (int (k mod n), of_nat (Suc k))"
proof -
  have "sint (of_nat k :: 64 word) = wrap64 (int k)" by (simp add: wrap64_def)
  also have "\<dots> = int k"
    using of_nat_mono [of "Suc k" "2 ^ 63", where 'a = int] assms(2) by (simp add: int64_range_def)
  finally have "sint (of_nat k :: 64 word) = int k" .
  then show ?thesis using assms(1) by (simp add: nextIndex_def go_mod_def Let_def zmod_int)
qed

lemma draws_below:
  "2 \<le> n \<Longrightarrow> k + j \<le> 2 ^ 63 \<Longrightarrow> draws n j (of_nat k) = map (\<lambda>i. int ((k + i) mod n)) [0..<j]"
proof (induction j arbitrary: k)
  case (Suc j)
  then show ?case
    by (simp add: nextIndex_below map_upt_Suc del: upt_Suc of_nat_Suc)
qed simp

text \<open>
  Round robin: as long as the cursor is below 2^63, n resolutions in a row over n instances
  pick each instance exactly once.
\<close>

lemma round_robin_covers:
  assumes "2 \<le> n" and "k + n \<le> 2 ^ 63"
  shows "distinct (draws n n (of_nat k)) \<and> set (draws n n (of_nat k)) = {0..<int n}"
proof -
  let ?f = "\<lambda>i. int ((k + i) mod n)"
  have draws: "draws n n (of_nat k) = map ?f [0..<n]" using assms by (rule draws_below)
  have lt: "i = j" if "i \<le> j" "j < n" "(k + j) mod n = (k + i) mod n" for i j
  proof -
    have "n dvd j - i" using that by (simp add: mod_eq_dvd_iff_nat)
    moreover have "j - i < n" using that by simp
    ultimately have "j - i = 0" using nat_dvd_not_less by blast
    with that(1) show ?thesis by simp
  qed
  have inj: "inj_on ?f {0..<n}"
  proof (rule inj_onI)
    fix i j assume "i \<in> {0..<n}" "j \<in> {0..<n}" "?f i = ?f j"
    then have "i < n" "j < n" "(k + i) mod n = (k + j) mod n" by (simp_all only: of_nat_eq_iff atLeastLessThan_iff)
    then show "i = j" using lt [of i j] lt [of j i] by (metis nat_le_linear)
  qed
  have "?f i \<in> {0..<int n}" for i
  proof -
    have "(k + i) mod n < n" using assms(1) by (intro mod_less_divisor) linarith
    then show ?thesis by (simp only: atLeastLessThan_iff of_nat_less_iff of_nat_0_le_iff simp_thms)
  qed
  then have "?f ` {0..<n} \<subseteq> {0..<int n}" by (rule image_subsetI)
  then have "?f ` {0..<n} = {0..<int n}" using card_image [OF inj] by (intro card_subset_eq) auto
  with inj show ?thesis by (simp add: draws distinct_map)
qed

text \<open>The cursor read as Go's int, in the upper half of its range.\<close>

lemma cursor_bound: "unat (w :: 64 word) < 2 ^ 64"
  using unsigned_less [of w] by simp

lemma sint_upper:
  assumes "2 ^ 63 \<le> unat (w :: 64 word)" shows "sint w = - int (2 ^ 64 - unat w)"
proof -
  have "int (2 ^ 63) \<le> int (unat w)" "int (unat w) < int (2 ^ 64)"
    using assms cursor_bound [of w] by (simp_all only: of_nat_le_iff of_nat_less_iff)
  then have u: "2 ^ 63 \<le> int (unat w)" "int (unat w) < 2 ^ 64" by simp_all
  have "(2 :: 64 word) ^ 64 = 0" by simp
  then have "(of_int (int (unat w) - 2 ^ 64) :: 64 word) = w" unfolding of_int_diff of_int_power by simp
  then have "sint w = wrap64 (int (unat w) - 2 ^ 64)" unfolding wrap64_def by (simp only:)
  also have "\<dots> = int (unat w) - 2 ^ 64" using u by (intro wrap64_id) (simp add: int64_range_def)
  finally show ?thesis using cursor_bound [of w] by (simp add: of_nat_diff)
qed

text \<open>
  C36. The cursor is a 64-bit counter read as Go's int: from 2^63 on it is negative and Go's remainder
  keeps the sign, so a resolution among several instances indexes out of range and panics, unless their
  number divides what is left to the cursor's wrap-around; then, and only then, it answers, with the
  first instance. The cursor moves on either way.
\<close>

theorem round_robin_overflow:
  assumes "2 ^ 63 \<le> unat (crRR r)"
    and "apHealth api (crClient r) (queryOpts (Some r) c) name tag True (crServer r) = (Inr (es, i), s)"
    and "2 \<le> length es"
  shows "((\<exists>msg. fst (consul_Resolve api c name tag (Some r)) = Inl (Panic msg))
        \<longleftrightarrow> \<not> length es dvd 2 ^ 64 - unat (crRR r))
     \<and> (length es dvd 2 ^ 64 - unat (crRR r) \<longrightarrow>
          fst (consul_Resolve api c name tag (Some r)) = Inr (serviceFromEntry (hd es)))
     \<and> (\<exists>r'. snd (consul_Resolve api c name tag (Some r)) = Some r' \<and> crRR r' = crRR r + 1)"
proof -
  let ?k = "2 ^ 64 - unat (crRR r)" and ?n = "length es"
  have k: "0 < ?k" using cursor_bound [of "crRR r"] by linarith
  have "nextIndex ?n (crRR r) = (go_mod (sint (crRR r)) (int ?n), crRR r + 1)"
    using assms(3) by (simp add: nextIndex_def Let_def)
  moreover have "go_mod (sint (crRR r)) (int ?n) = - int (?k mod ?n)"
    using k unfolding sint_upper [OF assms(1)] go_mod_def by (simp add: zmod_int del: of_nat_diff of_nat_power)
  ultimately have idx: "nextIndex ?n (crRR r) = (- int (?k mod ?n), crRR r + 1)" by simp
  have es: "es \<noteq> []" "0 < ?n" "es ! 0 = hd es"
    using assms(3) by (cases es; simp)+
  define m where "m = ?k mod ?n"
  have "0 < ?n" "?n dvd ?k \<longleftrightarrow> m = 0" using es(2) by (simp_all only: m_def dvd_eq_mod_eq_0)
  then show ?thesis
    using assms(2) idx [folded m_def] es by (auto simp: consul_Resolve_def Let_def)
qed

definition one_entry :: service_entry where
  "one_entry = \<lparr>enID = ''a-1'', enService = ''a'', enTags = [], enMeta = Map.empty,
     enAddress = ''10.0.0.1'', enPort = 80, enChecks = []\<rparr>"

definition three_api :: "unit consul_api" where
  "three_api = quiet_api\<lparr>apHealth := \<lambda>_ _ _ _ _ s. (Inr ([one_entry, one_entry, one_entry], 1), s)\<rparr>"

theorem round_robin_overflow_witness:
  "(\<exists>msg. fst (consul_Resolve three_api Background ''a'' [] (Some (open_registry\<lparr>crRR := 2 ^ 63\<rparr>)))
       = Inl (Panic msg))
   \<and> fst (consul_Resolve three_api Background ''a'' [] (Some (open_registry\<lparr>crRR := 2 ^ 63 + 2\<rparr>)))
       = Inr (serviceFromEntry one_entry)"
proof -
  let ?es = "[one_entry, one_entry, one_entry]"
  have h: "apHealth three_api cl q n t True s = (Inr (?es, 1), s)" for cl q n t s by (simp add: three_api_def)
  have u: "unat (2 ^ 63 :: 64 word) = 2 ^ 63" "unat (2 ^ 63 + 2 :: 64 word) = 2 ^ 63 + 2" by simp_all
  have l: "2 \<le> length ?es" by simp
  have b: "2 ^ 63 \<le> unat (crRR (open_registry\<lparr>crRR := 2 ^ 63\<rparr>))"
    "2 ^ 63 \<le> unat (crRR (open_registry\<lparr>crRR := 2 ^ 63 + 2\<rparr>))" using u by simp_all
  have "\<not> Suc (Suc (Suc 0)) dvd 9223372036854775808" "Suc (Suc (Suc 0)) dvd 9223372036854775806"
    by (simp_all add: dvd_eq_mod_eq_0 flip: numeral_3_eq_3)
  then show ?thesis
    using round_robin_overflow [OF b(1) h l, of Background "''a''" "[]"]
      round_robin_overflow [OF b(2) h l, of Background "''a''" "[]"] u by simp
qed

text \<open>
  C31. Resolve on the Consul backend, below the cursor's overflow: it returns the service of one of
  the healthy entries, \<open>ErrNoHealthyInstances\<close> exactly when there is none, and otherwise the wrapped
  transport error; it never panics and the heartbeats are untouched.
\<close>

theorem consul_resolve_answers:
  assumes "apHealth api (crClient r) (queryOpts (Some r) c) name tag True (crServer r) = (res, s)"
    and "unat (crRR r) < 2 ^ 63"
  shows "(case fst (consul_Resolve api c name tag (Some r)) of
      Inr svc \<Rightarrow> \<exists>es i. res = Inr (es, i) \<and> svc \<in> serviceFromEntry ` set es
    | Inl e \<Rightarrow>
        (\<exists>i. res = Inr ([], i) \<and> e = Errorf ''%w: %s'' ErrNoHealthyInstances [name])
        \<or> (\<exists>t. res = Inl t \<and> e = Errorf ''consul: resolve %s: %w'' (Foreign t) [name]))
     \<and> (\<forall>r'. snd (consul_Resolve api c name tag (Some r)) = Some r' \<longrightarrow> live_services r' = live_services r)"
proof
  have core: "live_services (q\<lparr>crRR := w\<rparr>) = live_services q" for q :: "'a consul_registry" and w
    by (rule hb_core_eq(2)) simp
  show "\<forall>r'. snd (consul_Resolve api c name tag (Some r)) = Some r' \<longrightarrow> live_services r' = live_services r"
    using assms(1)
    by (auto simp: consul_Resolve_def Let_def core split: sum.splits prod.splits if_splits)
  show "(case fst (consul_Resolve api c name tag (Some r)) of
      Inr svc \<Rightarrow> \<exists>es i. res = Inr (es, i) \<and> svc \<in> serviceFromEntry ` set es
    | Inl e \<Rightarrow>
        (\<exists>i. res = Inr ([], i) \<and> e = Errorf ''%w: %s'' ErrNoHealthyInstances [name])
        \<or> (\<exists>t. res = Inl t \<and> e = Errorf ''consul: resolve %s: %w'' (Foreign t) [name]))"
  proof (cases res)
    case (Inr p)
    obtain es i where p: "p = (es, i)" by (cases p)
    show ?thesis
    proof (cases "es = []")
      case False
      obtain k rr where k: "nextIndex (length es) (crRR r) = (k, rr)" by fastforce
      have "0 \<le> k \<and> k < int (length es)"
      proof (cases "2 \<le> length es")
        case True
        with nextIndex_below [OF True assms(2)] k \<open>es \<noteq> []\<close> show ?thesis
          by (auto intro: mod_less_divisor)
      next
        case False
        with k \<open>es \<noteq> []\<close> show ?thesis by (auto simp: nextIndex_def)
      qed
      then have "nat k < length es" by linarith
      then have "es ! nat k \<in> set es" by simp
      with False \<open>0 \<le> k \<and> k < int (length es)\<close> assms(1) Inr p k show ?thesis
        by (simp add: consul_Resolve_def Let_def)
    next
      case True
      with assms(1) Inr p show ?thesis by (simp add: consul_Resolve_def Let_def)
    qed
  next
    case (Inl t)
    with assms(1) show ?thesis by (simp add: consul_Resolve_def Let_def)
  qed
qed

theorem consul_resolve_answers_witness:
  "fst (consul_Resolve quiet_api Background ''a'' [] (Some open_registry))
     = Inl (Errorf ''%w: %s'' ErrNoHealthyInstances [''a''])"
  using consul_resolve_answers [of quiet_api open_registry Background "''a''" "[]" "Inr ([], 1)" "()"]
  by (auto simp: quiet_api_def open_registry_def split: sum.splits)

end
