(* ===== verification/ResolverConcurrency.thy ===== *)
theory ResolverConcurrency
  imports ManagerLifecycle Reachability
begin

text \<open>
  The interleavings of the managed resolver layer (\<open>managed_resolver.go\<close>, \<open>doClose\<close> of
  \<open>manager.go\<close>). The resolvers are shared objects: a lookup holds a pointer to one after it has left
  the lock that guards the map, and Close may remove it from the map meanwhile. A lookup is a thread
  that goes through the read-locked test, the write-locked creation, \<open>once.Do\<close> and the seed inside
  it, and the read of the cell; a watch loop is a worker that alternates between waiting and
  absorbing an answer. Between any two steps of one the others may run. The manager record holds
  everything but the resolvers (its own list of them is not used here), and the calls the layer has
  made on the backend are recorded in order.
\<close>

section \<open>Shared state\<close>

datatype once_state = OnceIdle | OnceRunning | OnceDone

record robj =
  obName :: string
  obCell :: managed_resolver
  obOnce :: once_state

text \<open>Where a lookup is. \<open>RRead None\<close>: the private resolver handed out after Close.\<close>

datatype rpc =
    RStart ctx string
  | RSlow ctx string
  | ROnce nat ctx string
  | RSeed nat ctx string
  | RRecord nat string "go_error + service"
  | RWatch nat string
  | ROpen nat nat string
  | RLeave nat string
  | RRead "nat option" string
  | RDone "nat option" string cache_view

record worker =
  wkPtr :: nat
  wkLoop :: watch_loop
  wkGot :: "(go_error + service) option"

datatype bcall = CallSeed string | CallWatch string | CallUpdate string

record 'r rsys =
  rsMgr :: "'r manager"
  rsObjs :: "robj list"
  rsMap :: "(string \<times> nat) list"
  rsThreads :: "rpc list"
  rsWorkers :: "worker list"
  rsCalls :: "bcall list"

definition at_pc :: "'r rsys \<Rightarrow> nat \<Rightarrow> rpc \<Rightarrow> bool" where
  "at_pc s t pc \<longleftrightarrow> t < length (rsThreads s) \<and> rsThreads s ! t = pc"

definition goto :: "nat \<Rightarrow> rpc \<Rightarrow> 'r rsys \<Rightarrow> 'r rsys" where
  "goto t pc s = s\<lparr>rsThreads := (rsThreads s)[t := pc]\<rparr>"

definition set_cell :: "nat \<Rightarrow> managed_resolver \<Rightarrow> 'r rsys \<Rightarrow> 'r rsys" where
  "set_cell p mr s = s\<lparr>rsObjs := (rsObjs s)[p := (rsObjs s ! p)\<lparr>obCell := mr\<rparr>]\<rparr>"

definition set_once :: "nat \<Rightarrow> once_state \<Rightarrow> 'r rsys \<Rightarrow> 'r rsys" where
  "set_once p x s = s\<lparr>rsObjs := (rsObjs s)[p := (rsObjs s ! p)\<lparr>obOnce := x\<rparr>]\<rparr>"

abbreviation cell_at :: "'r rsys \<Rightarrow> nat \<Rightarrow> managed_resolver" where
  "cell_at s p \<equiv> obCell (rsObjs s ! p)"

section \<open>The pieces of the seed and of Close\<close>

text \<open>\<open>seedManagedResolver\<close> and \<open>startManagedWatch\<close>, cut where other goroutines may run.\<close>

definition seed_call ::
    "'r registry_ops \<Rightarrow> ctx \<Rightarrow> string \<Rightarrow> 'r manager \<Rightarrow> (go_error + service) \<times> 'r manager" where
  "seed_call ops c name m =
     call_resolve ops (WithTimeout c (mSeedTimeout m)) name (workloadTag m) m"

text \<open>What the seed records of an outcome of Resolve, unless it panicked.\<close>

definition seed_record ::
    "string \<Rightarrow> go_error + service \<Rightarrow> managed_resolver \<times> 'r manager \<Rightarrow> managed_resolver \<times> 'r manager"
  where
  "seed_record name res s =
     (let (mr, m) = s in
      case res of
        Inl err \<Rightarrow>
          (mr\<lparr>mrSeedErr := Some err\<rparr>,
           m_log LevelWarn ''managed resolver seed degraded; watching for recovery''
             [LString ''service'' name, LString ''workload'' (mWorkload m), LErr err] m)
      | Inr svc \<Rightarrow>
          (mr_store svc mr,
           m_log LevelDebug ''managed resolver seeded''
             [LString ''service'' name, LString ''source'' ''consul'',
              LString ''workload'' (mWorkload m)] m))"

text \<open>\<open>context.WithCancel\<close> on the base context, and the store of its cancel function.\<close>

definition watch_context ::
    "managed_resolver \<times> 'r manager \<Rightarrow> managed_resolver \<times> 'r manager" where
  "watch_context s =
     (let (mr, m) = s
      in (mr\<lparr>mrCancel := Some (length (mCtxs m))\<rparr>, m\<lparr>mCtxs := mCtxs m @ [False]\<rparr>))"

text \<open>The call of Watch on that context, as far as it is done by then, and what follows it.\<close>

definition watch_open ::
    "'r registry_ops \<Rightarrow> nat \<Rightarrow> string \<Rightarrow> string \<Rightarrow> 'r manager \<Rightarrow> bool \<times> 'r manager" where
  "watch_open ops i name tag m =
     (let wctx = \<lparr>ctxDone = (mBaseDone m \<or> (i < length (mCtxs m) \<and> mCtxs m ! i)), ctxDeadline = None\<rparr>;
          ((ch, err), m1) = call_watch ops wctx name m
      in case err of
           Some e \<Rightarrow>
             (False, m_log LevelWarn ''managed resolver watch failed to start; serving seed only''
                       [LString ''service'' name, LErr e] (m1\<lparr>mCtxs := (mCtxs m1)[i := True]\<rparr>))
         | None \<Rightarrow>
             (True, m1\<lparr>mLoops := mLoops m1 @ [\<lparr>wlCtx = i, wlName = name, wlTag = tag\<rparr>]\<rparr>))"

text \<open>The locked section of \<open>doClose\<close>: \<open>mr.stop()\<close> for each resolver of the map, and the empty map.\<close>

fun cancel_all :: "nat option list \<Rightarrow> bool list \<Rightarrow> bool list" where
  "cancel_all [] cs = cs"
| "cancel_all (None # is) cs = cancel_all is cs"
| "cancel_all (Some i # is) cs = cancel_all is (cs[i := True])"

definition close_lock :: "'r rsys \<Rightarrow> 'r rsys" where
  "close_lock s =
     s\<lparr>rsMgr := (rsMgr s)
         \<lparr>mClosed := True, mBaseDone := True,
          mCtxs := cancel_all (map (\<lambda>(n, p). mrCancel (cell_at s p)) (rsMap s)) (mCtxs (rsMgr s))\<rparr>,
       rsMap := []\<rparr>"

section \<open>Steps\<close>

inductive r_step :: "'r registry_ops \<Rightarrow> 'r rsys \<Rightarrow> 'r rsys \<Rightarrow> bool" for ops where
  spawn:
    "r_step ops s (s\<lparr>rsThreads := rsThreads s @ [RStart c n]\<rparr>)"
| fast_hit:
    "\<lbrakk>at_pc s t (RStart c n); map_of (rsMap s) n = Some p\<rbrakk> \<Longrightarrow> r_step ops s (goto t (ROnce p c n) s)"
| fast_miss:
    "\<lbrakk>at_pc s t (RStart c n); map_of (rsMap s) n = None\<rbrakk> \<Longrightarrow> r_step ops s (goto t (RSlow c n) s)"
| slow_closed:
    "\<lbrakk>at_pc s t (RSlow c n); mClosed (rsMgr s)\<rbrakk> \<Longrightarrow> r_step ops s (goto t (RRead None n) s)"
| slow_found:
    "\<lbrakk>at_pc s t (RSlow c n); \<not> mClosed (rsMgr s); map_of (rsMap s) n = Some p\<rbrakk>
     \<Longrightarrow> r_step ops s (goto t (ROnce p c n) s)"
| slow_insert:
    "\<lbrakk>at_pc s t (RSlow c n); \<not> mClosed (rsMgr s); map_of (rsMap s) n = None;
      p = length (rsObjs s)\<rbrakk>
     \<Longrightarrow> r_step ops s (goto t (ROnce p c n)
          (s\<lparr>rsObjs := rsObjs s @ [\<lparr>obName = n, obCell = new_resolver, obOnce = OnceIdle\<rparr>],
             rsMap := AList.update n p (rsMap s)\<rparr>))"
| once_enter:
    "\<lbrakk>at_pc s t (ROnce p c n); obOnce (rsObjs s ! p) = OnceIdle\<rbrakk>
     \<Longrightarrow> r_step ops s (goto t (RSeed p c n)
          (set_cell p ((cell_at s p)\<lparr>mrOnce := True\<rparr>) (set_once p OnceRunning s)))"
| once_skip:
    "\<lbrakk>at_pc s t (ROnce p c n); obOnce (rsObjs s ! p) = OnceDone\<rbrakk>
     \<Longrightarrow> r_step ops s (goto t (RRead (Some p) n) s)"
| seed_calls:
    "\<lbrakk>at_pc s t (RSeed p c n); seed_call ops c n (rsMgr s) = (res, m)\<rbrakk>
     \<Longrightarrow> r_step ops s (goto t (RRecord p n res)
          (s\<lparr>rsMgr := m, rsCalls := rsCalls s @ [CallSeed n]\<rparr>))"
| seed_records:
    "\<lbrakk>at_pc s t (RRecord p n res); \<not> panics res; seed_record n res (cell_at s p, rsMgr s) = (mr, m)\<rbrakk>
     \<Longrightarrow> r_step ops s (goto t (RWatch p n) (set_cell p mr (s\<lparr>rsMgr := m\<rparr>)))"
| seed_panics:
    "\<lbrakk>at_pc s t (RRecord p n (Inl e)); is_panic e\<rbrakk>
     \<Longrightarrow> r_step ops s (goto t (RLeave p n) (set_cell p ((cell_at s p)\<lparr>mrSeedErr := Some e\<rparr>) s))"
| watch_contexts:
    "\<lbrakk>at_pc s t (RWatch p n); watch_context (cell_at s p, rsMgr s) = (mr, m)\<rbrakk>
     \<Longrightarrow> r_step ops s (goto t (ROpen p (length (mCtxs (rsMgr s))) n) (set_cell p mr (s\<lparr>rsMgr := m\<rparr>)))"
| watch_opens:
    "\<lbrakk>at_pc s t (ROpen p i n); watch_open ops i n (workloadTag (rsMgr s)) (rsMgr s) = (ok, m)\<rbrakk>
     \<Longrightarrow> r_step ops s (goto t (RLeave p n)
          (s\<lparr>rsMgr := m, rsCalls := rsCalls s @ [CallWatch n],
             rsWorkers := rsWorkers s @
               (if ok then [\<lparr>wkPtr = p,
                             wkLoop = \<lparr>wlCtx = i, wlName = n, wlTag = workloadTag (rsMgr s)\<rparr>,
                             wkGot = None\<rparr>]
                else [])\<rparr>))"
| once_leave:
    "at_pc s t (RLeave p n) \<Longrightarrow> r_step ops s (goto t (RRead (Some p) n) (set_once p OnceDone s))"
| reads:
    "at_pc s t (RRead (Some p) n) \<Longrightarrow>
     r_step ops s (goto t (RDone (Some p) n (view_of (cell_at s p))) s)"
| reads_private:
    "at_pc s t (RRead None n) \<Longrightarrow> r_step ops s (goto t (RDone None n (view_of new_resolver)) s)"
| loop_event:
    "\<lbrakk>k < length (rsWorkers s); wkGot (rsWorkers s ! k) = None; l = wkLoop (rsWorkers s ! k);
      call_resolve ops \<lparr>ctxDone = loop_done l (rsMgr s), ctxDeadline = None\<rparr> (wlName l) (wlTag l)
        (rsMgr s) = (res, m)\<rbrakk>
     \<Longrightarrow> r_step ops s (s\<lparr>rsMgr := m, rsCalls := rsCalls s @ [CallUpdate (wlName l)],
            rsWorkers := (rsWorkers s)[k := (rsWorkers s ! k)\<lparr>wkGot := Some res\<rparr>]\<rparr>)"
| loop_absorb:
    "\<lbrakk>k < length (rsWorkers s); wkGot (rsWorkers s ! k) = Some res; p = wkPtr (rsWorkers s ! k); \<not> panics res\<rbrakk>
     \<Longrightarrow> r_step ops s (set_cell p (cell.update res (cell_at s p))
          (s\<lparr>rsWorkers := (rsWorkers s)[k := (rsWorkers s ! k)\<lparr>wkGot := None\<rparr>]\<rparr>))"
| loop_panics:
    "\<lbrakk>k < length (rsWorkers s); wkGot (rsWorkers s ! k) = Some res; panics res\<rbrakk>
     \<Longrightarrow> r_step ops s (s\<lparr>rsWorkers := take k (rsWorkers s) @ drop (Suc k) (rsWorkers s)\<rparr>)"
| loop_exit:
    "\<lbrakk>k < length (rsWorkers s); wkGot (rsWorkers s ! k) = None\<rbrakk>
     \<Longrightarrow> r_step ops s (s\<lparr>rsWorkers := take k (rsWorkers s) @ drop (Suc k) (rsWorkers s)\<rparr>)"
| close_map:
    "\<not> mClosed (rsMgr s) \<Longrightarrow> r_step ops s (close_lock s)"
| close_backend:
    "\<lbrakk>mClosed (rsMgr s); mCloseErr (rsMgr s) = None; mRegistry (rsMgr s) = Some r\<rbrakk>
     \<Longrightarrow> r_step ops s (s\<lparr>rsMgr := (rsMgr s)
            \<lparr>mRegistry := Some (after_close ops r), mCloseErr := Some (close_error ops r)\<rparr>\<rparr>)"
| backend_request:
    "mRegistry (rsMgr s) = Some r \<Longrightarrow>
     r_step ops s (s\<lparr>rsMgr := (rsMgr s)\<lparr>mRegistry := Some (after_request ops q r)\<rparr>\<rparr>)"

abbreviation r_reach :: "'r registry_ops \<Rightarrow> 'r rsys \<Rightarrow> 'r rsys \<Rightarrow> bool" where
  "r_reach ops \<equiv> reach (r_step ops)"

lemmas r_first = reach_first [where step = "r_step ops"] for ops
lemmas r_intros = reach.intros [where step = "r_step ops"] for ops

definition start_sys :: "'r manager \<Rightarrow> 'r rsys" where
  "start_sys m = \<lparr>rsMgr = m, rsObjs = [], rsMap = [], rsThreads = [], rsWorkers = [], rsCalls = []\<rparr>"

text \<open>Run without a step of another in between, the pieces are the seed and the watch start.\<close>

lemma startManagedWatch_pieces:
  "startManagedWatch ops mr name tag m =
     (case watch_context (mr, m) of
        (mr1, m1) \<Rightarrow> (mr1, snd (watch_open ops (length (mCtxs m)) name tag m1)))"
  by (simp add: startManagedWatch_def watch_context_def watch_open_def Let_def
      split: prod.splits option.splits)

lemma seedManagedResolver_pieces:
  assumes "seed_call ops c name m = (res, m1)" "\<not> panics res"
  shows "seedManagedResolver ops c mr name m =
     (case seed_record name res (mr, m1) of (mr2, m2) \<Rightarrow> startManagedWatch ops mr2 name (workloadTag m) m2)"
  using assms
  by (auto simp: seedManagedResolver_def seed_call_def seed_record_def call_resolve_def Let_def
      split: prod.splits sum.splits option.splits)

lemma seedManagedResolver_panics:
  "seed_call ops c name m = (Inl e, m1) \<Longrightarrow> is_panic e \<Longrightarrow>
     seedManagedResolver ops c mr name m = (mr\<lparr>mrSeedErr := Some e\<rparr>, m1)"
  by (simp add: seedManagedResolver_def seed_call_def Let_def)

section \<open>The invariant\<close>

text \<open>The resolver a thread is seeding: it is inside that resolver's \<open>once.Do\<close>.\<close>

fun inside :: "rpc \<Rightarrow> nat option" where
  "inside (RSeed p c n) = Some p"
| "inside (RRecord p n res) = Some p"
| "inside (RWatch p n) = Some p"
| "inside (ROpen p i n) = Some p"
| "inside (RLeave p n) = Some p"
| "inside pc = None"

definition recorded :: "managed_resolver \<Rightarrow> bool" where
  "recorded mr \<longleftrightarrow> mrOnce mr \<and> (mrSeeded mr \<or> mrAuthEmpty mr \<or> mrSeedErr mr \<noteq> None)"

definition owns :: "robj list \<Rightarrow> nat \<Rightarrow> string \<Rightarrow> bool" where
  "owns obs p n \<longleftrightarrow> p < length obs \<and> obName (obs ! p) = n"

definition entered :: managed_resolver where
  "entered = new_resolver\<lparr>mrOnce := True\<rparr>"

fun pc_ok :: "bool \<Rightarrow> robj list \<Rightarrow> bcall list \<Rightarrow> rpc \<Rightarrow> bool" where
  "pc_ok cl obs cs (ROnce p c n) \<longleftrightarrow> owns obs p n"
| "pc_ok cl obs cs (RSeed p c n) \<longleftrightarrow> owns obs p n \<and> obOnce (obs ! p) = OnceRunning
     \<and> obCell (obs ! p) = entered \<and> CallSeed n \<notin> set cs \<and> CallWatch n \<notin> set cs"
| "pc_ok cl obs cs (RRecord p n res) \<longleftrightarrow> owns obs p n \<and> obOnce (obs ! p) = OnceRunning
     \<and> obCell (obs ! p) = entered \<and> CallWatch n \<notin> set cs"
| "pc_ok cl obs cs (RWatch p n) \<longleftrightarrow> owns obs p n \<and> obOnce (obs ! p) = OnceRunning
     \<and> recorded (obCell (obs ! p)) \<and> CallWatch n \<notin> set cs"
| "pc_ok cl obs cs (ROpen p i n) \<longleftrightarrow> owns obs p n \<and> obOnce (obs ! p) = OnceRunning
     \<and> recorded (obCell (obs ! p)) \<and> CallWatch n \<notin> set cs"
| "pc_ok cl obs cs (RLeave p n) \<longleftrightarrow> owns obs p n \<and> obOnce (obs ! p) = OnceRunning
     \<and> recorded (obCell (obs ! p))"
| "pc_ok cl obs cs (RRead (Some p) n) \<longleftrightarrow> owns obs p n \<and> obOnce (obs ! p) = OnceDone"
| "pc_ok cl obs cs (RRead None n) \<longleftrightarrow> cl"
| "pc_ok cl obs cs (RDone (Some p) n v) \<longleftrightarrow> owns obs p n \<and> (\<exists>mr. recorded mr \<and> v = view_of mr)"
| "pc_ok cl obs cs (RDone None n v) \<longleftrightarrow> cl \<and> v = view_of new_resolver"
| "pc_ok cl obs cs pc \<longleftrightarrow> True"

text \<open>The objects and the map: one object per name, reachable by its name until Close.\<close>

definition objs_ok :: "bool \<Rightarrow> robj list \<Rightarrow> (string \<times> nat) list \<Rightarrow> bcall list \<Rightarrow> bool" where
  "objs_ok cl obs mp cs \<longleftrightarrow>
     distinct (map obName obs) \<and> distinct (map fst mp)
     \<and> (\<forall>n p. map_of mp n = Some p \<longrightarrow> owns obs p n)
     \<and> (if cl then mp = [] else \<forall>p<length obs. map_of mp (obName (obs ! p)) = Some p)
     \<and> (\<forall>p<length obs. obOnce (obs ! p) = OnceIdle \<longrightarrow> obCell (obs ! p) = new_resolver
          \<and> CallSeed (obName (obs ! p)) \<notin> set cs \<and> CallWatch (obName (obs ! p)) \<notin> set cs)
     \<and> (\<forall>p<length obs. obOnce (obs ! p) = OnceDone \<longrightarrow> recorded (obCell (obs ! p)))"

definition threads_ok :: "bool \<Rightarrow> robj list \<Rightarrow> bcall list \<Rightarrow> rpc list \<Rightarrow> bool" where
  "threads_ok cl obs cs th \<longleftrightarrow>
     (\<forall>t<length th. pc_ok cl obs cs (th ! t))
     \<and> (\<forall>t<length th. \<forall>u<length th. \<forall>p. inside (th ! t) = Some p \<longrightarrow> inside (th ! u) = Some p \<longrightarrow> t = u)
     \<and> (\<forall>p<length obs. obOnce (obs ! p) = OnceRunning \<longrightarrow> (\<exists>t<length th. inside (th ! t) = Some p))"

definition calls_ok :: "robj list \<Rightarrow> bcall list \<Rightarrow> bool" where
  "calls_ok obs cs \<longleftrightarrow>
     (\<forall>n. count_list cs (CallSeed n) \<le> 1 \<and> count_list cs (CallWatch n) \<le> 1
        \<and> (CallSeed n \<in> set cs \<or> CallWatch n \<in> set cs \<longrightarrow> n \<in> obName ` set obs))"

definition workers_ok :: "robj list \<Rightarrow> bcall list \<Rightarrow> worker list \<Rightarrow> bool" where
  "workers_ok obs cs wk \<longleftrightarrow>
     distinct (map wkPtr wk)
     \<and> (\<forall>w \<in> set wk. owns obs (wkPtr w) (wlName (wkLoop w))
          \<and> CallWatch (wlName (wkLoop w)) \<in> set cs \<and> recorded (obCell (obs ! wkPtr w)))"

definition r_inv :: "'r rsys \<Rightarrow> bool" where
  "r_inv s \<longleftrightarrow>
     mBaseDone (rsMgr s) = mClosed (rsMgr s)
     \<and> objs_ok (mClosed (rsMgr s)) (rsObjs s) (rsMap s) (rsCalls s)
     \<and> threads_ok (mClosed (rsMgr s)) (rsObjs s) (rsCalls s) (rsThreads s)
     \<and> calls_ok (rsObjs s) (rsCalls s)
     \<and> workers_ok (rsObjs s) (rsCalls s) (rsWorkers s)"

lemma r_invI:
  assumes "mBaseDone (rsMgr s) = mClosed (rsMgr s)"
    and "objs_ok (mClosed (rsMgr s)) (rsObjs s) (rsMap s) (rsCalls s)"
    and "threads_ok (mClosed (rsMgr s)) (rsObjs s) (rsCalls s) (rsThreads s)"
    and "calls_ok (rsObjs s) (rsCalls s)" and "workers_ok (rsObjs s) (rsCalls s) (rsWorkers s)"
  shows "r_inv s"
  using assms by (simp add: r_inv_def)

lemma r_invD:
  assumes "r_inv s"
  shows "mBaseDone (rsMgr s) = mClosed (rsMgr s)"
    "objs_ok (mClosed (rsMgr s)) (rsObjs s) (rsMap s) (rsCalls s)"
    "threads_ok (mClosed (rsMgr s)) (rsObjs s) (rsCalls s) (rsThreads s)"
    "calls_ok (rsObjs s) (rsCalls s)" "workers_ok (rsObjs s) (rsCalls s) (rsWorkers s)"
  using assms by (simp_all add: r_inv_def)

lemma pc_at: "threads_ok cl obs cs (rsThreads s) \<Longrightarrow> at_pc s t pc \<Longrightarrow> pc_ok cl obs cs pc"
  by (auto simp: threads_ok_def at_pc_def)

lemma goto_fields [simp]:
  "rsMgr (goto t pc s) = rsMgr s" "rsObjs (goto t pc s) = rsObjs s" "rsMap (goto t pc s) = rsMap s"
  "rsThreads (goto t pc s) = (rsThreads s)[t := pc]" "rsWorkers (goto t pc s) = rsWorkers s"
  "rsCalls (goto t pc s) = rsCalls s"
  by (simp_all add: goto_def)

lemma set_fields [simp]:
  "rsMgr (set_cell p mr s) = rsMgr s" "rsMap (set_cell p mr s) = rsMap s"
  "rsThreads (set_cell p mr s) = rsThreads s" "rsWorkers (set_cell p mr s) = rsWorkers s"
  "rsCalls (set_cell p mr s) = rsCalls s"
  "rsObjs (set_cell p mr s) = (rsObjs s)[p := (rsObjs s ! p)\<lparr>obCell := mr\<rparr>]"
  "rsMgr (set_once p x s) = rsMgr s" "rsMap (set_once p x s) = rsMap s"
  "rsThreads (set_once p x s) = rsThreads s" "rsWorkers (set_once p x s) = rsWorkers s"
  "rsCalls (set_once p x s) = rsCalls s"
  "rsObjs (set_once p x s) = (rsObjs s)[p := (rsObjs s ! p)\<lparr>obOnce := x\<rparr>]"
  by (simp_all add: set_cell_def set_once_def)

text \<open>A thread that moves without entering or leaving \<open>once.Do\<close>, nothing else changing.\<close>

lemma threads_move:
  assumes "threads_ok cl obs cs th" "t < length th" "inside pc = inside (th ! t)" "pc_ok cl obs cs pc"
  shows "threads_ok cl obs cs (th[t := pc])"
  using assms unfolding threads_ok_def by (auto simp: nth_list_update)

text \<open>What the other threads see of a change to one object and to the calls for its name.\<close>

definition touches :: "nat \<Rightarrow> robj list \<Rightarrow> bcall list \<Rightarrow> robj list \<Rightarrow> bcall list \<Rightarrow> bool" where
  "touches p obs cs obs' cs' \<longleftrightarrow>
     p < length obs \<and> length obs' = length obs \<and> distinct (map obName obs)
     \<and> (\<forall>q<length obs. obName (obs' ! q) = obName (obs ! q))
     \<and> (\<forall>q<length obs. q \<noteq> p \<longrightarrow> obs' ! q = obs ! q)
     \<and> (obOnce (obs ! p) = OnceDone \<longrightarrow> obOnce (obs' ! p) = OnceDone)
     \<and> (\<forall>n. n \<noteq> obName (obs ! p) \<longrightarrow>
          (CallSeed n \<in> set cs' \<longleftrightarrow> CallSeed n \<in> set cs) \<and> (CallWatch n \<in> set cs' \<longleftrightarrow> CallWatch n \<in> set cs))"

lemma other_name:
  "touches p obs cs obs' cs' \<Longrightarrow> q < length obs \<Longrightarrow> q \<noteq> p \<Longrightarrow> obName (obs ! q) \<noteq> obName (obs ! p)"
  by (auto simp: touches_def distinct_conv_nth)

lemma pc_touch:
  assumes T: "touches p obs cs obs' cs'" and ok: "pc_ok cl obs cs pc" and "inside pc \<noteq> Some p"
  shows "pc_ok cl obs' cs' pc"
proof -
  have own: "owns obs' q n \<longleftrightarrow> owns obs q n" for q n
    using T by (auto simp: owns_def touches_def)
  have done_at: "obOnce (obs' ! q) = OnceDone" if "owns obs q n" "obOnce (obs ! q) = OnceDone" for q n
    using T that by (cases "q = p") (auto simp: owns_def touches_def)
  have same: "obs' ! q = obs ! q" "CallSeed n \<in> set cs' \<longleftrightarrow> CallSeed n \<in> set cs"
      "CallWatch n \<in> set cs' \<longleftrightarrow> CallWatch n \<in> set cs" if "owns obs q n" "q \<noteq> p" for q n
    using T that other_name [OF T, of q] by (auto simp: owns_def touches_def)
  show ?thesis
    using ok assms(3) done_at same
    by (cases "(cl, obs', cs', pc)" rule: pc_ok.cases) (auto simp: own)
qed

text \<open>A thread works on the object it is inside of, may enter it, and may leave it.\<close>

lemma threads_touch:
  assumes th: "threads_ok cl obs cs th" and t: "t < length th" and T: "touches p obs cs obs' cs'"
    and before: "inside (th ! t) = Some p \<or> inside (th ! t) = None \<and> obOnce (obs ! p) \<noteq> OnceRunning"
    and after: "inside pc = Some p \<or> inside pc = None \<and> obOnce (obs' ! p) \<noteq> OnceRunning"
    and pc: "pc_ok cl obs' cs' pc"
  shows "threads_ok cl obs' cs' (th[t := pc])"
proof -
  have busy: "obOnce (obs ! q) = OnceRunning" if "u < length th" "inside (th ! u) = Some q" for u q
  proof -
    have "pc_ok cl obs cs (th ! u)" using th that(1) by (simp add: threads_ok_def)
    then show ?thesis using that(2) by (cases "th ! u") auto
  qed
  have others: "inside (th ! u) \<noteq> Some p" if "u < length th" "u \<noteq> t" for u
    using th t that before busy [OF that(1)] unfolding threads_ok_def by metis
  have 1: "\<forall>u<length (th[t := pc]). pc_ok cl obs' cs' (th[t := pc] ! u)"
  proof (intro allI impI)
    fix u assume "u < length (th[t := pc])"
    then show "pc_ok cl obs' cs' (th[t := pc] ! u)"
      using th pc pc_touch [OF T] others by (cases "u = t") (auto simp: threads_ok_def)
  qed
  have 2: "u = v" if "u < length th" "v < length th" "inside (th[t := pc] ! u) = Some q"
      "inside (th[t := pc] ! v) = Some q" for u v q
    using that others after th unfolding threads_ok_def
    by (metis length_list_update nth_list_update_eq nth_list_update_neq option.distinct(1) option.inject)
  have 3: "\<exists>u<length th. inside (th[t := pc] ! u) = Some q"
    if q: "q < length obs" "obOnce (obs' ! q) = OnceRunning" for q
  proof (cases "q = p")
    case True
    then show ?thesis using after q(2) t by (intro exI [of _ t]) auto
  next
    case False
    then have "obOnce (obs ! q) = OnceRunning" using T q by (auto simp: touches_def)
    then obtain u where "u < length th" "inside (th ! u) = Some q"
      using th q(1) unfolding threads_ok_def by blast
    then show ?thesis using False before by (intro exI [of _ u]) (cases "u = t"; auto)
  qed
  show ?thesis using 1 2 3 T by (simp add: threads_ok_def touches_def)
qed

lemma same_object: "objs_ok cl obs mp cs \<Longrightarrow> owns obs p n \<Longrightarrow> owns obs q n \<Longrightarrow> p = q"
  by (auto simp: objs_ok_def owns_def distinct_conv_nth)

lemma touch_names: "touches p obs cs obs' cs' \<Longrightarrow> map obName obs' = map obName obs"
  by (auto simp: touches_def intro: nth_equalityI)

lemma touch_owns: "touches p obs cs obs' cs' \<Longrightarrow> owns obs' q n \<longleftrightarrow> owns obs q n"
  by (auto simp: owns_def touches_def)

lemma objs_touch:
  assumes ok: "objs_ok cl obs mp cs" and T: "touches p obs cs obs' cs'"
    and p: "obOnce (obs' ! p) \<noteq> OnceIdle"
      "obOnce (obs' ! p) = OnceDone \<Longrightarrow> recorded (obCell (obs' ! p))"
  shows "objs_ok cl obs' mp cs'"
proof -
  have q: "obs' ! q = obs ! q" "CallSeed (obName (obs ! q)) \<in> set cs' \<longleftrightarrow> CallSeed (obName (obs ! q)) \<in> set cs"
      "CallWatch (obName (obs ! q)) \<in> set cs' \<longleftrightarrow> CallWatch (obName (obs ! q)) \<in> set cs"
    if "q < length obs" "q \<noteq> p" for q
    using T that other_name [OF T that] by (auto simp: touches_def)
  have idle: "obCell (obs' ! q) = new_resolver \<and> CallSeed (obName (obs' ! q)) \<notin> set cs'
      \<and> CallWatch (obName (obs' ! q)) \<notin> set cs'"
    if "q < length obs" "obOnce (obs' ! q) = OnceIdle" for q
    using ok p(1) q [of q] that by (cases "q = p") (auto simp: objs_ok_def)
  have rec: "recorded (obCell (obs' ! q))" if "q < length obs" "obOnce (obs' ! q) = OnceDone" for q
    using ok p(2) q [of q] that by (cases "q = p") (auto simp: objs_ok_def)
  have "length obs' = length obs" "\<forall>q<length obs. obName (obs' ! q) = obName (obs ! q)"
    using T by (simp_all add: touches_def)
  with ok idle rec show ?thesis
    unfolding objs_ok_def touch_names [OF T] touch_owns [OF T] by simp
qed

lemma workers_touch:
  assumes "workers_ok obs cs wk" and T: "touches p obs cs obs' cs'" and "set cs \<subseteq> set cs'"
    and "recorded (obCell (obs ! p)) \<Longrightarrow> recorded (obCell (obs' ! p))"
  shows "workers_ok obs' cs' wk"
proof -
  have "recorded (obCell (obs' ! q))" if "owns obs q n" "recorded (obCell (obs ! q))" for q n
    using T that assms(4) by (cases "q = p") (auto simp: owns_def touches_def)
  then show ?thesis using assms(1,3) unfolding workers_ok_def touch_owns [OF T] by blast
qed

lemma calls_touch:
  assumes "calls_ok obs cs" and T: "touches p obs cs obs' cs'"
    and "cs' = cs \<or> (\<exists>x n. cs' = cs @ [x] \<and> owns obs p n \<and> x \<notin> set cs \<and> x \<in> {CallSeed n, CallWatch n})"
  shows "calls_ok obs' cs'"
proof -
  have "obName ` set obs' = obName ` set obs" using touch_names [OF T] by (metis set_map)
  moreover have "obName (obs ! p) \<in> obName ` set obs" using T by (simp add: touches_def)
  ultimately show ?thesis
    using assms(1,3) by (auto simp: calls_ok_def owns_def count_list_0_iff split: if_splits)
qed

text \<open>One thread's step on one object keeps the invariant.\<close>

lemma touch_inv:
  assumes inv: "r_inv s" and t: "at_pc s t pc0" and T: "touches p (rsObjs s) (rsCalls s) obs' cs'"
    and before: "inside pc0 = Some p \<or> inside pc0 = None \<and> obOnce (rsObjs s ! p) \<noteq> OnceRunning"
    and after: "inside pc = Some p \<or> inside pc = None \<and> obOnce (obs' ! p) \<noteq> OnceRunning"
    and pc: "pc_ok (mClosed (rsMgr s)) obs' cs' pc"
    and p: "obOnce (obs' ! p) \<noteq> OnceIdle" "obOnce (obs' ! p) = OnceDone \<Longrightarrow> recorded (obCell (obs' ! p))"
      "recorded (obCell (rsObjs s ! p)) \<Longrightarrow> recorded (obCell (obs' ! p))"
    and cs: "cs' = rsCalls s \<or> (\<exists>x n. cs' = rsCalls s @ [x] \<and> owns (rsObjs s) p n
      \<and> x \<notin> set (rsCalls s) \<and> x \<in> {CallSeed n, CallWatch n})"
    and u: "rsObjs u = obs'" "rsCalls u = cs'" "rsMap u = rsMap s" "rsThreads u = (rsThreads s)[t := pc]"
      "mClosed (rsMgr u) = mClosed (rsMgr s)" "mBaseDone (rsMgr u) = mBaseDone (rsMgr s)"
    and wk: "workers_ok obs' cs' (rsWorkers s) \<Longrightarrow> workers_ok obs' cs' (rsWorkers u)"
  shows "r_inv u"
proof (rule r_invI; unfold u)
  note D = r_invD [OF inv]
  have sub: "set (rsCalls s) \<subseteq> set cs'" using cs by auto
  show "mBaseDone (rsMgr s) = mClosed (rsMgr s)" using D(1) .
  show "objs_ok (mClosed (rsMgr s)) obs' (rsMap s) cs'" using objs_touch [OF D(2) T p(1,2)] .
  show "threads_ok (mClosed (rsMgr s)) obs' cs' ((rsThreads s)[t := pc])"
    using threads_touch [OF D(3) _ T _ after pc] t before by (simp add: at_pc_def)
  show "calls_ok obs' cs'" using calls_touch [OF D(4) T cs] .
  show "workers_ok obs' cs' (rsWorkers u)" using wk workers_touch [OF D(5) T sub p(3)] by blast
qed

section \<open>Every step keeps it\<close>

lemma touches_upd:
  assumes "objs_ok cl obs mp cs" "owns obs p n" "obName x = n"
    and "obOnce (obs ! p) = OnceDone \<Longrightarrow> obOnce x = OnceDone"
  shows "touches p obs cs (obs[p := x]) cs"
  using assms by (auto simp: touches_def owns_def objs_ok_def nth_list_update)

lemma call_resolve_frame:
  assumes "call_resolve ops c n tag m = (res, m')"
  shows "mClosed m' = mClosed m" "mBaseDone m' = mBaseDone m" "mCtxs m' = mCtxs m"
    "mWorkload m' = mWorkload m" "mSeedTimeout m' = mSeedTimeout m" "mCloseErr m' = mCloseErr m"
    "mResolvers m' = mResolvers m" "mLoops m' = mLoops m" "mConfig m' = mConfig m"
  using assms by (auto simp: call_resolve_def split: option.splits prod.splits)

lemma seed_record_frame:
  assumes "seed_record n res (mr, m) = (mr', m')"
  shows "mClosed m' = mClosed m" "mBaseDone m' = mBaseDone m" "mCtxs m' = mCtxs m"
    "mrOnce mr \<Longrightarrow> recorded mr'"
  using assms
  by (auto simp: seed_record_def m_log_def mr_store_def recorded_def split: sum.splits)

lemma watch_open_frame:
  assumes "watch_open ops i n tag m = (ok, m')"
  shows "mClosed m' = mClosed m" "mBaseDone m' = mBaseDone m"
  using assms
  by (auto simp: watch_open_def call_watch_def m_log_def Let_def split: option.splits prod.splits)

lemma recorded_update: "recorded mr \<Longrightarrow> recorded (cell.update res mr)"
  by (auto simp: recorded_def cell.update_def mr_store_def mr_clear_def split: sum.splits)

text \<open>Steps of a thread that touch nothing but its program counter.\<close>

lemma move_inv:
  assumes "r_inv s" and "at_pc s t pc0" and "inside pc = inside pc0"
    and "pc_ok (mClosed (rsMgr s)) (rsObjs s) (rsCalls s) pc"
  shows "r_inv (goto t pc s)"
  using assms threads_move [of _ _ _ "rsThreads s" t pc]
  by (auto simp: r_inv_def at_pc_def)

text \<open>Changes of the manager's record that keep its two flags.\<close>

lemma mgr_change_inv:
  assumes "r_inv s" and "mClosed m = mClosed (rsMgr s)" and "mBaseDone m = mBaseDone (rsMgr s)"
  shows "r_inv (s\<lparr>rsMgr := m\<rparr>)"
  using assms by (simp add: r_inv_def)

lemma map_owns: "objs_ok cl obs mp cs \<Longrightarrow> map_of mp n = Some p \<Longrightarrow> owns obs p n"
  by (simp add: objs_ok_def)

lemma spawn_inv: "r_inv s \<Longrightarrow> r_inv (s\<lparr>rsThreads := rsThreads s @ [RStart c n]\<rparr>)"
  by (fastforce simp: r_inv_def threads_ok_def nth_append less_Suc_eq)

lemma insert_inv:
  assumes inv: "r_inv s" and t: "at_pc s t (RSlow c n)" and "\<not> mClosed (rsMgr s)"
    and "map_of (rsMap s) n = None" and "p = length (rsObjs s)"
  shows "r_inv (goto t (ROnce p c n)
      (s\<lparr>rsObjs := rsObjs s @ [\<lparr>obName = n, obCell = new_resolver, obOnce = OnceIdle\<rparr>],
         rsMap := AList.update n p (rsMap s)\<rparr>))"
    (is "r_inv ?u")
proof -
  note D = r_invD [OF inv]
  let ?new = "\<lparr>obName = n, obCell = new_resolver, obOnce = OnceIdle\<rparr>" and ?obs = "rsObjs s"
  have fresh: "n \<notin> obName ` set ?obs"
    using D(2) assms(3,4) by (auto simp: objs_ok_def in_set_conv_nth simp del: map_of_eq_Some_iff)
  then have nocall: "CallSeed n \<notin> set (rsCalls s)" "CallWatch n \<notin> set (rsCalls s)"
    using D(4) by (auto simp: calls_ok_def)
  have own: "owns (?obs @ [?new]) q k" if "owns ?obs q k" for q k
    using that by (simp add: owns_def nth_append)
  have keep: "pc_ok False (?obs @ [?new]) (rsCalls s) pc" if "pc_ok False ?obs (rsCalls s) pc" for pc
    using that own
    by (cases "(False, ?obs, rsCalls s, pc)" rule: pc_ok.cases) (auto simp: nth_append owns_def)
  have "objs_ok False (?obs @ [?new]) (AList.update n p (rsMap s)) (rsCalls s)"
    unfolding objs_ok_def
  proof (intro conjI)
    show "distinct (map obName (?obs @ [?new]))" using D(2) fresh by (simp add: objs_ok_def)
    show "\<forall>k q. map_of (AList.update n p (rsMap s)) k = Some q \<longrightarrow> owns (?obs @ [?new]) q k"
      using own [OF map_owns [OF D(2)]] assms(5) by (simp add: update_conv') (simp add: owns_def)
    have "map_of (AList.update n p (rsMap s)) (obName ((?obs @ [?new]) ! q)) = Some q"
      if "q < Suc (length ?obs)" for q
    proof (cases "q < length ?obs")
      case True
      then have "obName (?obs ! q) \<noteq> n" using fresh by auto
      then show ?thesis using True D(2) assms(3) by (simp add: update_conv' nth_append objs_ok_def)
    next
      case False
      then show ?thesis using that assms(5) by (simp add: update_conv' nth_append less_Suc_eq)
    qed
    then show "if False then AList.update n p (rsMap s) = []
      else \<forall>q<length (?obs @ [?new]).
        map_of (AList.update n p (rsMap s)) (obName ((?obs @ [?new]) ! q)) = Some q" by simp
  qed (use D(2) nocall in \<open>simp_all add: objs_ok_def nth_append less_Suc_eq distinct_update\<close>)
  moreover have "threads_ok False (?obs @ [?new]) (rsCalls s) (rsThreads s)"
    using D(3) assms(3) keep by (auto simp: threads_ok_def nth_append less_Suc_eq)
  then have "threads_ok False (?obs @ [?new]) (rsCalls s) ((rsThreads s)[t := ROnce p c n])"
    using t assms(5) by (intro threads_move) (auto simp: at_pc_def owns_def)
  moreover have "calls_ok (?obs @ [?new]) (rsCalls s)" using D(4) by (auto simp: calls_ok_def)
  moreover have "workers_ok (?obs @ [?new]) (rsCalls s) (rsWorkers s)"
    using D(5) by (auto simp: workers_ok_def owns_def nth_append)
  ultimately show ?thesis using D(1) assms(3) by (intro r_invI) simp_all
qed

lemma rest_of_thread:
  assumes "r_inv s" "at_pc s t pc"
  shows "pc_ok (mClosed (rsMgr s)) (rsObjs s) (rsCalls s) pc"
  using pc_at [OF r_invD(3) [OF assms(1)] assms(2)] .

lemma once_enter_inv:
  assumes inv: "r_inv s" and t: "at_pc s t (ROnce p c n)" and idle: "obOnce (rsObjs s ! p) = OnceIdle"
  shows "r_inv (goto t (RSeed p c n)
      (set_cell p ((cell_at s p)\<lparr>mrOnce := True\<rparr>) (set_once p OnceRunning s)))"
proof -
  have own: "owns (rsObjs s) p n" using rest_of_thread [OF inv t] by simp
  then have p: "p < length (rsObjs s)" "obName (rsObjs s ! p) = n" by (simp_all add: owns_def)
  note O = r_invD(2) [OF inv]
  have cell: "cell_at s p = new_resolver" and calls: "CallSeed n \<notin> set (rsCalls s)" "CallWatch n \<notin> set (rsCalls s)"
    using O p idle by (auto simp: objs_ok_def)
  have T: "touches p (rsObjs s) (rsCalls s)
      ((rsObjs s)[p := (rsObjs s ! p)\<lparr>obOnce := OnceRunning, obCell := entered\<rparr>]) (rsCalls s)"
    using O own idle p by (intro touches_upd) auto
  show ?thesis
    by (rule touch_inv [OF inv t T]) (use idle p cell calls own in
      \<open>simp_all add: owns_def entered_def recorded_def new_resolver_def\<close>)
qed

lemma seed_calls_inv:
  assumes inv: "r_inv s" and t: "at_pc s t (RSeed p c n)"
    and call: "seed_call ops c n (rsMgr s) = (res, m)"
  shows "r_inv (goto t (RRecord p n res) (s\<lparr>rsMgr := m, rsCalls := rsCalls s @ [CallSeed n]\<rparr>))"
proof -
  note ok = rest_of_thread [OF inv t]
  then have p: "p < length (rsObjs s)" "obName (rsObjs s ! p) = n" by (simp_all add: owns_def)
  have T: "touches p (rsObjs s) (rsCalls s) (rsObjs s) (rsCalls s @ [CallSeed n])"
    using r_invD(2) [OF inv] p by (auto simp: touches_def objs_ok_def)
  show ?thesis
    by (rule touch_inv [OF inv t T])
       (use ok p call_resolve_frame(1,2) [OF call [unfolded seed_call_def]] in auto)
qed

lemma seed_records_inv:
  assumes inv: "r_inv s" and t: "at_pc s t (RRecord p n res)"
    and rec: "seed_record n res (cell_at s p, rsMgr s) = (mr, m)"
  shows "r_inv (goto t (RWatch p n) (set_cell p mr (s\<lparr>rsMgr := m\<rparr>)))"
proof -
  note ok = rest_of_thread [OF inv t]
  then have p: "p < length (rsObjs s)" "obName (rsObjs s ! p) = n" by (simp_all add: owns_def)
  have mr: "recorded mr" using ok seed_record_frame(4) [OF rec] by (simp add: entered_def)
  have T: "touches p (rsObjs s) (rsCalls s) ((rsObjs s)[p := (rsObjs s ! p)\<lparr>obCell := mr\<rparr>]) (rsCalls s)"
    using r_invD(2) [OF inv] ok p by (intro touches_upd) auto
  show ?thesis
    by (rule touch_inv [OF inv t T])
       (use ok p mr seed_record_frame(1,2) [OF rec] in \<open>simp_all add: owns_def\<close>)
qed

lemma seed_panics_inv:
  assumes inv: "r_inv s" and t: "at_pc s t (RRecord p n (Inl e))"
  shows "r_inv (goto t (RLeave p n) (set_cell p ((cell_at s p)\<lparr>mrSeedErr := Some e\<rparr>) s))"
proof -
  note ok = rest_of_thread [OF inv t]
  then have p: "p < length (rsObjs s)" "obName (rsObjs s ! p) = n" by (simp_all add: owns_def)
  let ?mr = "(cell_at s p)\<lparr>mrSeedErr := Some e\<rparr>"
  have mr: "recorded ?mr" using ok by (simp add: entered_def recorded_def)
  have T: "touches p (rsObjs s) (rsCalls s) ((rsObjs s)[p := (rsObjs s ! p)\<lparr>obCell := ?mr\<rparr>]) (rsCalls s)"
    using r_invD(2) [OF inv] ok p by (intro touches_upd) auto
  show ?thesis by (rule touch_inv [OF inv t T]) (use ok p mr r_invD(1) [OF inv] in \<open>simp_all add: owns_def\<close>)
qed

lemma watch_contexts_inv:
  assumes inv: "r_inv s" and t: "at_pc s t (RWatch p n)"
    and w: "watch_context (cell_at s p, rsMgr s) = (mr, m)"
  shows "r_inv (goto t (ROpen p i n) (set_cell p mr (s\<lparr>rsMgr := m\<rparr>)))"
proof -
  note ok = rest_of_thread [OF inv t]
  then have p: "p < length (rsObjs s)" "obName (rsObjs s ! p) = n" by (simp_all add: owns_def)
  have mr: "recorded mr" and m: "mClosed m = mClosed (rsMgr s)" "mBaseDone m = mBaseDone (rsMgr s)"
    using ok w by (auto simp: watch_context_def recorded_def)
  have T: "touches p (rsObjs s) (rsCalls s) ((rsObjs s)[p := (rsObjs s ! p)\<lparr>obCell := mr\<rparr>]) (rsCalls s)"
    using r_invD(2) [OF inv] ok p by (intro touches_upd) auto
  show ?thesis
    by (rule touch_inv [OF inv t T]) (use ok p mr m in \<open>simp_all add: owns_def\<close>)
qed

lemma watch_opens_inv:
  assumes inv: "r_inv s" and t: "at_pc s t (ROpen p i n)"
    and w: "watch_open ops i n tag (rsMgr s) = (ok, m)"
  shows "r_inv (goto t (RLeave p n)
      (s\<lparr>rsMgr := m, rsCalls := rsCalls s @ [CallWatch n],
         rsWorkers := rsWorkers s @
           (if ok then [\<lparr>wkPtr = p, wkLoop = \<lparr>wlCtx = i, wlName = n, wlTag = tag\<rparr>, wkGot = None\<rparr>]
            else [])\<rparr>))"
proof -
  note pc = rest_of_thread [OF inv t]
  then have p: "p < length (rsObjs s)" "obName (rsObjs s ! p) = n" by (simp_all add: owns_def)
  have T: "touches p (rsObjs s) (rsCalls s) (rsObjs s) (rsCalls s @ [CallWatch n])"
    using r_invD(2) [OF inv] p by (auto simp: touches_def objs_ok_def)
  have new: "p \<notin> wkPtr ` set (rsWorkers s)"
    using r_invD(5) [OF inv] pc p by (auto simp: workers_ok_def owns_def)
  show ?thesis
    by (rule touch_inv [OF inv t T])
       (use pc p new watch_open_frame [OF w] in \<open>auto simp: workers_ok_def\<close>)
qed

lemma once_leave_inv:
  assumes inv: "r_inv s" and t: "at_pc s t (RLeave p n)"
  shows "r_inv (goto t (RRead (Some p) n) (set_once p OnceDone s))"
proof -
  note ok = rest_of_thread [OF inv t]
  then have p: "p < length (rsObjs s)" "obName (rsObjs s ! p) = n" by (simp_all add: owns_def)
  have T: "touches p (rsObjs s) (rsCalls s) ((rsObjs s)[p := (rsObjs s ! p)\<lparr>obOnce := OnceDone\<rparr>]) (rsCalls s)"
    using r_invD(2) [OF inv] ok p by (intro touches_upd) auto
  show ?thesis
    by (rule touch_inv [OF inv t T]) (use ok p in \<open>simp_all add: owns_def\<close>)
qed

text \<open>What a worker waits for is not part of the invariant.\<close>

lemma workers_relabel:
  assumes "map wkPtr wk' = map wkPtr wk" "map wkLoop wk' = map wkLoop wk" "workers_ok obs cs wk"
  shows "workers_ok obs cs wk'"
proof -
  have len: "length wk' = length wk" using assms(1) map_eq_imp_length_eq by blast
  then have "wkPtr (wk' ! i) = wkPtr (wk ! i)" "wkLoop (wk' ! i) = wkLoop (wk ! i)" if "i < length wk" for i
    using that assms(1,2) by (metis nth_map)+
  then show ?thesis using assms len by (simp add: workers_ok_def all_set_conv_all_nth)
qed

lemma got_labels:
  "map wkPtr (wk[k := (wk ! k)\<lparr>wkGot := g\<rparr>]) = map wkPtr wk"
  "map wkLoop (wk[k := (wk ! k)\<lparr>wkGot := g\<rparr>]) = map wkLoop wk"
  by (cases "k < length wk"; auto intro!: nth_equalityI simp: nth_list_update)+

lemma loop_event_inv:
  assumes inv: "r_inv s" and call: "call_resolve ops c n tag (rsMgr s) = (res, m)"
  shows "r_inv (s\<lparr>rsMgr := m, rsCalls := rsCalls s @ [CallUpdate x],
      rsWorkers := (rsWorkers s)[k := (rsWorkers s ! k)\<lparr>wkGot := g\<rparr>]\<rparr>)"
proof (rule r_invI; simp add: call_resolve_frame [OF call])
  note D = r_invD [OF inv]
  let ?cs = "rsCalls s @ [CallUpdate x]" and ?wk = "(rsWorkers s)[k := (rsWorkers s ! k)\<lparr>wkGot := g\<rparr>]"
  have calls: "CallSeed n \<in> set ?cs \<longleftrightarrow> CallSeed n \<in> set (rsCalls s)"
    "CallWatch n \<in> set ?cs \<longleftrightarrow> CallWatch n \<in> set (rsCalls s)" for n by simp_all
  show "mBaseDone (rsMgr s) = mClosed (rsMgr s)" using D(1) .
  show "objs_ok (mClosed (rsMgr s)) (rsObjs s) (rsMap s) ?cs"
    using D(2) unfolding objs_ok_def calls .
  have "pc_ok cl obs ?cs pc \<longleftrightarrow> pc_ok cl obs (rsCalls s) pc" for cl obs pc
    by (cases "(cl, obs, rsCalls s, pc)" rule: pc_ok.cases) simp_all
  then show "threads_ok (mClosed (rsMgr s)) (rsObjs s) ?cs (rsThreads s)"
    using D(3) by (simp add: threads_ok_def)
  show "calls_ok (rsObjs s) ?cs" using D(4) by (simp add: calls_ok_def)
  have "workers_ok (rsObjs s) ?cs (rsWorkers s)" using D(5) by (simp add: workers_ok_def)
  then show "workers_ok (rsObjs s) ?cs ?wk" by (rule workers_relabel [OF got_labels])
qed

lemma loop_absorb_inv:
  assumes inv: "r_inv s" and k: "k < length (rsWorkers s)" and p: "p = wkPtr (rsWorkers s ! k)"
  shows "r_inv (set_cell p (cell.update res (cell_at s p))
      (s\<lparr>rsWorkers := (rsWorkers s)[k := (rsWorkers s ! k)\<lparr>wkGot := g\<rparr>]\<rparr>))"
proof -
  note D = r_invD [OF inv]
  let ?w = "rsWorkers s ! k" and ?cs = "rsCalls s"
  let ?obs = "(rsObjs s)[p := (rsObjs s ! p)\<lparr>obCell := cell.update res (cell_at s p)\<rparr>]"
  let ?wk = "(rsWorkers s)[k := ?w\<lparr>wkGot := g\<rparr>]"
  have w: "owns (rsObjs s) p (wlName (wkLoop ?w))" "CallWatch (wlName (wkLoop ?w)) \<in> set ?cs"
      "recorded (cell_at s p)"
    using D(5) k p by (auto simp: workers_ok_def)
  then have n: "p < length (rsObjs s)" "obName (rsObjs s ! p) = wlName (wkLoop ?w)"
    by (simp_all add: owns_def)
  have idle: "obOnce (rsObjs s ! p) \<noteq> OnceIdle" using D(2) n w(2) by (auto simp: objs_ok_def)
  have T: "touches p (rsObjs s) ?cs ?obs ?cs" using D(2) w(1) n by (intro touches_upd) auto
  have rec: "recorded (cell.update res (cell_at s p))" using w(3) recorded_update by blast
  have "pc_ok (mClosed (rsMgr s)) ?obs ?cs pc" if "pc_ok (mClosed (rsMgr s)) (rsObjs s) ?cs pc" for pc
  proof (cases "inside pc = Some p")
    case True
    then show ?thesis using that n w(2) rec by (cases pc) (auto simp: owns_def)
  qed (rule pc_touch [OF T that])
  moreover have "obOnce (?obs ! q) = obOnce (rsObjs s ! q)" if "q < length (rsObjs s)" for q
    using that by (cases "q = p") auto
  ultimately have th: "threads_ok (mClosed (rsMgr s)) ?obs ?cs (rsThreads s)"
    using D(3) by (simp add: threads_ok_def)
  have "workers_ok ?obs ?cs (rsWorkers s)" using workers_touch [OF D(5) T] rec n(1) by simp
  then have wk: "workers_ok ?obs ?cs ?wk" by (rule workers_relabel [OF got_labels])
  show ?thesis
    using D(1) objs_touch [OF D(2) T] idle rec n(1) th calls_touch [OF D(4) T] wk
    by (intro r_invI) simp_all
qed

lemma loop_exit_inv:
  assumes "r_inv s"
  shows "r_inv (s\<lparr>rsWorkers := take k (rsWorkers s) @ drop (Suc k) (rsWorkers s)\<rparr>)"
proof -
  let ?wk = "take k (rsWorkers s) @ drop (Suc k) (rsWorkers s)"
  have "workers_ok (rsObjs s) (rsCalls s) (rsWorkers s)" using r_invD(5) [OF assms] .
  then have "workers_ok (rsObjs s) (rsCalls s) ?wk"
    unfolding workers_ok_def map_append
    using set_take_disj_set_drop_if_distinct [of "map wkPtr (rsWorkers s)" k "Suc k"]
    by (auto dest: in_set_takeD in_set_dropD simp flip: take_map drop_map)
  then show ?thesis using assms by (simp add: r_inv_def)
qed

lemma close_map_inv:
  assumes "r_inv s" shows "r_inv (close_lock s)"
proof -
  note D = r_invD [OF assms]
  have "pc_ok True obs cs pc" if "pc_ok cl obs cs pc" for cl obs cs pc
    using that by (cases "(cl, obs, cs, pc)" rule: pc_ok.cases) simp_all
  then have "threads_ok True (rsObjs s) (rsCalls s) (rsThreads s)"
    using D(3) unfolding threads_ok_def by blast
  moreover have "objs_ok True (rsObjs s) [] (rsCalls s)" using D(2) by (simp add: objs_ok_def)
  ultimately show ?thesis using D(4,5) by (intro r_invI) (simp_all add: close_lock_def)
qed

lemma r_step_inv:
  assumes "r_step ops s u" and inv: "r_inv s" shows "r_inv u"
  using assms(1)
proof cases
  case (fast_hit t c n p)
  then show ?thesis using move_inv [OF inv fast_hit(2)] map_owns [OF r_invD(2) [OF inv]] by simp
next
  case (fast_miss t c n)
  then show ?thesis using move_inv [OF inv fast_miss(2)] by simp
next
  case (slow_closed t c n)
  then show ?thesis using move_inv [OF inv slow_closed(2)] by simp
next
  case (slow_found t c n p)
  then show ?thesis using move_inv [OF inv slow_found(2)] map_owns [OF r_invD(2) [OF inv]] by simp
next
  case (once_skip t p c n)
  then show ?thesis using move_inv [OF inv once_skip(2)] rest_of_thread [OF inv once_skip(2)] by simp
next
  case (reads t p n)
  have "owns (rsObjs s) p n" "obOnce (rsObjs s ! p) = OnceDone"
    using rest_of_thread [OF inv reads(2)] by simp_all
  then have "recorded (cell_at s p)" using r_invD(2) [OF inv] by (simp add: objs_ok_def owns_def)
  then show ?thesis
    using reads(1) rest_of_thread [OF inv reads(2)]
    by (auto intro!: move_inv [OF inv reads(2)])
next
  case (reads_private t n)
  then show ?thesis using move_inv [OF inv reads_private(2)] rest_of_thread [OF inv reads_private(2)] by simp
next
  case (close_backend r)
  then show ?thesis using mgr_change_inv [OF inv] by simp
next
  case (backend_request r q)
  then show ?thesis using mgr_change_inv [OF inv] by simp
next
  case (spawn c n)
  show ?thesis unfolding spawn(1) by (rule spawn_inv [OF inv])
next
  case (slow_insert t c n p)
  show ?thesis unfolding slow_insert(1) by (rule insert_inv [OF inv slow_insert(2-)])
next
  case (once_enter t p c n)
  show ?thesis unfolding once_enter(1) by (rule once_enter_inv [OF inv once_enter(2-)])
next
  case (seed_calls t p c n res m)
  show ?thesis unfolding seed_calls(1) by (rule seed_calls_inv [OF inv seed_calls(2-)])
next
  case (seed_records t p n res mr m)
  show ?thesis unfolding seed_records(1) by (rule seed_records_inv [OF inv seed_records(2,4)])
next
  case (seed_panics t p n e)
  show ?thesis unfolding seed_panics(1) by (rule seed_panics_inv [OF inv seed_panics(2)])
next
  case (loop_panics k res)
  show ?thesis unfolding loop_panics(1) by (rule loop_exit_inv [OF inv])
next
  case (watch_contexts t p n mr m)
  show ?thesis unfolding watch_contexts(1) by (rule watch_contexts_inv [OF inv watch_contexts(2-)])
next
  case (watch_opens t p i n ok m)
  show ?thesis unfolding watch_opens(1) by (rule watch_opens_inv [OF inv watch_opens(2-)])
next
  case (once_leave t p n)
  show ?thesis unfolding once_leave(1) by (rule once_leave_inv [OF inv once_leave(2)])
next
  case (loop_event k l res m)
  show ?thesis unfolding loop_event(1) by (rule loop_event_inv [OF inv loop_event(5)])
next
  case (loop_absorb k res p)
  show ?thesis unfolding loop_absorb(1) by (rule loop_absorb_inv [OF inv loop_absorb(2,4)])
next
  case (loop_exit k)
  show ?thesis unfolding loop_exit(1) by (rule loop_exit_inv [OF inv])
next
  case (close_map)
  show ?thesis unfolding close_map(1) by (rule close_map_inv [OF inv])
qed

interpretation rs: step_system "r_step ops" r_inv
  by unfold_locales (rule r_step_inv)

lemma start_inv: "mBaseDone m = mClosed m \<Longrightarrow> \<not> mClosed m \<Longrightarrow> r_inv (start_sys m)"
  by (simp add: r_inv_def start_sys_def objs_ok_def threads_ok_def calls_ok_def workers_ok_def)

end
