(* ===== verification/ResolverInterleavings.thy ===== *)
theory ResolverInterleavings
  imports ResolverConcurrency
begin

text \<open>
  What the interleavings of the managed resolver layer can and cannot do: single flight, the end of
  all watching at Close, that no lookup is stuck (a measure on the threads that every step of a
  lookup decreases), and that a lookup which runs undisturbed is the sequential one.
\<close>

lemma New_start:
  assumes "New mk cfg [Some (WithLogger l), Some (WithWorkload w)] = Inr m" and "r_reach ops (start_sys m) s"
  shows "r_inv s"
  using rs.reach_inv [OF assms(2) start_inv] New_fields [OF assms(1)] by simp

text \<open>Closing is for good, and once the lookups under way have finished the backend is left alone.\<close>

lemma closed_step: "r_step ops s u \<Longrightarrow> mClosed (rsMgr s) \<Longrightarrow> mClosed (rsMgr u)"
  by (induction rule: r_step.induct)
     (auto simp: close_lock_def watch_context_def seed_call_def
       dest: call_resolve_frame seed_record_frame watch_open_frame)

interpretation rs_closed: step_system "r_step ops" "\<lambda>s. mClosed (rsMgr s)"
  by unfold_locales (rule closed_step)

text \<open>A thread that may still call the backend, and a system in which none can.\<close>

fun asking :: "rpc \<Rightarrow> bool" where
  "asking (ROnce p c n) \<longleftrightarrow> True"
| "asking pc \<longleftrightarrow> inside pc \<noteq> None"

definition idle_sys :: "'r rsys \<Rightarrow> bool" where
  "idle_sys s \<longleftrightarrow> mClosed (rsMgr s) \<and> rsMap s = [] \<and> list_all (\<lambda>pc. \<not> asking pc) (rsThreads s)"

text \<open>The calls a lookup makes; the others are those of the watch loops.\<close>

fun of_lookup :: "bcall \<Rightarrow> bool" where
  "of_lookup (CallUpdate n) \<longleftrightarrow> False"
| "of_lookup c \<longleftrightarrow> True"

definition no_more :: "'r rsys \<Rightarrow> 'r rsys \<Rightarrow> bool" where
  "no_more s u \<longleftrightarrow> idle_sys u \<and> filter of_lookup (rsCalls u) = filter of_lookup (rsCalls s)
     \<and> set (map wkLoop (rsWorkers u)) \<subseteq> set (map wkLoop (rsWorkers s))
     \<and> (rsWorkers s = [] \<longrightarrow> rsCalls u = rsCalls s)"

lemma idle_move: "idle_sys s \<Longrightarrow> \<not> asking pc \<Longrightarrow> idle_sys (goto t pc s)"
  by (auto simp: idle_sys_def list_all_iff dest!: set_update_subset_insert [THEN subsetD])

lemma idle_at: "idle_sys s \<Longrightarrow> at_pc s t pc \<Longrightarrow> \<not> asking pc"
  by (auto simp: idle_sys_def at_pc_def list_all_length)

lemma idle_no:
  assumes "idle_sys s"
  shows "\<not> at_pc s t (ROnce p c n)" "\<not> at_pc s t (RSeed p c n)" "\<not> at_pc s t (RRecord p n res)"
    "\<not> at_pc s t (RWatch p n)" "\<not> at_pc s t (ROpen p i n)" "\<not> at_pc s t (RLeave p n)"
    "rsMap s = []" "mClosed (rsMgr s)"
  using assms by (auto simp: idle_sys_def dest!: idle_at [OF assms])

lemma set_without: "set (take k xs @ drop (Suc k) xs) \<subseteq> set xs"
  using set_take_subset set_drop_subset by fastforce

lemma without_loops: "set (map wkLoop (take k wk @ drop (Suc k) wk)) \<subseteq> set (map wkLoop wk)"
  using set_without [of k wk] by (simp only: set_map image_mono)

lemma idle_step:
  assumes "r_step ops s u" and idle: "idle_sys s" shows "no_more s u"
  using assms(1)
proof cases
  case (spawn c n)
  then show ?thesis using idle by (simp add: no_more_def idle_sys_def)
next
  case (close_backend r)
  then show ?thesis using idle by (simp add: no_more_def idle_sys_def)
next
  case (backend_request r q)
  then show ?thesis using idle by (simp add: no_more_def idle_sys_def)
next
  case (loop_event k l res m)
  then show ?thesis
    using idle got_labels(2) [of "rsWorkers s" k "Some res"] call_resolve_frame(1) [OF loop_event(5)]
    by (auto simp: no_more_def idle_sys_def simp del: set_map)
next
  case (loop_absorb k res p)
  then show ?thesis
    using idle got_labels(2) [of "rsWorkers s" k None] by (auto simp: no_more_def idle_sys_def simp del: set_map)
next
  case (loop_panics k res)
  then show ?thesis using idle without_loops [of k "rsWorkers s"] by (simp add: no_more_def idle_sys_def del: set_map)
next
  case (loop_exit k)
  then show ?thesis using idle without_loops [of k "rsWorkers s"] by (simp add: no_more_def idle_sys_def del: set_map)
qed (simp_all add: no_more_def idle_no [OF idle] idle_move [OF idle])

lemma no_more_step:
  assumes "r_step ops t u" "no_more s t" shows "no_more s u"
proof -
  have "no_more t u" by (rule idle_step [OF assms(1)]) (use assms(2) in \<open>simp add: no_more_def\<close>)
  then show ?thesis using assms(2) by (auto simp: no_more_def)
qed

interpretation rs_idle: step_system "r_step ops" "no_more s" for s
  by unfold_locales (rule no_more_step)

section \<open>No lookup is stuck\<close>

fun steps_left :: "rpc \<Rightarrow> nat" where
  "steps_left (RStart c n) = 9"
| "steps_left (RSlow c n) = 8"
| "steps_left (ROnce p c n) = 7"
| "steps_left (RSeed p c n) = 6"
| "steps_left (RRecord p n res) = 5"
| "steps_left (RWatch p n) = 4"
| "steps_left (ROpen p i n) = 3"
| "steps_left (RLeave p n) = 2"
| "steps_left (RRead po n) = 1"
| "steps_left (RDone po n v) = 0"

definition work :: "'r rsys \<Rightarrow> nat" where
  "work s = sum_list (map steps_left (rsThreads s))"

lemma work_goto:
  assumes "at_pc s t pc0" "steps_left pc < steps_left pc0" "rsThreads u = (rsThreads s)[t := pc]"
  shows "work u < work s \<and> length (rsThreads u) = length (rsThreads s)"
proof -
  have "work u + steps_left pc0 = work s + steps_left pc"
    using assms(1,3) elem_le_sum_list [of t "map steps_left (rsThreads s)"]
    by (auto simp: work_def at_pc_def map_update sum_list_update)
  then show ?thesis using assms(2,3) by simp
qed

text \<open>A thread outside \<open>once.Do\<close>'s waiting line can always go on.\<close>

lemma thread_steps:
  assumes t: "at_pc s t pc" and "steps_left pc \<noteq> 0"
    and ready: "\<And>p c n. pc = ROnce p c n \<Longrightarrow> obOnce (rsObjs s ! p) \<noteq> OnceRunning"
  shows "\<exists>u. r_step ops s u \<and> work u < work s \<and> length (rsThreads u) = length (rsThreads s)"
proof -
  have go: ?thesis if "r_step ops s u" "rsThreads u = (rsThreads s)[t := pc']" "steps_left pc' < steps_left pc"
    for u pc'
    using that work_goto [OF t that(3,2)] by blast
  show ?thesis
  proof (cases pc)
    case (RStart c n)
    show ?thesis
    proof (cases "map_of (rsMap s) n")
      case None then show ?thesis using go [OF r_step.fast_miss [OF t [unfolded RStart] None]] RStart by simp
    next
      case (Some p) then show ?thesis using go [OF r_step.fast_hit [OF t [unfolded RStart] Some]] RStart by simp
    qed
  next
    case (RSlow c n)
    show ?thesis
    proof (cases "mClosed (rsMgr s)")
      case True then show ?thesis using go [OF r_step.slow_closed [OF t [unfolded RSlow] True]] RSlow by simp
    next
      case False
      show ?thesis
      proof (cases "map_of (rsMap s) n")
        case None
        then show ?thesis using go [OF r_step.slow_insert [OF t [unfolded RSlow] False None HOL.refl]] RSlow by simp
      next
        case (Some p)
        then show ?thesis using go [OF r_step.slow_found [OF t [unfolded RSlow] False Some]] RSlow by simp
      qed
    qed
  next
    case (ROnce p c n)
    show ?thesis
    proof (cases "obOnce (rsObjs s ! p)")
      case OnceIdle
      then show ?thesis using go [OF r_step.once_enter [OF t [unfolded ROnce] OnceIdle]] ROnce by simp
    next
      case OnceDone
      then show ?thesis using go [OF r_step.once_skip [OF t [unfolded ROnce] OnceDone]] ROnce by simp
    qed (use ready ROnce in simp)
  next
    case (RSeed p c n)
    obtain res m where "seed_call ops c n (rsMgr s) = (res, m)" by fastforce
    then show ?thesis using go [OF r_step.seed_calls [OF t [unfolded RSeed]]] RSeed by simp
  next
    case (RRecord p n res)
    obtain mr m where rec: "seed_record n res (cell_at s p, rsMgr s) = (mr, m)" by fastforce
    show ?thesis
    proof (cases "panics res")
      case True
      then obtain e where e: "res = Inl e" "is_panic e" by (cases res) simp_all
      show ?thesis using go [OF r_step.seed_panics [OF t [unfolded RRecord e(1)] e(2)]] RRecord by simp
    next
      case False
      then show ?thesis using go [OF r_step.seed_records [OF t [unfolded RRecord] False rec]] RRecord by simp
    qed
  next
    case (RWatch p n)
    obtain mr m where "watch_context (cell_at s p, rsMgr s) = (mr, m)" by fastforce
    then show ?thesis using go [OF r_step.watch_contexts [OF t [unfolded RWatch]]] RWatch by simp
  next
    case (ROpen p i n)
    obtain ok m where "watch_open ops i n (workloadTag (rsMgr s)) (rsMgr s) = (ok, m)" by fastforce
    then show ?thesis using go [OF r_step.watch_opens [OF t [unfolded ROpen]]] ROpen by simp
  next
    case (RLeave p n)
    then show ?thesis using go [OF r_step.once_leave [OF t [unfolded RLeave]]] by simp
  next
    case (RRead po n)
    then show ?thesis
      using go [OF r_step.reads_private] go [OF r_step.reads] t by (cases po) auto
  next
    case (RDone po n v)
    then show ?thesis using assms(2) by simp
  qed
qed

lemma some_thread_steps:
  assumes inv: "r_inv s" and "work s \<noteq> 0"
  shows "\<exists>u. r_step ops s u \<and> work u < work s \<and> length (rsThreads u) = length (rsThreads s)"
proof -
  obtain t where t: "t < length (rsThreads s)" "steps_left (rsThreads s ! t) \<noteq> 0"
    using assms(2) by (auto simp: work_def in_set_conv_nth)
  show ?thesis
  proof (cases "\<exists>p c n. rsThreads s ! t = ROnce p c n \<and> obOnce (rsObjs s ! p) = OnceRunning")
    case False
    then show ?thesis
      by (intro thread_steps [of s t "rsThreads s ! t"]) (use t in \<open>auto simp: at_pc_def\<close>)
  next
    case True
    then obtain p c n where p: "rsThreads s ! t = ROnce p c n" "obOnce (rsObjs s ! p) = OnceRunning" by blast
    then have "p < length (rsObjs s)"
      using rest_of_thread [OF inv, of t] t(1) by (auto simp: at_pc_def owns_def)
    then obtain v where v: "v < length (rsThreads s)" "inside (rsThreads s ! v) = Some p"
      using p(2) r_invD(3) [OF inv] unfolding threads_ok_def by blast
    have "steps_left (rsThreads s ! v) \<noteq> 0" "\<And>q c n. rsThreads s ! v \<noteq> ROnce q c n"
      using v(2) by (cases "rsThreads s ! v"; simp)+
    then show ?thesis
      by (intro thread_steps [of s v "rsThreads s ! v"]) (use v in \<open>auto simp: at_pc_def\<close>)
  qed
qed

text \<open>What the steps of the others can add to the work of the lookups: only a new lookup.\<close>

lemma step_work:
  assumes "r_step ops s u"
  shows "work u < work s \<and> length (rsThreads u) = length (rsThreads s)
    \<or> rsThreads u = rsThreads s \<or> (\<exists>c n. rsThreads u = rsThreads s @ [RStart c n])"
  using assms
proof cases
  case (fast_hit t c n p)
  show ?thesis by (intro disjI1, rule work_goto [OF fast_hit(2)]) (simp_all add: fast_hit(1))
next
  case (fast_miss t c n)
  show ?thesis by (intro disjI1, rule work_goto [OF fast_miss(2)]) (simp_all add: fast_miss(1))
next
  case (slow_closed t c n)
  show ?thesis by (intro disjI1, rule work_goto [OF slow_closed(2)]) (simp_all add: slow_closed(1))
next
  case (slow_found t c n p)
  show ?thesis by (intro disjI1, rule work_goto [OF slow_found(2)]) (simp_all add: slow_found(1))
next
  case (slow_insert t c n p)
  show ?thesis by (intro disjI1, rule work_goto [OF slow_insert(2)]) (simp_all add: slow_insert(1))
next
  case (once_enter t p c n)
  show ?thesis by (intro disjI1, rule work_goto [OF once_enter(2)]) (simp_all add: once_enter(1))
next
  case (once_skip t p c n)
  show ?thesis by (intro disjI1, rule work_goto [OF once_skip(2)]) (simp_all add: once_skip(1))
next
  case (seed_calls t p c n res m)
  show ?thesis by (intro disjI1, rule work_goto [OF seed_calls(2)]) (simp_all add: seed_calls(1))
next
  case (seed_records t p n res mr m)
  show ?thesis by (intro disjI1, rule work_goto [OF seed_records(2)]) (simp_all add: seed_records(1))
next
  case (seed_panics t p n e)
  show ?thesis by (intro disjI1, rule work_goto [OF seed_panics(2)]) (simp_all add: seed_panics(1))
next
  case (watch_contexts t p n mr m)
  show ?thesis by (intro disjI1, rule work_goto [OF watch_contexts(2)]) (simp_all add: watch_contexts(1))
next
  case (watch_opens t p i n ok m)
  show ?thesis by (intro disjI1, rule work_goto [OF watch_opens(2)]) (simp_all add: watch_opens(1))
next
  case (once_leave t p n)
  show ?thesis by (intro disjI1, rule work_goto [OF once_leave(2)]) (simp_all add: once_leave(1))
next
  case (reads t p n)
  show ?thesis by (intro disjI1, rule work_goto [OF reads(2)]) (simp_all add: reads(1))
next
  case (reads_private t n)
  show ?thesis by (intro disjI1, rule work_goto [OF reads_private(2)]) (simp_all add: reads_private(1))
qed (simp_all add: close_lock_def)

text \<open>Steps that start no new lookup.\<close>

definition going_on :: "'r registry_ops \<Rightarrow> 'r rsys \<Rightarrow> 'r rsys \<Rightarrow> bool" where
  "going_on ops s u \<longleftrightarrow> r_step ops s u \<and> length (rsThreads u) = length (rsThreads s)"

interpretation rs_work: measured_system "going_on ops" "\<lambda>s. r_inv s \<and> length (rsThreads s) = n" work
proof
  show "r_inv t \<and> length (rsThreads t) = n"
    if "going_on ops s t" "r_inv s \<and> length (rsThreads s) = n" for s t
    using that r_step_inv by (auto simp: going_on_def)
  show "\<exists>t. going_on ops s t \<and> work t < work s"
    if "r_inv s \<and> length (rsThreads s) = n" "work s \<noteq> 0" for s
    using some_thread_steps [of s ops] that by (auto simp: going_on_def)
qed

lemma finish:
  assumes "r_inv s"
  shows "\<exists>u. r_reach ops s u \<and> work u = 0 \<and> length (rsThreads u) = length (rsThreads s)"
proof -
  obtain u where u: "reach (going_on ops) s u" "work u = 0"
    using rs_work.finishes [of s "length (rsThreads s)" ops] assms by blast
  then show ?thesis
    using rs_work.reach_inv [OF u(1), of "length (rsThreads s)"] assms reach_weaken [OF u(1), of "r_step ops"]
    by (auto simp: going_on_def)
qed

section \<open>Alone, the steps are the lookup\<close>

text \<open>The manager as the sequential model has it: the resolvers of the map, by value.\<close>

definition abs_mgr :: "'r rsys \<Rightarrow> 'r manager" where
  "abs_mgr s = (rsMgr s)\<lparr>mResolvers := map (\<lambda>(n, p). (n, cell_at s p)) (rsMap s)\<rparr>"

lemma map_of_values: "map_of (map (\<lambda>(k, p). (k, f p)) xs) n = map_option f (map_of xs n)"
  by (induction xs) auto

lemma abs_lookup: "map_of (mResolvers (abs_mgr s)) n = map_option (\<lambda>p. cell_at s p) (map_of (rsMap s) n)"
  by (simp add: abs_mgr_def map_of_values)

lemma seed_call_commutes:
  assumes "seed_call ops c n m = (res, m')"
  shows "seed_call ops c n (m\<lparr>mResolvers := x\<rparr>) = (res, m'\<lparr>mResolvers := x\<rparr>)"
  using assms by (auto simp: seed_call_def call_resolve_def split: option.splits prod.splits)

lemma seed_record_commutes:
  assumes "seed_record n res (mr, m) = (mr', m')"
  shows "seed_record n res (mr, m\<lparr>mResolvers := x\<rparr>) = (mr', m'\<lparr>mResolvers := x\<rparr>)"
  using assms by (auto simp: seed_record_def m_log_def split: sum.splits)

lemma watch_open_commutes:
  assumes "watch_open ops i n tag m = (ok, m')"
  shows "watch_open ops i n tag (m\<lparr>mResolvers := x\<rparr>) = (ok, m'\<lparr>mResolvers := x\<rparr>)"
  using assms
  by (auto simp: watch_open_def call_watch_def m_log_def Let_def split: option.splits prod.splits)

text \<open>The value a lookup computes when it is the one to seed.\<close>

lemma seed_once_pieces:
  assumes "seed_call ops c n m = (res, m1)"
    and "seed_record n res (mr\<lparr>mrOnce := True\<rparr>, m1) = (mr2, m2)"
    and "watch_context (mr2, m2) = (mr3, m3)"
    and "watch_open ops (length (mCtxs m2)) n (workloadTag m) m3 = (ok, m4)" and "\<not> mrOnce mr" "\<not> panics res"
  shows "seed_once ops c mr n (m\<lparr>mResolvers := x\<rparr>) = (mr3, m4\<lparr>mResolvers := AList.update n mr3 x\<rparr>)"
proof -
  have w: "watch_context (mr2, m2\<lparr>mResolvers := x\<rparr>) = (mr3, m3\<lparr>mResolvers := x\<rparr>)"
    using assms(3) by (auto simp: watch_context_def)
  show ?thesis
    using assms(5)
    by (simp add: seed_once_def seedManagedResolver_pieces [OF seed_call_commutes [OF assms(1)] assms(6)]
        startManagedWatch_pieces w seed_record_commutes [OF assms(2)] watch_open_commutes [OF assms(4)] split: prod.splits)
qed

text \<open>The seed of a lookup that runs alone, when Resolve panics and when it does not.\<close>

lemma seed_panic_run:
  assumes t: "at_pc s t (ROnce p c n)" and idle: "obOnce (rsObjs s ! p) = OnceIdle"
    and p: "p < length (rsObjs s)" and once: "\<not> mrOnce (cell_at s p)"
    and so: "seed_once ops c (cell_at s p) n (abs_mgr s) = (mr, m)"
    and call: "seed_call ops c n (rsMgr s) = (Inl e, m1)" and panic: "is_panic e"
  shows "\<exists>u. r_reach ops s u \<and> rsThreads u = (rsThreads s)[t := RDone (Some p) n (view_of mr)]
    \<and> rsMap u = rsMap s \<and> length (rsObjs u) = length (rsObjs s)
    \<and> cell_at u p = mr \<and> (\<forall>q. q \<noteq> p \<longrightarrow> rsObjs u ! q = rsObjs s ! q)
    \<and> m = (rsMgr u)\<lparr>mResolvers := AList.update n mr (mResolvers (abs_mgr s))\<rparr>"
proof -
  have tl: "t < length (rsThreads s)" using t by (simp add: at_pc_def)
  let ?s1 = "goto t (RSeed p c n) (set_cell p ((cell_at s p)\<lparr>mrOnce := True\<rparr>) (set_once p OnceRunning s))"
  let ?s2 = "goto t (RRecord p n (Inl e)) (?s1\<lparr>rsMgr := m1, rsCalls := rsCalls ?s1 @ [CallSeed n]\<rparr>)"
  let ?s3 = "goto t (RLeave p n) (set_cell p ((cell_at ?s2 p)\<lparr>mrSeedErr := Some e\<rparr>) ?s2)"
  let ?s4 = "goto t (RRead (Some p) n) (set_once p OnceDone ?s3)"
  let ?s5 = "goto t (RDone (Some p) n (view_of (cell_at ?s4 p))) ?s4"
  have "r_step ops s ?s1" by (rule r_step.once_enter [OF t idle])
  moreover have "r_step ops ?s1 ?s2" by (rule r_step.seed_calls) (use tl call in \<open>simp_all add: at_pc_def\<close>)
  moreover have "r_step ops ?s2 ?s3" by (rule r_step.seed_panics) (use tl panic in \<open>simp_all add: at_pc_def\<close>)
  moreover have "r_step ops ?s3 ?s4" by (rule r_step.once_leave) (use tl in \<open>simp add: at_pc_def\<close>)
  moreover have "r_step ops ?s4 ?s5" by (rule r_step.reads) (use tl in \<open>simp add: at_pc_def\<close>)
  ultimately have reach: "r_reach ops s ?s5" by (meson r_intros)
  let ?mr = "(cell_at s p)\<lparr>mrOnce := True, mrSeedErr := Some e\<rparr>"
  have "seed_once ops c (cell_at s p) n (abs_mgr s)
      = (?mr, m1\<lparr>mResolvers := AList.update n ?mr (mResolvers (abs_mgr s))\<rparr>)"
    using once seed_call_commutes [OF call, of "mResolvers (abs_mgr s)"] panic
    by (simp add: seed_once_def seedManagedResolver_panics abs_mgr_def)
  then have "mr = ?mr" "m = m1\<lparr>mResolvers := AList.update n ?mr (mResolvers (abs_mgr s))\<rparr>" using so by simp_all
  then show ?thesis using reach p by (intro exI [of _ ?s5]) simp
qed

lemma seed_run:
  assumes t: "at_pc s t (ROnce p c n)" and idle: "obOnce (rsObjs s ! p) = OnceIdle"
    and p: "p < length (rsObjs s)" and once: "\<not> mrOnce (cell_at s p)"
    and so: "seed_once ops c (cell_at s p) n (abs_mgr s) = (mr, m)"
  shows "\<exists>u. r_reach ops s u \<and> rsThreads u = (rsThreads s)[t := RDone (Some p) n (view_of mr)]
    \<and> rsMap u = rsMap s \<and> length (rsObjs u) = length (rsObjs s)
    \<and> cell_at u p = mr \<and> (\<forall>q. q \<noteq> p \<longrightarrow> rsObjs u ! q = rsObjs s ! q)
    \<and> m = (rsMgr u)\<lparr>mResolvers := AList.update n mr (mResolvers (abs_mgr s))\<rparr>"
proof -
  have tl: "t < length (rsThreads s)" using t by (simp add: at_pc_def)
  let ?s1 = "goto t (RSeed p c n) (set_cell p ((cell_at s p)\<lparr>mrOnce := True\<rparr>) (set_once p OnceRunning s))"
  obtain res m1 where e1: "seed_call ops c n (rsMgr s) = (res, m1)" by fastforce
  show ?thesis
  proof (cases "panics res")
    case True
    then obtain e where "res = Inl e" "is_panic e" by (cases res) simp_all
    then show ?thesis using seed_panic_run [OF assms] e1 by simp
  next
    case False
    let ?s2 = "goto t (RRecord p n res) (?s1\<lparr>rsMgr := m1, rsCalls := rsCalls ?s1 @ [CallSeed n]\<rparr>)"
    obtain mr2 m2 where e2: "seed_record n res ((cell_at s p)\<lparr>mrOnce := True\<rparr>, m1) = (mr2, m2)" by fastforce
    let ?s3 = "goto t (RWatch p n) (set_cell p mr2 (?s2\<lparr>rsMgr := m2\<rparr>))"
    obtain mr3 m3 where e3: "watch_context (mr2, m2) = (mr3, m3)" by fastforce
    let ?i = "length (mCtxs m2)"
    let ?s4 = "goto t (ROpen p ?i n) (set_cell p mr3 (?s3\<lparr>rsMgr := m3\<rparr>))"
    obtain ok m4 where e4: "watch_open ops ?i n (workloadTag m3) m3 = (ok, m4)" by fastforce
    let ?w = "if ok then [\<lparr>wkPtr = p, wkLoop = \<lparr>wlCtx = ?i, wlName = n, wlTag = workloadTag (rsMgr ?s4)\<rparr>,
              wkGot = None\<rparr>] else []"
    let ?s5 = "goto t (RLeave p n)
      (?s4\<lparr>rsMgr := m4, rsCalls := rsCalls ?s4 @ [CallWatch n], rsWorkers := rsWorkers ?s4 @ ?w\<rparr>)"
    let ?s6 = "goto t (RRead (Some p) n) (set_once p OnceDone ?s5)"
    let ?s7 = "goto t (RDone (Some p) n (view_of (cell_at ?s6 p))) ?s6"
    have "r_step ops s ?s1" by (rule r_step.once_enter [OF t idle])
    moreover have "r_step ops ?s1 ?s2"
      by (rule r_step.seed_calls) (use tl e1 in \<open>simp_all add: at_pc_def\<close>)
    moreover have "r_step ops ?s2 ?s3"
      by (rule r_step.seed_records) (use tl p e2 False in \<open>simp_all add: at_pc_def\<close>)
    moreover have "r_step ops ?s3 ?s4"
      using r_step.watch_contexts [of ?s3 t p n mr3 m3 ops] tl p e3 by (simp add: at_pc_def)
    moreover have "r_step ops ?s4 ?s5"
      by (rule r_step.watch_opens) (use tl e4 in \<open>simp_all add: at_pc_def\<close>)
    moreover have "r_step ops ?s5 ?s6" by (rule r_step.once_leave) (use tl in \<open>simp add: at_pc_def\<close>)
    moreover have "r_step ops ?s6 ?s7" by (rule r_step.reads) (use tl in \<open>simp add: at_pc_def\<close>)
    ultimately have reach: "r_reach ops s ?s7" by (meson r_intros)
    have tag: "workloadTag m3 = workloadTag (rsMgr s)"
      using e1 e2 e3 call_resolve_frame(4) [OF e1 [unfolded seed_call_def]]
      by (auto simp: watch_context_def seed_record_def m_log_def workloadTag_def split: sum.splits)
    have "seed_once ops c (cell_at s p) n (abs_mgr s)
        = (mr3, m4\<lparr>mResolvers := AList.update n mr3 (mResolvers (abs_mgr s))\<rparr>)"
      unfolding abs_mgr_def by (subst seed_once_pieces [OF e1 e2 e3 e4 [unfolded tag] once False]) simp
    then have "mr = mr3" "m = m4\<lparr>mResolvers := AList.update n mr3 (mResolvers (abs_mgr s))\<rparr>"
      using so by simp_all
    then show ?thesis
      using reach p by (intro exI [of _ ?s7]) simp
  qed
qed

lemma update_fresh: "map_of xs n = None \<Longrightarrow> AList.update n v xs = xs @ [(n, v)]"
  by (induction xs) auto

lemma update_values:
  assumes "distinct (map fst xs)" and "map_of xs n = Some p"
    and "\<And>k q. (k, q) \<in> set xs \<Longrightarrow> k \<noteq> n \<Longrightarrow> q \<noteq> p" and "\<And>q. q \<noteq> p \<Longrightarrow> g q = f q"
  shows "AList.update n (g p) (map (\<lambda>(k, q). (k, f q)) xs) = map (\<lambda>(k, q). (k, g q)) xs"
  using assms(1-3)
proof (induction xs)
  case (Cons x xs)
  obtain k q where x: "x = (k, q)" by fastforce
  show ?case
  proof (cases "k = n")
    case True
    then have "(j, r) \<in> set xs \<Longrightarrow> j \<noteq> n" for j r using Cons.prems(1) x by force
    then have "(j, r) \<in> set xs \<Longrightarrow> g r = f r" for j r
      using Cons.prems(3) assms(4) by (metis list.set_intros(2))
    then show ?thesis using True Cons.prems(2) x by auto
  next
    case False
    then have "g q = f q" using Cons.prems(3) x assms(4) by auto
    then show ?thesis using False Cons x by auto
  qed
qed simp

lemma abs_seeded:
  assumes inv: "r_inv s" and "map_of (rsMap s) n = Some p"
    and "rsMap u = rsMap s" and "\<And>q. q \<noteq> p \<Longrightarrow> rsObjs u ! q = rsObjs s ! q"
  shows "abs_mgr u = (rsMgr u)\<lparr>mResolvers := AList.update n (cell_at u p) (mResolvers (abs_mgr s))\<rparr>"
proof -
  note O = r_invD(2) [OF inv]
  have d: "distinct (map fst (rsMap s))" using O by (simp add: objs_ok_def)
  have "q \<noteq> p" if "(k, q) \<in> set (rsMap s)" "k \<noteq> n" for k q
    using that map_owns [OF O] d assms(2) by (metis map_of_is_SomeI owns_def)
  then show ?thesis
    using update_values [OF d assms(2), of "\<lambda>q. cell_at u q" "\<lambda>q. cell_at s q"] assms(3,4)
    by (simp add: abs_mgr_def)
qed

lemma goto_append [simp]:
  "goto (length (rsThreads s)) pc (s\<lparr>rsThreads := rsThreads s @ [x]\<rparr>) = s\<lparr>rsThreads := rsThreads s @ [pc]\<rparr>"
  by (simp add: goto_def)

lemma at_append [simp]: "at_pc (s\<lparr>rsThreads := rsThreads s @ [x]\<rparr>) (length (rsThreads s)) x"
  by (simp add: at_pc_def)

text \<open>From \<open>once.Do\<close> on, with nobody else inside.\<close>

lemma once_run:
  assumes inv: "r_inv s" and t: "t < length (rsThreads s)" and "rsThreads s ! t = ROnce p c n"
    and own: "map_of (rsMap s) n = Some p" and free: "obOnce (rsObjs s ! p) \<noteq> OnceRunning"
    and so: "seed_once ops c (cell_at s p) n (abs_mgr s) = (mr, m)"
  shows "\<exists>u. r_reach ops s u \<and> rsThreads u = (rsThreads s)[t := RDone (Some p) n (view_of mr)] \<and> abs_mgr u = m"
proof -
  note O = r_invD(2) [OF inv]
  have at: "at_pc s t (ROnce p c n)" using t assms(3) by (simp add: at_pc_def)
  have p: "p < length (rsObjs s)" using map_owns [OF O own] by (simp add: owns_def)
  show ?thesis
  proof (cases "obOnce (rsObjs s ! p)")
    case OnceIdle
    then have "\<not> mrOnce (cell_at s p)" using O p by (simp add: objs_ok_def new_resolver_def)
    from seed_run [OF at OnceIdle p this so] obtain u where
      u: "r_reach ops s u" "rsThreads u = (rsThreads s)[t := RDone (Some p) n (view_of mr)]"
        "rsMap u = rsMap s" "cell_at u p = mr" "\<And>q. q \<noteq> p \<Longrightarrow> rsObjs u ! q = rsObjs s ! q"
        "m = (rsMgr u)\<lparr>mResolvers := AList.update n mr (mResolvers (abs_mgr s))\<rparr>" by blast
    then show ?thesis using abs_seeded [OF inv own u(3,5)] by (intro exI [of _ u]) simp
  next
    case OnceDone
    then have "mrOnce (cell_at s p)" using O p by (simp add: objs_ok_def recorded_def)
    then have m: "mr = cell_at s p" "m = abs_mgr s" using so by (simp_all add: seed_once_def)
    let ?s1 = "goto t (RRead (Some p) n) s"
    let ?u = "goto t (RDone (Some p) n (view_of (cell_at ?s1 p))) ?s1"
    have "r_step ops s ?s1" by (rule r_step.once_skip [OF at OnceDone])
    moreover have "r_step ops ?s1 ?u" by (rule r_step.reads) (use t in \<open>simp add: at_pc_def\<close>)
    ultimately have "r_reach ops s ?u" by (meson r_intros)
    then show ?thesis using m by (intro exI [of _ ?u]) (simp add: abs_mgr_def)
  qed (use free in simp)
qed

lemma lookup_runs:
  assumes inv: "r_inv s"
    and free: "\<And>p. map_of (rsMap s) n = Some p \<Longrightarrow> obOnce (rsObjs s ! p) \<noteq> OnceRunning"
    and look: "managedResolverFor ops c n (abs_mgr s) = (mr, m)"
  shows "\<exists>u po. r_reach ops s u \<and> rsThreads u = rsThreads s @ [RDone po n (view_of mr)] \<and> abs_mgr u = m"
proof -
  let ?t = "length (rsThreads s)" and ?at = "\<lambda>pc. s\<lparr>rsThreads := rsThreads s @ [pc]\<rparr>"
  have start: "r_step ops s (?at (RStart c n))" by (rule r_step.spawn)
  have inv1: "r_inv (?at (RStart c n))" using r_step_inv [OF start inv] .
  have abs: "abs_mgr (?at pc) = abs_mgr s" for pc by (simp add: abs_mgr_def)
  show ?thesis
  proof (cases "map_of (rsMap s) n")
    case (Some p)
    have hit: "r_step ops (?at (RStart c n)) (?at (ROnce p c n))"
      using r_step.fast_hit [of "?at (RStart c n)" ?t c n p ops] Some by simp
    have "seed_once ops c (cell_at s p) n (abs_mgr s) = (mr, m)"
      using look Some by (simp add: managedResolverFor_def abs_lookup)
    then have "\<exists>u. r_reach ops (?at (ROnce p c n)) u
        \<and> rsThreads u = (rsThreads (?at (ROnce p c n)))[?t := RDone (Some p) n (view_of mr)] \<and> abs_mgr u = m"
      using free [OF Some] Some abs
      by (intro once_run [OF r_step_inv [OF hit inv1], where c = c]) simp_all
    then obtain u where u: "r_reach ops (?at (ROnce p c n)) u" "abs_mgr u = m"
      "rsThreads u = rsThreads s @ [RDone (Some p) n (view_of mr)]" by auto
    then show ?thesis using r_first [OF start r_first [OF hit u(1)]] by blast
  next
    case None
    have miss: "r_step ops (?at (RStart c n)) (?at (RSlow c n))"
      using r_step.fast_miss [of "?at (RStart c n)" ?t c n ops] None by simp
    have absent: "map_of (mResolvers (abs_mgr s)) n = None" using None by (simp add: abs_lookup)
    show ?thesis
    proof (cases "mClosed (rsMgr s)")
      case True
      have 1: "r_step ops (?at (RSlow c n)) (?at (RRead None n))"
        using r_step.slow_closed [of "?at (RSlow c n)" ?t c n ops] True by simp
      have 2: "r_step ops (?at (RRead None n)) (?at (RDone None n (view_of new_resolver)))"
        using r_step.reads_private [of "?at (RRead None n)" ?t n ops] by simp
      have "mr = new_resolver" "m = abs_mgr s"
        using look absent True by (simp_all add: managedResolverFor_def abs_mgr_def)
      then show ?thesis
        using r_first [OF start r_first [OF miss r_first [OF 1 r_first [OF 2 reach.refl]]]] abs
        by (intro exI [of _ "?at (RDone None n (view_of new_resolver))"] exI [of _ None]) simp
    next
      case False
      let ?p = "length (rsObjs s)"
      let ?v = "s\<lparr>rsObjs := rsObjs s @ [\<lparr>obName = n, obCell = new_resolver, obOnce = OnceIdle\<rparr>],
        rsMap := AList.update n ?p (rsMap s), rsThreads := rsThreads s @ [ROnce ?p c n]\<rparr>"
      have ins: "r_step ops (?at (RSlow c n)) ?v"
        using r_step.slow_insert [of "?at (RSlow c n)" ?t c n ?p ops] None False by (simp add: goto_def)
      have inv2: "r_inv ?v" using r_step_inv [OF ins r_step_inv [OF miss inv1]] .
      have old: "q < ?p" if "(k, q) \<in> set (rsMap s)" for k q
        using that map_owns [OF r_invD(2) [OF inv]] r_invD(2) [OF inv]
        by (metis map_of_is_SomeI objs_ok_def owns_def)
      have same: "map (\<lambda>(k, q). (k, cell_at ?v q)) (rsMap s) = map (\<lambda>(k, q). (k, cell_at s q)) (rsMap s)"
        using old by (intro map_cong) (auto simp: nth_append)
      have "abs_mgr ?v = (abs_mgr s)\<lparr>mResolvers := AList.update n new_resolver (mResolvers (abs_mgr s))\<rparr>"
        using None absent same by (simp add: abs_mgr_def update_fresh)
      then have so: "seed_once ops c (cell_at ?v ?p) n (abs_mgr ?v) = (mr, m)"
        using look absent False by (simp add: managedResolverFor_def nth_append) (simp add: abs_mgr_def)
      then have "\<exists>u. r_reach ops ?v u
          \<and> rsThreads u = (rsThreads ?v)[?t := RDone (Some ?p) n (view_of mr)] \<and> abs_mgr u = m"
        by (intro once_run [OF inv2, where c = c]) (simp_all add: update_conv')
      then obtain u where u: "r_reach ops ?v u" "abs_mgr u = m"
        "rsThreads u = rsThreads s @ [RDone (Some ?p) n (view_of mr)]" by auto
      then show ?thesis using r_first [OF start r_first [OF miss r_first [OF ins u(1)]]] by blast
    qed
  qed
qed

text \<open>Concrete runs for the witnesses: one lookup of a fresh manager, and one after Close.\<close>

lemma stub_start_inv: "r_inv (start_sys stub_manager)"
  by (simp add: start_inv)

lemma start_fields [simp]:
  "rsMgr (start_sys m) = m" "rsMap (start_sys m) = []" "rsThreads (start_sys m) = []"
  by (simp_all add: start_sys_def)

lemma stub_abs [simp]: "abs_mgr (start_sys stub_manager) = stub_manager"
  by (simp add: abs_mgr_def start_sys_def stub_manager_def)

lemma stub_first:
  "view_of (fst (managedResolverFor (stub_ops ttl_service) c ''a'' stub_manager)) = Serving ttl_service"
  using managed_first(1) [of stub_manager "''a''" 0 "stub_ops ttl_service" c "Inr ttl_service" 1 LiveChan None 2]
  by (simp add: stub_ops_def seeded_def mr_store_def view_of_def mr_service_def)


lemma stub_closed_run:
  "\<exists>s u po. r_reach (stub_ops ttl_service) (start_sys stub_manager) s \<and> mClosed (rsMgr s)
     \<and> r_reach (stub_ops ttl_service) s u \<and> rsThreads s = [] \<and> rsWorkers s = []
     \<and> rsThreads u = [RDone po ''a'' (Unavailable ErrNoHealthyInstances)]"
proof -
  let ?ops = "stub_ops ttl_service" and ?s = "close_lock (start_sys stub_manager)"
  have 1: "r_step ?ops (start_sys stub_manager) ?s" by (rule r_step.close_map) (simp add: start_sys_def)
  have f: "mClosed (rsMgr ?s)" "rsThreads ?s = []" "rsWorkers ?s = []" "rsMap ?s = []"
    by (simp_all add: close_lock_def start_sys_def)
  have "managedResolverFor ?ops Background ''a'' (abs_mgr ?s) = (new_resolver, abs_mgr ?s)"
    using f(1,4) by (simp add: managedResolverFor_def abs_mgr_def)
  then obtain u po where "r_reach ?ops ?s u" "rsThreads u = [RDone po ''a'' (view_of new_resolver)]"
    using lookup_runs [OF r_step_inv [OF 1 stub_start_inv], of "''a''" ?ops Background new_resolver] f(2,4)
    by auto
  then show ?thesis
    using f r_first [OF 1 reach.refl]
    by (intro exI [of _ ?s] exI [of _ u]) (auto simp: view_of_def mr_service_def mr_emptyErr_def new_resolver_def)
qed

section \<open>Properties\<close>



text \<open>
  C10. Close ends the watching however it interleaves with lookups in flight: from then on every
  watch loop there is or will be (also one whose seed was under way) runs on a done context and no
  resolver can be found by name. Once the lookups that had passed their closed test are through,
  no lookup, whenever it starts, makes the layer call the backend again and no watch loop is added; a loop
  that is still there may re-resolve until its select takes the done context, and when all those loops have
  returned the layer makes no call at all.
\<close>

theorem close_is_final:
  assumes "New mk cfg [Some (WithLogger l), Some (WithWorkload w)] = Inr m"
    and "r_reach ops (start_sys m) s" and "mClosed (rsMgr s)" and "r_reach ops s u"
  shows "(\<forall>k \<in> set (rsWorkers u). loop_done (wkLoop k) (rsMgr u)) \<and> rsMap u = []
     \<and> (list_all (\<lambda>pc. \<not> asking pc) (rsThreads s) \<longrightarrow>
          filter of_lookup (rsCalls u) = filter of_lookup (rsCalls s)
          \<and> wkLoop ` set (rsWorkers u) \<subseteq> wkLoop ` set (rsWorkers s)
          \<and> (rsWorkers s = [] \<longrightarrow> rsCalls u = rsCalls s))"
proof (intro conjI impI)
  note S = New_start [OF assms(1,2)]
  note U = r_invD [OF rs.reach_inv [OF assms(4) S]] and closed = rs_closed.reach_inv [OF assms(4,3)]
  show "\<forall>k \<in> set (rsWorkers u). loop_done (wkLoop k) (rsMgr u)"
    using U(1) closed by (simp add: loop_done_def)
  show "rsMap u = []" using U(2) closed by (simp add: objs_ok_def)
  assume "list_all (\<lambda>pc. \<not> asking pc) (rsThreads s)"
  then have "no_more s s" using r_invD(2) [OF S] assms(3) by (simp add: no_more_def idle_sys_def objs_ok_def)
  then have "no_more s u" by (rule rs_idle.reach_inv [OF assms(4)])
  then show "filter of_lookup (rsCalls u) = filter of_lookup (rsCalls s)"
    "wkLoop ` set (rsWorkers u) \<subseteq> wkLoop ` set (rsWorkers s)" "rsWorkers s = [] \<Longrightarrow> rsCalls u = rsCalls s"
    by (simp_all add: no_more_def)
qed

theorem close_is_final_witness:
  "\<exists>s u po. r_reach (stub_ops ttl_service) s u \<and> mClosed (rsMgr s) \<and> rsCalls u = rsCalls s
     \<and> rsThreads u = [RDone po ''a'' (Unavailable ErrNoHealthyInstances)]"
proof -
  obtain s u po where s: "r_reach (stub_ops ttl_service) (start_sys stub_manager) s" "mClosed (rsMgr s)"
    "r_reach (stub_ops ttl_service) s u" "rsThreads s = []" "rsWorkers s = []"
    "rsThreads u = [RDone po ''a'' (Unavailable ErrNoHealthyInstances)]" using stub_closed_run by blast
  from close_is_final [OF stub_New s(1-3)] s show ?thesis by auto
qed

text \<open>
  C11. No lookup is stuck, though all but one wait on \<open>once.Do\<close>: as long as some lookup has not
  returned, one of them can take a step that brings them nearer to the end; no step of a watch loop,
  of Close or of the backend undoes progress (only a new lookup adds work); and so from any state the
  lookups under way can all be run to their answer.
\<close>

theorem lookups_return:
  assumes "New mk cfg [Some (WithLogger l), Some (WithWorkload w)] = Inr m"
    and "r_reach ops (start_sys m) s"
  shows "(work s \<noteq> 0 \<longrightarrow> (\<exists>u. r_step ops s u \<and> work u < work s))
     \<and> (\<forall>u. r_step ops s u \<longrightarrow> length (rsThreads u) = length (rsThreads s) \<longrightarrow> work u \<le> work s)
     \<and> (\<exists>u. r_reach ops s u \<and> length (rsThreads u) = length (rsThreads s)
          \<and> (\<forall>pc \<in> set (rsThreads u). \<exists>po n v. pc = RDone po n v))"
proof (intro conjI allI impI)
  note inv = New_start [OF assms]
  show "\<exists>u. r_step ops s u \<and> work u < work s" if "work s \<noteq> 0"
    using some_thread_steps [OF inv that] by blast
  show "work u \<le> work s" if "r_step ops s u" "length (rsThreads u) = length (rsThreads s)" for u
    using step_work [OF that(1)] that(2) by (auto simp: work_def)
  have returned: "\<exists>po n v. pc = RDone po n v" if "steps_left pc = 0" for pc
    using that by (cases pc) simp_all
  obtain u where "r_reach ops s u" "work u = 0" "length (rsThreads u) = length (rsThreads s)"
    using finish [OF inv] by blast
  then show "\<exists>u. r_reach ops s u \<and> length (rsThreads u) = length (rsThreads s)
      \<and> (\<forall>pc \<in> set (rsThreads u). \<exists>po n v. pc = RDone po n v)"
    using returned by (intro exI [of _ u]) (auto simp: work_def sum_list_eq_0_iff)
qed

theorem lookups_return_witness:
  "\<exists>s u. rsThreads s = [RStart Background ''a''] \<and> r_reach (stub_ops ttl_service) s u
     \<and> length (rsThreads u) = 1 \<and> (\<forall>pc \<in> set (rsThreads u). \<exists>po n v. pc = RDone po n v)"
proof -
  let ?s = "(start_sys stub_manager)\<lparr>rsThreads := [RStart Background ''a'']\<rparr>"
  have "r_step (stub_ops ttl_service) (start_sys stub_manager) ?s"
    using r_step.spawn [of _ "start_sys stub_manager"] by (simp add: start_sys_def)
  from lookups_return [OF stub_New r_first [OF this reach.refl]]
  obtain u where "r_reach (stub_ops ttl_service) ?s u" "length (rsThreads u) = length (rsThreads ?s)"
    "\<forall>pc \<in> set (rsThreads u). \<exists>po n v. pc = RDone po n v" by blast
  then show ?thesis by (intro exI [of _ ?s] exI [of _ u]) simp
qed

text \<open>
  C19. Refinement: from any reachable state in which no other lookup is seeding the name, a lookup
  that then runs alone computes exactly what the sequential \<open>managedResolverFor\<close> computes on the
  manager's abstraction: the same resolver is read, and the manager, its backend and its watch loops
  are left in the same state.
\<close>

theorem lookup_refines:
  assumes "New mk cfg [Some (WithLogger l), Some (WithWorkload w)] = Inr m0"
    and "r_reach ops (start_sys m0) s"
    and "\<And>p. map_of (rsMap s) n = Some p \<Longrightarrow> obOnce (rsObjs s ! p) \<noteq> OnceRunning"
    and "managedResolverFor ops c n (abs_mgr s) = (mr, m)"
  shows "\<exists>u po. r_reach ops s u \<and> rsThreads u = rsThreads s @ [RDone po n (view_of mr)] \<and> abs_mgr u = m"
  using lookup_runs [OF New_start [OF assms(1,2)] assms(3,4)] .

theorem lookup_refines_witness:
  "\<exists>u po. r_reach (stub_ops ttl_service) (start_sys stub_manager) u
     \<and> rsThreads u = [RDone po ''a'' (Serving ttl_service)]"
proof -
  obtain mr m where "managedResolverFor (stub_ops ttl_service) Background ''a'' stub_manager = (mr, m)" by fastforce
  with lookup_refines [OF stub_New reach.refl, of "''a''" "stub_ops ttl_service" Background mr m]
    stub_first [of Background]
  show ?thesis by auto
qed

end
