(* ===== verification/CellReads.thy ===== *)
theory CellReads
  imports ManagedResolver
begin

text \<open>
  The managed cell at the granularity of its atomics (\<open>managed_resolver.go\<close>): \<open>store\<close> is three atomic
  writes and \<open>clear\<close> two, by a single writer at a time (the seed, then the watch loop), while readers load
  \<open>seeded\<close> and then \<open>current\<close>, or \<open>authEmpty\<close> and then \<open>seedErr\<close>. Go's atomics are sequentially
  consistent, so a read is given by how many of the writes precede each of its loads.
\<close>

section \<open>Writes and loads\<close>

datatype atomic_write = WCurrent service | WAuthEmpty bool | WSeeded bool

fun exec_write :: "atomic_write \<Rightarrow> managed_resolver \<Rightarrow> managed_resolver" where
  "exec_write (WCurrent s) mr = mr\<lparr>mrCurrent := Some s\<rparr>"
| "exec_write (WAuthEmpty b) mr = mr\<lparr>mrAuthEmpty := b\<rparr>"
| "exec_write (WSeeded b) mr = mr\<lparr>mrSeeded := b\<rparr>"

definition store_writes :: "service \<Rightarrow> atomic_write list" where
  "store_writes svc = [WCurrent svc, WAuthEmpty False, WSeeded True]"

definition clear_writes :: "atomic_write list" where
  "clear_writes = [WAuthEmpty True, WSeeded False]"

text \<open>What the update loop writes for one answer of the backend.\<close>

definition writes_of :: "go_error + service \<Rightarrow> atomic_write list" where
  "writes_of res =
     (case res of
        Inr svc \<Rightarrow> store_writes svc
      | Inl e \<Rightarrow> if errors_Is e ErrNoHealthyInstances then clear_writes else [])"

definition cell_after :: "nat \<Rightarrow> (go_error + service) list \<Rightarrow> managed_resolver \<Rightarrow> managed_resolver" where
  "cell_after i rs mr = fold exec_write (take i (concat (map writes_of rs))) mr"

text \<open>
  A request-path read: \<open>service()\<close>, and \<open>emptyErr()\<close> when there is none. Its first load comes after
  \<open>i\<close> writes, the second after \<open>j\<close>; \<open>seedErr\<close> is not written any more.
\<close>

definition read_cell :: "nat \<Rightarrow> nat \<Rightarrow> (go_error + service) list \<Rightarrow> managed_resolver \<Rightarrow> cache_view" where
  "read_cell i j rs mr =
     (if mrSeeded (cell_after i rs mr)
      then Serving (case mrCurrent (cell_after j rs mr) of None \<Rightarrow> empty_service | Some s \<Rightarrow> s)
      else if mrAuthEmpty (cell_after j rs mr) then Unavailable ErrNoHealthyInstances
      else Unavailable (case mrSeedErr mr of Some e \<Rightarrow> e | None \<Rightarrow> ErrNoHealthyInstances))"

text \<open>How many updates are complete, and how many have begun, after so many writes.\<close>

fun completed :: "nat \<Rightarrow> (go_error + service) list \<Rightarrow> nat" where
  "completed i [] = 0"
| "completed i (r # rs) =
     (if length (writes_of r) \<le> i then Suc (completed (i - length (writes_of r)) rs) else 0)"

fun begun :: "nat \<Rightarrow> (go_error + service) list \<Rightarrow> nat" where
  "begun i [] = 0"
| "begun i (r # rs) =
     (if length (writes_of r) \<le> i then Suc (begun (i - length (writes_of r)) rs)
      else if i = 0 then 0 else 1)"

definition cell_wf :: "managed_resolver \<Rightarrow> bool" where
  "cell_wf mr \<longleftrightarrow> (mrSeeded mr \<longrightarrow> mrCurrent mr \<noteq> None \<and> \<not> mrAuthEmpty mr)"

section \<open>Whole updates\<close>

abbreviation updated :: "nat \<Rightarrow> (go_error + service) list \<Rightarrow> managed_resolver \<Rightarrow> managed_resolver" where
  "updated k rs mr \<equiv> fold cell.update (take k rs) mr"

lemma writes_update: "fold exec_write (writes_of res) mr = cell.update res mr"
  by (cases res)
     (simp_all add: writes_of_def store_writes_def clear_writes_def cell.update_def mr_store_def mr_clear_def)

lemma update_fields [simp]: "mrSeedErr (cell.update res mr) = mrSeedErr mr"
  by (cases res) (simp_all add: cell.update_def mr_store_def mr_clear_def)

lemma updates_seedErr [simp]: "mrSeedErr (fold cell.update rs mr) = mrSeedErr mr"
  by (induction rs arbitrary: mr) simp_all

lemma update_wf: "cell_wf mr \<Longrightarrow> cell_wf (cell.update res mr)"
  by (cases res) (simp_all add: cell.update_def mr_store_def mr_clear_def cell_wf_def)

lemma updates_wf: "cell_wf mr \<Longrightarrow> cell_wf (fold cell.update rs mr)"
  by (induction rs arbitrary: mr) (simp_all add: update_wf)

text \<open>An update that leaves the cell unseeded keeps its value.\<close>

lemma unseeded_keeps: "\<not> mrSeeded (cell.update res mr) \<Longrightarrow> mrCurrent (cell.update res mr) = mrCurrent mr"
  by (cases res) (simp_all add: cell.update_def mr_store_def mr_clear_def)

lemma completed_begun: "i \<le> j \<Longrightarrow> completed i rs \<le> begun j rs"
proof (induction rs arbitrary: i j)
  case (Cons r rs)
  then show ?case by (auto simp: diff_le_mono)
qed simp

lemma begun_le: "begun j rs \<le> length rs"
  by (induction rs arbitrary: j) auto

text \<open>The flag is written last, so it is that of the complete updates.\<close>

lemma seeded_after: "mrSeeded (cell_after i rs mr) = mrSeeded (updated (completed i rs) rs mr)"
proof (induction rs arbitrary: i mr)
  case (Cons r rs)
  show ?case
  proof (cases "length (writes_of r) \<le> i")
    case True
    have "cell_after i (r # rs) mr = cell_after (i - length (writes_of r)) rs (cell.update r mr)"
      using True by (simp add: cell_after_def writes_update)
    then show ?thesis using True Cons.IH by simp
  next
    case False
    then have "cell_after i (r # rs) mr = fold exec_write (take i (writes_of r)) mr" by (simp add: cell_after_def)
    also have "mrSeeded \<dots> = mrSeeded mr"
      using False
      by (auto simp: writes_of_def store_writes_def clear_writes_def take_Cons' split: sum.splits if_splits)
    finally show ?thesis using False by simp
  qed
qed (simp add: cell_after_def)

text \<open>The other fields are those of the complete updates, or of these and the one under way.\<close>

lemma field_after:
  assumes part: "\<And>r i m. i < length (writes_of r) \<Longrightarrow>
      f (fold exec_write (take i (writes_of r)) m) = f m
      \<or> i \<noteq> 0 \<and> f (fold exec_write (take i (writes_of r)) m) = f (cell.update r m)"
  shows "\<exists>k. completed j rs \<le> k \<and> k \<le> begun j rs \<and> f (cell_after j rs mr) = f (updated k rs mr)"
proof (induction rs arbitrary: j mr)
  case (Cons r rs)
  let ?n = "length (writes_of r)"
  show ?case
  proof (cases "?n \<le> j")
    case True
    then have "cell_after j (r # rs) mr = cell_after (j - ?n) rs (cell.update r mr)"
      by (simp add: cell_after_def writes_update)
    moreover obtain k where "completed (j - ?n) rs \<le> k" "k \<le> begun (j - ?n) rs"
      "f (cell_after (j - ?n) rs (cell.update r mr)) = f (updated k rs (cell.update r mr))"
      using Cons.IH by blast
    ultimately show ?thesis using True by (intro exI [of _ "Suc k"]) simp
  next
    case False
    then have "cell_after j (r # rs) mr = fold exec_write (take j (writes_of r)) mr"
      by (simp add: cell_after_def)
    then have "f (cell_after j (r # rs) mr) = f mr
        \<or> j \<noteq> 0 \<and> f (cell_after j (r # rs) mr) = f (cell.update r mr)"
      using part [of j r mr] False by simp
    then show ?thesis
      using False by (elim disjE) (intro exI [of _ 0], simp, intro exI [of _ 1], simp)
  qed
qed (simp add: cell_after_def)

lemmas write_lists = writes_of_def store_writes_def clear_writes_def cell.update_def mr_store_def mr_clear_def

lemma current_after:
  "\<exists>k. completed j rs \<le> k \<and> k \<le> begun j rs \<and> mrCurrent (cell_after j rs mr) = mrCurrent (updated k rs mr)"
  by (rule field_after) (auto simp: write_lists take_Cons' split: sum.splits if_splits)

lemma authEmpty_after:
  "\<exists>k. completed j rs \<le> k \<and> k \<le> begun j rs \<and> mrAuthEmpty (cell_after j rs mr) = mrAuthEmpty (updated k rs mr)"
  by (rule field_after) (auto simp: write_lists take_Cons' split: sum.splits if_splits)

lemma completed_mono: "i \<le> j \<Longrightarrow> completed i rs \<le> completed j rs"
  by (induction rs arbitrary: i j) (auto simp: diff_le_mono)

lemma updated_Suc: "k < length rs \<Longrightarrow> updated (Suc k) rs mr = cell.update (rs ! k) (updated k rs mr)"
  by (simp add: take_Suc_conv_app_nth)

lemma last_seeded:
  assumes "a \<le> b" "mrSeeded (updated a rs mr)"
  shows "\<exists>k. a \<le> k \<and> k \<le> b \<and> mrSeeded (updated k rs mr)
    \<and> mrCurrent (updated k rs mr) = mrCurrent (updated b rs mr)"
  using assms(1)
proof (induction rule: dec_induct)
  case (step b)
  show ?case
  proof (cases "b < length rs \<and> mrSeeded (updated (Suc b) rs mr)")
    case True
    then show ?thesis using step(1) by (intro exI [of _ "Suc b"]) auto
  next
    case False
    then have "mrCurrent (updated (Suc b) rs mr) = mrCurrent (updated b rs mr)"
      by (cases "b < length rs") (auto simp: updated_Suc unseeded_keeps)
    then show ?thesis using step.IH by (metis le_Suc_eq)
  qed
qed (use assms(2) in blast)

section \<open>Properties\<close>

text \<open>
  C16. Reads of the cell linearise: whatever writes of the update loop fall between the loads of a
  reader, it answers what the cell said after some number of whole updates, at least those complete
  when the read began and at most those begun when it ended; never a service that was not stored, and
  never the zero one. The only other answer is the seed's error, when the cell had been emptied after
  a failed seed.
\<close>

theorem reads_linearise:
  assumes "cell_wf mr" and "i \<le> j"
  shows "(\<exists>k. completed i rs \<le> k \<and> k \<le> begun j rs
        \<and> read_cell i j rs mr = view_of (fold cell.update (take k rs) mr))
     \<or> (\<exists>e. mrSeedErr mr = Some e \<and> read_cell i j rs mr = Unavailable e
          \<and> view_of (fold cell.update (take (completed i rs) rs) mr) = Unavailable ErrNoHealthyInstances)"
proof -
  let ?a = "completed i rs"
  have wf: "cell_wf (updated k rs mr)" for k using updates_wf [OF assms(1)] .
  have mono: "?a \<le> completed j rs" using completed_mono [OF assms(2)] .
  show ?thesis
  proof (cases "mrSeeded (updated ?a rs mr)")
    case True
    obtain b where b: "completed j rs \<le> b" "b \<le> begun j rs"
      "mrCurrent (cell_after j rs mr) = mrCurrent (updated b rs mr)" using current_after by blast
    obtain k where k: "?a \<le> k" "k \<le> b" "mrSeeded (updated k rs mr)"
      "mrCurrent (updated k rs mr) = mrCurrent (updated b rs mr)"
      using last_seeded [of ?a b] mono b(1) True by auto
    then have "read_cell i j rs mr = view_of (updated k rs mr)"
      using True b(3) by (simp add: read_cell_def seeded_after view_of_def mr_service_def split: option.splits)
    then show ?thesis using k(1,2) b(2) by (metis le_trans)
  next
    case unseeded: False
    obtain b where b: "completed j rs \<le> b" "b \<le> begun j rs"
      "mrAuthEmpty (cell_after j rs mr) = mrAuthEmpty (updated b rs mr)" using authEmpty_after by blast
    show ?thesis
    proof (cases "mrAuthEmpty (updated b rs mr)")
      case True
      then have "read_cell i j rs mr = view_of (updated b rs mr)"
        using unseeded b(3) wf [of b]
        by (simp add: read_cell_def seeded_after view_of_def mr_service_def mr_emptyErr_def cell_wf_def)
      then show ?thesis using b mono by (metis le_trans)
    next
      case False
      then have "read_cell i j rs mr
          = Unavailable (case mrSeedErr mr of Some e \<Rightarrow> e | None \<Rightarrow> ErrNoHealthyInstances)"
        using unseeded b(3) by (simp add: read_cell_def seeded_after)
      moreover have "view_of (updated ?a rs mr) = Unavailable (if mrAuthEmpty (updated ?a rs mr)
          then ErrNoHealthyInstances else case mrSeedErr mr of Some e \<Rightarrow> e | None \<Rightarrow> ErrNoHealthyInstances)"
        using unseeded by (simp add: view_of_def mr_service_def mr_emptyErr_def)
      ultimately show ?thesis
        using completed_begun [OF assms(2), of rs]
        by (cases "mrAuthEmpty (updated ?a rs mr)"; cases "mrSeedErr mr") auto
    qed
  qed
qed

theorem reads_linearise_witness:
  "(\<exists>k. 1 \<le> k \<and> k \<le> 2 \<and> read_cell 3 4 [Inr empty_service, Inr (empty_service\<lparr>sPort := 80\<rparr>)] new_resolver
        = view_of (fold cell.update (take k [Inr empty_service, Inr (empty_service\<lparr>sPort := 80\<rparr>)]) new_resolver))
   \<and> read_cell 3 4 [Inr empty_service, Inr (empty_service\<lparr>sPort := 80\<rparr>)] new_resolver
     = Serving (empty_service\<lparr>sPort := 80\<rparr>)"
proof
  have "cell_wf new_resolver" by (simp add: cell_wf_def new_resolver_def)
  from reads_linearise [OF this, of 3 4 "[Inr empty_service, Inr (empty_service\<lparr>sPort := 80\<rparr>)]"]
  show "\<exists>k. 1 \<le> k \<and> k \<le> 2 \<and> read_cell 3 4 [Inr empty_service, Inr (empty_service\<lparr>sPort := 80\<rparr>)] new_resolver
      = view_of (fold cell.update (take k [Inr empty_service, Inr (empty_service\<lparr>sPort := 80\<rparr>)]) new_resolver)"
    by (simp add: writes_of_def store_writes_def new_resolver_def numeral_2_eq_2)
qed (simp add: read_cell_def cell_after_def writes_of_def store_writes_def numeral_eq_Suc)

text \<open>
  C40. The stale seed error is real: after a failed seed, an instance that came up and went away again
  (an authoritative empty), a reader that meets the next instance's arrival between its two loads is
  given the seed's old error, which the cell had not said since the first instance came up.
\<close>

theorem stale_seed_error:
  assumes "\<not> mrSeeded mr" and "mrSeedErr mr = Some e" and "errors_Is gone ErrNoHealthyInstances"
    and "e \<noteq> ErrNoHealthyInstances" and "rs = [Inr s, Inl gone, Inr s']"
  shows "\<exists>i j. i \<le> j \<and> completed i rs = 2 \<and> read_cell i j rs mr = Unavailable e
     \<and> (\<forall>k. 1 \<le> k \<longrightarrow> view_of (fold cell.update (take k rs) mr) \<noteq> Unavailable e)"
proof (intro exI conjI allI impI)
  have w: "map writes_of rs = [store_writes s, clear_writes, store_writes s']"
    using assms(3,5) by (simp add: writes_of_def)
  show "(5::nat) \<le> 7" by simp
  show "completed 5 rs = 2" using assms(3,5) by (simp add: writes_of_def store_writes_def clear_writes_def)
  show "read_cell 5 7 rs mr = Unavailable e"
    using assms(2) unfolding read_cell_def cell_after_def w
    by (simp add: store_writes_def clear_writes_def)
  fix k :: nat assume "1 \<le> k"
  then have "k = 1 \<or> k = 2 \<or> 3 \<le> k" by arith
  then show "view_of (updated k rs mr) \<noteq> Unavailable e"
    using assms(3-5) by (auto simp: cell.view_updates numeral_2_eq_2)
qed

theorem stale_seed_error_witness:
  "\<exists>i j. i \<le> j \<and> read_cell i j [Inr empty_service, Inl ErrNoHealthyInstances, Inr empty_service]
     (new_resolver\<lparr>mrOnce := True, mrSeedErr := Some (Foreign ''timeout'')\<rparr>) = Unavailable (Foreign ''timeout'')"
proof -
  let ?mr = "new_resolver\<lparr>mrOnce := True, mrSeedErr := Some (Foreign ''timeout'')\<rparr>"
  have "\<not> mrSeeded ?mr" "mrSeedErr ?mr = Some (Foreign ''timeout'')" by (simp_all add: new_resolver_def)
  from stale_seed_error [OF this, of ErrNoHealthyInstances _ empty_service empty_service]
  show ?thesis by fastforce
qed

end
