(* ===== verification/WatchPipeline.thy ===== *)
theory WatchPipeline
  imports DynamicResolution Reachability
begin

text \<open>
  A watch as the two goroutines it is: the loop of \<open>consul.go\<close> that polls the catalog and sends events,
  and the update loop (\<open>runManagedUpdates\<close> or \<open>runResolverUpdates\<close>) that re-resolves on each, with the
  buffered channel between them and the context that ends both. A step is one select, poll, sleep or
  resolution of either, or the cancellation; a select with several ready cases is several rules. The backend
  may be in any state when the update loop asks it. It is one whose Resolve does not panic: the panic that
  ends an update loop is in the sequential readings of the two loops, not here.
\<close>

section \<open>The state\<close>

text \<open>Where the watch loop is: at its head, in a poll, after a failed one, in a sleep, with entries to send.\<close>

datatype watch_pc =
    AtHead
  | Polling
  | PollFailed string
  | Backoff duration
  | Sending "service_entry list"
  | Returned

datatype update_pc = Waiting | Resolving | Gone

text \<open>What an update loop refreshes.\<close>

datatype sink = Managed managed_resolver | Dynamic dynamic_resolver

fun sink_update ::
    "'r registry_ops \<Rightarrow> ctx \<Rightarrow> string \<Rightarrow> string \<Rightarrow> sink \<times> 'r \<Rightarrow> sink \<times> 'r" where
  "sink_update ops c name tag (Managed mr, r) =
     (case managed_update ops c name tag (mr, r) of ((mr', r'), l) \<Rightarrow> (Managed mr', r'))"
| "sink_update ops c name tag (Dynamic dr, r) =
     (case resolver_update ops c name tag (dr, r) of ((dr', r'), ls) \<Rightarrow> (Dynamic dr', r'))"

text \<open>
  \<open>ppChan\<close> is the channel's buffer and \<open>ppDone\<close> the state of the context the two loops share. The last four
  record the history: the replies of the polls, the events sent and received, and the backend's
  answers to the re-resolutions.
\<close>

record pipe =
  ppPc :: watch_pc
  ppWatch :: watch_state
  ppChan :: "event list"
  ppClosed :: bool
  ppUpd :: update_pc
  ppSink :: sink
  ppDone :: bool
  ppReplies :: "(string + service_entry list \<times> nat) list"
  ppSent :: "event list"
  ppTaken :: "event list"
  ppAnswers :: "(go_error + service) list"

definition watchBuffer :: nat where
  "watchBuffer = 16"

definition start_watch :: watch_state where
  "start_watch = \<lparr>wsLast = 0, wsAttempt = 0\<rparr>"

definition start_pipe :: "sink \<Rightarrow> pipe" where
  "start_pipe k =
     \<lparr>ppPc = AtHead, ppWatch = start_watch, ppChan = [], ppClosed = False, ppUpd = Waiting, ppSink = k,
      ppDone = False, ppReplies = [], ppSent = [], ppTaken = [], ppAnswers = []\<rparr>"

text \<open>The deferred \<open>close(ch)\<close> when the watch loop returns.\<close>

definition loop_returns :: "pipe \<Rightarrow> pipe" where
  "loop_returns s = s\<lparr>ppPc := Returned, ppClosed := True\<rparr>"

text \<open>\<open>sleepCtx\<close>: it may return false once the context is done, and true when its timer has fired.\<close>

definition sleepCtx :: "bool \<Rightarrow> bool \<Rightarrow> bool set" where
  "sleepCtx b fired = (if b then {False} else {}) \<union> (if fired then {True} else {})"

lemma sleepCtx_iff [simp]: "False \<in> sleepCtx b fired \<longleftrightarrow> b" "True \<in> sleepCtx b fired \<longleftrightarrow> fired"
  by (auto simp: sleepCtx_def)

section \<open>Steps\<close>

text \<open>The watch loop and, inside its sends, \<open>emitEntries\<close>.\<close>

inductive watch_step :: "pipe \<Rightarrow> pipe \<Rightarrow> bool" where
  head_done:
    "\<lbrakk>ppPc s = AtHead; ppDone s\<rbrakk> \<Longrightarrow> watch_step s (loop_returns s)"
| head_polls:
    "\<lbrakk>ppPc s = AtHead; \<not> ppDone s\<rbrakk> \<Longrightarrow> watch_step s (s\<lparr>ppPc := Polling\<rparr>)"
| poll_fails:
    "ppPc s = Polling \<Longrightarrow>
     watch_step s (s\<lparr>ppPc := PollFailed e, ppReplies := ppReplies s @ [Inl e]\<rparr>)"
| poll_rewinds:
    "\<lbrakk>ppPc s = Polling; i < wsLast (ppWatch s)\<rbrakk> \<Longrightarrow>
     watch_step s
       (s\<lparr>ppPc := AtHead, ppWatch := \<lparr>wsLast = 0, wsAttempt = 0\<rparr>,
          ppReplies := ppReplies s @ [Inr (es, i)]\<rparr>)"
| poll_idles:
    "\<lbrakk>ppPc s = Polling; i = wsLast (ppWatch s)\<rbrakk> \<Longrightarrow>
     watch_step s
       (s\<lparr>ppPc := AtHead, ppWatch := \<lparr>wsLast = i, wsAttempt = 0\<rparr>,
          ppReplies := ppReplies s @ [Inr (es, i)]\<rparr>)"
| poll_advances:
    "\<lbrakk>ppPc s = Polling; wsLast (ppWatch s) < i\<rbrakk> \<Longrightarrow>
     watch_step s
       (s\<lparr>ppPc := Sending es, ppWatch := \<lparr>wsLast = i, wsAttempt = 0\<rparr>,
          ppReplies := ppReplies s @ [Inr (es, i)]\<rparr>)"
| failed_done:
    "\<lbrakk>ppPc s = PollFailed e; ppDone s\<rbrakk> \<Longrightarrow> watch_step s (loop_returns s)"
| failed_backs_off:
    "\<lbrakk>ppPc s = PollFailed e; \<not> ppDone s\<rbrakk> \<Longrightarrow>
     watch_step s (s\<lparr>ppPc := Backoff (backoffDuration (wsAttempt (ppWatch s)))\<rparr>)"
| sleep_cut:
    "\<lbrakk>ppPc s = Backoff d; False \<in> sleepCtx (ppDone s) fired\<rbrakk> \<Longrightarrow> watch_step s (loop_returns s)"
| sleep_ends:
    "\<lbrakk>ppPc s = Backoff d; True \<in> sleepCtx (ppDone s) fired\<rbrakk> \<Longrightarrow>
     watch_step s
       (s\<lparr>ppPc := AtHead, ppWatch := (ppWatch s)\<lparr>wsAttempt := wsAttempt (ppWatch s) + 1\<rparr>\<rparr>)"
| send:
    "\<lbrakk>ppPc s = Sending (e # es); length (ppChan s) < watchBuffer\<rbrakk> \<Longrightarrow>
     watch_step s
       (s\<lparr>ppPc := Sending es, ppChan := ppChan s @ [entry_event e], ppSent := ppSent s @ [entry_event e]\<rparr>)"
| send_cut:
    "\<lbrakk>ppPc s = Sending (e # es); ppDone s\<rbrakk> \<Longrightarrow> watch_step s (loop_returns s)"
| sent_all:
    "ppPc s = Sending [] \<Longrightarrow> watch_step s (s\<lparr>ppPc := AtHead\<rparr>)"

text \<open>The update loop.\<close>

inductive update_step :: "'r registry_ops \<Rightarrow> string \<Rightarrow> string \<Rightarrow> pipe \<Rightarrow> pipe \<Rightarrow> bool" for ops name tag where
  receive:
    "\<lbrakk>ppUpd s = Waiting; ppChan s = ev # evs\<rbrakk> \<Longrightarrow>
     update_step ops name tag s (s\<lparr>ppChan := evs, ppUpd := Resolving, ppTaken := ppTaken s @ [ev]\<rparr>)"
| receive_closed:
    "\<lbrakk>ppUpd s = Waiting; ppChan s = []; ppClosed s\<rbrakk> \<Longrightarrow> update_step ops name tag s (s\<lparr>ppUpd := Gone\<rparr>)"
| receive_done:
    "\<lbrakk>ppUpd s = Waiting; ppDone s\<rbrakk> \<Longrightarrow> update_step ops name tag s (s\<lparr>ppUpd := Gone\<rparr>)"
| refresh:
    "\<lbrakk>ppUpd s = Resolving; c = \<lparr>ctxDone = ppDone s, ctxDeadline = None\<rparr>;
      sink_update ops c name tag (ppSink s, r) = (k, r')\<rbrakk> \<Longrightarrow>
     update_step ops name tag s
       (s\<lparr>ppUpd := Waiting, ppSink := k, ppAnswers := ppAnswers s @ [fst (opResolve ops c name tag r)]\<rparr>)"

inductive loop_step :: "'r registry_ops \<Rightarrow> string \<Rightarrow> string \<Rightarrow> pipe \<Rightarrow> pipe \<Rightarrow> bool" for ops name tag where
  watches: "watch_step s u \<Longrightarrow> loop_step ops name tag s u"
| updates: "update_step ops name tag s u \<Longrightarrow> loop_step ops name tag s u"

inductive pipe_step :: "'r registry_ops \<Rightarrow> string \<Rightarrow> string \<Rightarrow> pipe \<Rightarrow> pipe \<Rightarrow> bool" for ops name tag where
  loop: "loop_step ops name tag s u \<Longrightarrow> pipe_step ops name tag s u"
| cancel: "pipe_step ops name tag s (s\<lparr>ppDone := True\<rparr>)"

inductive_cases watch_stepE: "watch_step s u"
inductive_cases update_stepE: "update_step ops name tag s u"
inductive_cases loop_stepE: "loop_step ops name tag s u"
inductive_cases pipe_stepE: "pipe_step ops name tag s u"

lemmas watch_moves = watch_step.intros [THEN loop_step.watches]
lemmas update_moves = update_step.intros [THEN loop_step.updates]

abbreviation pipe_reach :: "'r registry_ops \<Rightarrow> string \<Rightarrow> string \<Rightarrow> pipe \<Rightarrow> pipe \<Rightarrow> bool" where
  "pipe_reach ops name tag \<equiv> reach (pipe_step ops name tag)"

section \<open>The two loops against their sequential readings\<close>

text \<open>The state the watch loop is in after undisturbed turns with these replies.\<close>

fun reply_state :: "string + service_entry list \<times> nat \<Rightarrow> watch_state \<Rightarrow> watch_state" where
  "reply_state (Inl e) st = st\<lparr>wsAttempt := wsAttempt st + 1\<rparr>"
| "reply_state (Inr (es, i)) st = \<lparr>wsLast = (if i < wsLast st then 0 else i), wsAttempt = 0\<rparr>"

abbreviation replay :: "(string + service_entry list \<times> nat) list \<Rightarrow> watch_state" where
  "replay rs \<equiv> fold reply_state rs start_watch"

text \<open>The events of the snapshots that are published for these replies.\<close>

definition feed :: "(string + service_entry list \<times> nat) list \<Rightarrow> event list" where
  "feed rs = concat (map (map entry_event) (published 0 rs))"

lemma calm_turn: "snd (watch_turn r cx n (calm res) st) = Some (reply_state res st)"
  by (cases res) (auto simp: watch_turn_def calm_def Let_def)

lemma calm_run: "snd (watch_run r cx n (map calm rs) st) = Some (fold reply_state rs st)"
proof (induction rs arbitrary: st)
  case (Cons res rs)
  show ?case using calm_turn [of r cx n res st] Cons.IH [of "reply_state res st"] by (auto split: prod.splits)
qed simp

lemma calm_events: "events_of (fst (watchLoop r cx n (map calm rs))) = feed rs"
  unfolding watchLoop_def feed_def
  by (subst watch_run_events) (simp_all add: list_all_iff undisturbed_def calm_def comp_def)

lemma published_snoc:
  "published (wsLast st) (rs @ [res]) = published (wsLast st) rs
     @ (case res of Inl e \<Rightarrow> [] | Inr (es, i) \<Rightarrow> if wsLast (fold reply_state rs st) < i then [es] else [])"
proof (induction rs arbitrary: st)
  case Nil
  then show ?case by (cases res) (auto split: prod.splits)
next
  case (Cons x xs)
  show ?case
  proof (cases x)
    case (Inl e)
    then show ?thesis using Cons.IH [of "reply_state x st"] by (cases res) simp_all
  next
    case (Inr p)
    obtain es i where "p = (es, i)" by (cases p)
    then show ?thesis using Inr Cons.IH [of "reply_state x st"] by (cases res) auto
  qed
qed

lemma feed_snoc:
  "feed (rs @ [res]) = feed rs
     @ (case res of Inl e \<Rightarrow> [] | Inr (es, i) \<Rightarrow> if wsLast (replay rs) < i then map entry_event es else [])"
  using published_snoc [of start_watch rs res]
  by (auto simp: feed_def start_watch_def split: sum.splits)

text \<open>The run of the loop with these replies and a last turn in which it returned.\<close>

lemma last_turn:
  assumes "snd (watch_turn r cx n t (replay rs)) = None"
  shows "snd (watchLoop r cx n (map calm rs @ [t])) = None"
    and "events_of (fst (watchLoop r cx n (map calm rs @ [t])))
       = feed rs @ events_of (fst (watch_turn r cx n t (replay rs)))"
proof -
  have run: "watch_run r cx n (map calm rs @ [t]) st =
      (fst (watch_run r cx n (map calm rs) st) @ fst (watch_run r cx n [t] (fold reply_state rs st)),
       snd (watch_run r cx n [t] (fold reply_state rs st)))" for st
  proof (induction rs arbitrary: st)
    case (Cons res rs)
    then show ?case using calm_turn [of r cx n res st] by (auto split: prod.splits)
  qed simp
  have one: "watch_run r cx n [t] (replay rs) = (fst (watch_turn r cx n t (replay rs)) @ [CloseChan], None)"
    using assms by (auto split: prod.splits)
  show "snd (watchLoop r cx n (map calm rs @ [t])) = None"
    using run [of start_watch] one by (simp add: watchLoop_def start_watch_def del: watch_run.simps)
  show "events_of (fst (watchLoop r cx n (map calm rs @ [t])))
       = feed rs @ events_of (fst (watch_turn r cx n t (replay rs)))"
    using run [of start_watch] one calm_events [of r cx n rs]
    by (simp add: watchLoop_def start_watch_def del: watch_run.simps)
qed

text \<open>An update of the sink absorbs the backend's answer.\<close>

fun sink_absorb :: "go_error + service \<Rightarrow> sink \<Rightarrow> sink" where
  "sink_absorb res (Managed mr) = Managed (cell.update res mr)"
| "sink_absorb res (Dynamic dr) =
     Dynamic (dr\<lparr>drSnapshot := dyn_absorb (drView dr) (drFallback dr, drFallbackScheme dr) res (drSnapshot dr)\<rparr>)"

lemma sink_update_absorbs:
  "sink_update ops c name tag (k, r)
     = (sink_absorb (fst (opResolve ops c name tag r)) k, snd (opResolve ops c name tag r))"
proof (cases k)
  case (Managed mr)
  then show ?thesis using managed_update_cell [of ops c name tag mr r] by (auto split: prod.splits)
next
  case (Dynamic dr)
  then show ?thesis
    using resolver_update_step [of ops c name tag r _ _ dr] by (auto split: prod.splits) (metis fst_conv prod.collapse)+
qed

lemma managed_sink: "fold sink_absorb rs (Managed mr) = Managed (fold cell.update rs mr)"
  by (induction rs arbitrary: mr) simp_all

lemma dynamic_sink:
  "fold sink_absorb rs (Dynamic dr) =
     Dynamic (dr\<lparr>drSnapshot := fold (dyn_absorb (drView dr) (drFallback dr, drFallbackScheme dr)) rs (drSnapshot dr)\<rparr>)"
  by (induction rs arbitrary: dr) simp_all

section \<open>The invariant\<close>

text \<open>What the position of the watch loop says of its variables, the replies it had and what it sent.\<close>

fun loop_ok ::
    "'c consul_registry \<Rightarrow> ctx \<Rightarrow> string \<Rightarrow> watch_pc \<Rightarrow> watch_state
       \<Rightarrow> (string + service_entry list \<times> nat) list \<Rightarrow> event list \<Rightarrow> bool" where
  "loop_ok r cx n AtHead st rs sent \<longleftrightarrow> replay rs = st \<and> sent = feed rs"
| "loop_ok r cx n Polling st rs sent \<longleftrightarrow> replay rs = st \<and> sent = feed rs"
| "loop_ok r cx n (PollFailed e) st rs sent \<longleftrightarrow>
     (\<exists>rs0. rs = rs0 @ [Inl e] \<and> replay rs0 = st \<and> sent = feed rs)"
| "loop_ok r cx n (Backoff d) st rs sent \<longleftrightarrow>
     (\<exists>rs0 e. rs = rs0 @ [Inl e] \<and> replay rs0 = st \<and> sent = feed rs \<and> d = backoffDuration (wsAttempt st))"
| "loop_ok r cx n (Sending es) st rs sent \<longleftrightarrow>
     (\<exists>rs0 es0 i k. rs = rs0 @ [Inr (es0, i)] \<and> wsLast (replay rs0) < i \<and> st = \<lparr>wsLast = i, wsAttempt = 0\<rparr>
        \<and> es = drop k es0 \<and> sent = feed rs0 @ map entry_event (take k es0))"
| "loop_ok r cx n Returned st rs sent \<longleftrightarrow>
     (\<exists>rs0 t. (rs = rs0 \<or> rs = rs0 @ [tnResult t]) \<and> snd (watch_turn r cx n t (replay rs0)) = None
        \<and> sent = feed rs0 @ events_of (fst (watch_turn r cx n t (replay rs0))) \<and> prefix sent (feed rs))"

definition chan_ok :: "pipe \<Rightarrow> bool" where
  "chan_ok s \<longleftrightarrow> ppSent s = ppTaken s @ ppChan s \<and> length (ppChan s) \<le> watchBuffer"

definition life_ok :: "pipe \<Rightarrow> bool" where
  "life_ok s \<longleftrightarrow> (ppClosed s \<longleftrightarrow> ppPc s = Returned) \<and> (ppPc s = Returned \<longrightarrow> ppDone s)
     \<and> (ppUpd s = Gone \<longrightarrow> ppDone s)"

definition upd_ok :: "'r registry_ops \<Rightarrow> string \<Rightarrow> string \<Rightarrow> sink \<Rightarrow> pipe \<Rightarrow> bool" where
  "upd_ok ops name tag k s \<longleftrightarrow>
     length (ppTaken s) = length (ppAnswers s) + (if ppUpd s = Resolving then 1 else 0)
     \<and> ppSink s = fold sink_absorb (ppAnswers s) k
     \<and> (\<forall>res \<in> set (ppAnswers s). \<exists>c r. res = fst (opResolve ops c name tag r))"

definition pipe_inv ::
    "'c consul_registry \<Rightarrow> ctx \<Rightarrow> 'r registry_ops \<Rightarrow> string \<Rightarrow> string \<Rightarrow> sink \<Rightarrow> pipe \<Rightarrow> bool" where
  "pipe_inv r cx ops name tag k s \<longleftrightarrow>
     loop_ok r cx name (ppPc s) (ppWatch s) (ppReplies s) (ppSent s)
     \<and> chan_ok s \<and> life_ok s \<and> upd_ok ops name tag k s"

lemmas pipe_parts = chan_ok_def life_ok_def upd_ok_def loop_returns_def

text \<open>A turn in which the loop returned.\<close>

lemma returned_turn:
  assumes "snd (watch_turn r cx n t (replay rs0)) = None" and "rs = rs0 \<or> rs = rs0 @ [tnResult t]"
    and "sent = feed rs0 @ events_of (fst (watch_turn r cx n t (replay rs0)))" and "prefix sent (feed rs)"
  shows "loop_ok r cx n Returned st rs sent"
  using assms by auto

lemma returns_at_head:
  assumes "loop_ok r cx n AtHead st rs sent" shows "loop_ok r cx n Returned st' rs sent"
  by (rule returned_turn [of _ _ _ "(calm (Inl []))\<lparr>tnDone := True\<rparr>" rs])
     (use assms in \<open>simp_all add: watch_turn_def calm_def\<close>)

lemma returns_failed:
  assumes "loop_ok r cx n (PollFailed e) st rs sent" shows "loop_ok r cx n Returned st' rs sent"
proof -
  obtain rs0 where "rs = rs0 @ [Inl e]" "replay rs0 = st" "sent = feed rs" using assms by auto
  then show ?thesis
    by (intro returned_turn [of _ _ _ "(calm (Inl e))\<lparr>tnDoneAfterPoll := True\<rparr>" rs0])
       (simp_all add: watch_turn_def calm_def feed_snoc)
qed

lemma returns_asleep:
  assumes "loop_ok r cx n (Backoff d) st rs sent" shows "loop_ok r cx n Returned st' rs sent"
proof -
  obtain rs0 e where "rs = rs0 @ [Inl e]" "replay rs0 = st" "sent = feed rs" using assms by auto
  then show ?thesis
    by (intro returned_turn [of _ _ _ "(calm (Inl e))\<lparr>tnSlept := False\<rparr>" rs0])
       (simp_all add: watch_turn_def calm_def feed_snoc)
qed

lemma returns_sending:
  assumes "loop_ok r cx n (Sending (e # es)) st rs sent" shows "loop_ok r cx n Returned st' rs sent"
proof -
  obtain rs0 es0 i k where s: "rs = rs0 @ [Inr (es0, i)]" "wsLast (replay rs0) < i" "e # es = drop k es0"
    "sent = feed rs0 @ map entry_event (take k es0)" using assms by auto
  have "k < length es0" using s(3) by (metis drop_eq_Nil2 list.distinct(1) not_le)
  with s show ?thesis
    by (intro returned_turn [of _ _ _ "(calm (Inr (es0, i)))\<lparr>tnSendStops := Some k\<rparr>" rs0])
       (auto simp: watch_turn_def calm_def feed_snoc emitEntries_stop Let_def intro!: map_mono_prefix take_is_prefix)
qed

text \<open>The moves of the loop that do not return.\<close>

lemma loop_replies:
  assumes "loop_ok r cx n Polling st rs sent"
  shows "loop_ok r cx n (PollFailed e) st (rs @ [Inl e]) sent"
    and "i < wsLast st \<Longrightarrow> loop_ok r cx n AtHead \<lparr>wsLast = 0, wsAttempt = 0\<rparr> (rs @ [Inr (es, i)]) sent"
    and "i = wsLast st \<Longrightarrow> loop_ok r cx n AtHead \<lparr>wsLast = i, wsAttempt = 0\<rparr> (rs @ [Inr (es, i)]) sent"
    and "wsLast st < i \<Longrightarrow> loop_ok r cx n (Sending es) \<lparr>wsLast = i, wsAttempt = 0\<rparr> (rs @ [Inr (es, i)]) sent"
proof -
  show "wsLast st < i \<Longrightarrow> loop_ok r cx n (Sending es) \<lparr>wsLast = i, wsAttempt = 0\<rparr> (rs @ [Inr (es, i)]) sent"
    using assms by simp (rule exI [of _ 0], simp)
qed (use assms in \<open>simp_all add: feed_snoc\<close>)

lemma loop_wakes:
  "loop_ok r cx n (Backoff d) st rs sent \<Longrightarrow>
     loop_ok r cx n AtHead (st\<lparr>wsAttempt := wsAttempt st + 1\<rparr>) rs sent"
  by auto

lemma loop_sends:
  assumes "loop_ok r cx n (Sending (e # es)) st rs sent"
  shows "loop_ok r cx n (Sending es) st rs (sent @ [entry_event e])"
proof -
  obtain rs0 es0 i k where s: "rs = rs0 @ [Inr (es0, i)]" "wsLast (replay rs0) < i"
    "st = \<lparr>wsLast = i, wsAttempt = 0\<rparr>" "e # es = drop k es0"
    "sent = feed rs0 @ map entry_event (take k es0)" using assms by auto
  have k: "k < length es0" using s(4) by (metis drop_eq_Nil2 list.distinct(1) not_le)
  then have "es0 ! k = e" "drop (Suc k) es0 = es" using s(4) by (metis Cons_nth_drop_Suc list.inject)+
  with s k show ?thesis by (auto simp: take_Suc_conv_app_nth intro!: exI [of _ "Suc k"])
qed

lemma loop_sent:
  assumes "loop_ok r cx n (Sending []) st rs sent" shows "loop_ok r cx n AtHead st rs sent"
  using assms by (auto simp: feed_snoc)

lemma loop_sent_prefix: "loop_ok r cx n pc st rs sent \<Longrightarrow> prefix sent (feed rs)"
  by (cases pc) (auto simp: feed_snoc intro!: map_mono_prefix take_is_prefix)

lemma loop_polls: "loop_ok r cx n AtHead st rs sent \<Longrightarrow> loop_ok r cx n Polling st rs sent"
  by simp

lemma loop_backs_off:
  "loop_ok r cx n (PollFailed e) st rs sent \<Longrightarrow> loop_ok r cx n (Backoff (backoffDuration (wsAttempt st))) st rs sent"
  by auto

lemmas loop_moves = returns_at_head returns_failed returns_asleep returns_sending loop_replies loop_wakes
  loop_sends loop_sent loop_polls loop_backs_off

lemma watch_step_loop:
  assumes "watch_step s u" "loop_ok r cx name (ppPc s) (ppWatch s) (ppReplies s) (ppSent s)"
  shows "loop_ok r cx name (ppPc u) (ppWatch u) (ppReplies u) (ppSent u)"
  using assms
  by cases (simp_all add: loop_returns_def del: loop_ok.simps, (rule loop_moves; (assumption | simp only:))+)

lemma watch_step_rest:
  assumes "watch_step s u" "chan_ok s" "life_ok s" "upd_ok ops name tag k s"
  shows "chan_ok u \<and> life_ok u \<and> upd_ok ops name tag k u"
  using assms by cases (auto simp: pipe_parts)

lemma update_step_rest:
  assumes "update_step ops name tag s u" "chan_ok s" "life_ok s" "upd_ok ops name tag k s"
  shows "chan_ok u \<and> life_ok u \<and> upd_ok ops name tag k u"
  using assms by cases (auto simp: pipe_parts sink_update_absorbs)

text \<open>The update loop does not touch the variables of the watch loop.\<close>

lemma update_step_frame:
  assumes "update_step ops name tag s u"
  shows "ppPc u = ppPc s \<and> ppWatch u = ppWatch s \<and> ppReplies u = ppReplies s \<and> ppSent u = ppSent s"
  using assms by cases simp_all

lemma loop_step_inv:
  assumes "loop_step ops name tag s u" "pipe_inv r cx ops name tag k s"
  shows "pipe_inv r cx ops name tag k u"
  using assms(1)
proof cases
  case watches
  then show ?thesis using assms(2) watch_step_loop watch_step_rest unfolding pipe_inv_def by blast
next
  case updates
  then show ?thesis
    using assms(2) update_step_frame [OF updates] update_step_rest [OF updates, of k] by (simp add: pipe_inv_def)
qed

lemma pipe_step_inv: "pipe_step ops name tag s u \<Longrightarrow> pipe_inv r cx ops name tag k s \<Longrightarrow> pipe_inv r cx ops name tag k u"
  by (erule pipe_stepE) (rule loop_step_inv, assumption+, auto simp: pipe_inv_def pipe_parts)

lemma start_pipe_inv: "pipe_inv r cx ops name tag k (start_pipe k)"
  by (simp add: start_pipe_def pipe_inv_def pipe_parts feed_def)

interpretation wp: step_system "pipe_step ops name tag" "pipe_inv r cx ops name tag k" for r cx ops name tag k
  by unfold_locales (rule pipe_step_inv)

lemma reach_pipe_inv: "pipe_reach ops name tag (start_pipe k) s \<Longrightarrow> pipe_inv r cx ops name tag k s"
  by (rule wp.reach_inv [OF _ start_pipe_inv])

section \<open>What is left to do\<close>

text \<open>Uncancelled: the events still to send or to receive, and a re-resolution under way.\<close>

definition undelivered :: "pipe \<Rightarrow> nat" where
  "undelivered s =
     (case ppPc s of Sending es \<Rightarrow> 1 + 3 * length es | _ \<Rightarrow> 0) + 2 * length (ppChan s)
     + (if ppUpd s = Resolving then 1 else 0)"

text \<open>The steps that need no reply of the catalog, with every re-resolution in the backend state \<open>b\<close>.\<close>

definition answered_by :: "'r registry_ops \<Rightarrow> string \<Rightarrow> string \<Rightarrow> 'r \<Rightarrow> pipe \<Rightarrow> pipe \<Rightarrow> bool" where
  "answered_by ops name tag b s u \<longleftrightarrow>
     (\<exists>as. ppAnswers u = ppAnswers s @ as \<and> set as \<subseteq> {fst (opResolve ops Background name tag b)})"

definition local_step :: "'r registry_ops \<Rightarrow> string \<Rightarrow> string \<Rightarrow> 'r \<Rightarrow> pipe \<Rightarrow> pipe \<Rightarrow> bool" where
  "local_step ops name tag b s u \<longleftrightarrow>
     loop_step ops name tag s u \<and> ppReplies u = ppReplies s \<and> answered_by ops name tag b s u"

lemma answered_same: "ppAnswers u = ppAnswers s \<Longrightarrow> answered_by ops name tag b s u"
  by (simp add: answered_by_def)

lemma answered_trans:
  "answered_by ops name tag b s t \<Longrightarrow> answered_by ops name tag b t u \<Longrightarrow> answered_by ops name tag b s u"
  unfolding answered_by_def by (elim exE conjE, rule exI, rule conjI) (simp only: append.assoc, simp)

lemma local_pipe_step: "local_step ops name tag b s u \<Longrightarrow> pipe_step ops name tag s u"
  by (simp add: local_step_def pipe_step.loop)

lemma loop_step_done: "loop_step ops name tag s u \<Longrightarrow> ppDone u = ppDone s"
  by (elim loop_stepE watch_stepE update_stepE) (simp_all add: loop_returns_def)

lemma receives: "\<exists>u. local_step ops name tag b s u \<and> undelivered u < undelivered s"
  if "ppUpd s = Waiting" "ppChan s \<noteq> []"
proof -
  obtain ev evs where "ppChan s = ev # evs" using \<open>ppChan s \<noteq> []\<close> by (cases "ppChan s") auto
  with that(1) show ?thesis
    by (intro exI [of _ "s\<lparr>ppChan := evs, ppUpd := Resolving, ppTaken := ppTaken s @ [ev]\<rparr>"])
       (auto simp: local_step_def undelivered_def split: watch_pc.splits intro: update_moves answered_same)
qed

lemma refreshes: "\<exists>u. local_step ops name tag b s u \<and> undelivered u < undelivered s"
  if "ppUpd s = Resolving" "\<not> ppDone s"
proof -
  let ?c = "\<lparr>ctxDone = ppDone s, ctxDeadline = None\<rparr>"
  obtain k r' where u: "sink_update ops ?c name tag (ppSink s, b) = (k, r')"
    by (cases "sink_update ops ?c name tag (ppSink s, b)")
  then show ?thesis
    using that loop_step.updates [OF update_step.refresh [OF that(1) HOL.refl u]]
    by (intro exI conjI)
      (auto simp: local_step_def answered_by_def Background_def undelivered_def split: watch_pc.splits)
qed

lemma sends: "\<exists>u. local_step ops name tag b s u \<and> undelivered u < undelivered s"
  if "ppPc s = Sending es" "ppChan s = []"
proof (cases es)
  case Nil
  with that show ?thesis
    by (intro exI [of _ "s\<lparr>ppPc := AtHead\<rparr>"])
       (auto simp: local_step_def undelivered_def intro: watch_moves answered_same)
next
  case (Cons e es')
  with that have "loop_step ops name tag s
      (s\<lparr>ppPc := Sending es', ppChan := ppChan s @ [entry_event e], ppSent := ppSent s @ [entry_event e]\<rparr>)"
    by (intro loop_step.watches watch_step.send) (simp_all add: watchBuffer_def)
  with Cons that show ?thesis by (intro exI conjI) (auto simp: local_step_def undelivered_def intro: answered_same)
qed

definition draining ::
    "'c consul_registry \<Rightarrow> ctx \<Rightarrow> 'r registry_ops \<Rightarrow> string \<Rightarrow> string \<Rightarrow> sink \<Rightarrow> 'r \<Rightarrow> pipe \<Rightarrow> pipe \<Rightarrow> bool" where
  "draining r cx ops name tag k b s0 s \<longleftrightarrow>
     pipe_inv r cx ops name tag k s \<and> \<not> ppDone s \<and> ppReplies s = ppReplies s0 \<and> answered_by ops name tag b s0 s"

interpretation drain: measured_system "local_step ops name tag b" "draining r cx ops name tag k b s0" undelivered
  for r cx ops name tag k b s0
proof
  fix s t assume l: "local_step ops name tag b s t" and d: "draining r cx ops name tag k b s0 s"
  then have "answered_by ops name tag b s0 t" by (auto simp: local_step_def draining_def intro: answered_trans)
  with l d show "draining r cx ops name tag k b s0 t"
    by (auto simp: local_step_def draining_def loop_step_inv dest: loop_step_done)
next
  fix s assume "draining r cx ops name tag k b s0 s" and w: "undelivered s \<noteq> 0"
  then have i: "ppUpd s \<noteq> Gone" "\<not> ppDone s" by (auto simp: draining_def pipe_inv_def life_ok_def)
  then consider "ppUpd s = Resolving" | "ppUpd s = Waiting" "ppChan s \<noteq> []" | es where "ppPc s = Sending es" "ppChan s = []"
    using w by (cases "ppUpd s") (auto simp: undelivered_def split: watch_pc.splits)
  then show "\<exists>t. local_step ops name tag b s t \<and> undelivered t < undelivered s"
    using i(2) by cases (blast intro: refreshes receives sends)+
qed

text \<open>
  Cancelled: a reply still to come, then what the watch loop has left to do, the events in the channel and
  the update loop. A reply can be of any length, so the order is lexicographic.
\<close>

definition run_out :: "pipe \<Rightarrow> nat \<times> nat" where
  "run_out s =
     (if ppPc s = Polling then 1 else 0,
      (case ppPc s of
         Returned \<Rightarrow> 0 | AtHead \<Rightarrow> 1 | Backoff d \<Rightarrow> 2 | PollFailed e \<Rightarrow> 3
       | Sending es \<Rightarrow> 2 + 3 * length es | Polling \<Rightarrow> 0)
      + 2 * length (ppChan s) + (case ppUpd s of Gone \<Rightarrow> 0 | Waiting \<Rightarrow> 1 | Resolving \<Rightarrow> 2))"

lemma run_out_descends:
  assumes "loop_step ops name tag s u" "ppDone s"
  shows "(run_out u, run_out s) \<in> less_than <*lex*> less_than"
  using assms
  by (elim loop_stepE watch_stepE update_stepE) (auto simp: run_out_def loop_returns_def split: watch_pc.splits)

interpretation cancelled: ranked_system "loop_step ops name tag"
  "\<lambda>s. pipe_inv r cx ops name tag k s \<and> ppDone s" run_out "less_than <*lex*> less_than"
  for r cx ops name tag k
proof
  fix s t assume "loop_step ops name tag s t" "pipe_inv r cx ops name tag k s \<and> ppDone s"
  then show "pipe_inv r cx ops name tag k t \<and> ppDone t" by (metis loop_step_inv loop_step_done)
qed (simp_all add: wf_lex_prod run_out_descends)

lemma loop_moves_when_done:
  assumes "ppDone s" "ppPc s \<noteq> Returned" shows "\<exists>u. loop_step ops name tag s u"
proof (cases "ppPc s")
  case (Sending es)
  then show ?thesis using assms by (cases es) (blast intro: watch_moves update_moves)+
next
  case (Backoff d)
  then have "watch_step s (loop_returns s)"
    by (rule watch_step.sleep_cut [where fired = False]) (simp add: assms)
  then show ?thesis by (blast intro: loop_step.watches)
qed (use assms in \<open>blast intro: watch_moves update_moves\<close>)+

lemma update_moves_when_done:
  assumes "ppDone s" "ppUpd s \<noteq> Gone" shows "\<exists>u. loop_step ops name tag s u"
proof (cases "ppUpd s")
  case Resolving
  then show ?thesis using loop_step.updates [OF update_step.refresh [OF Resolving HOL.refl]] by (metis surj_pair)
qed (use assms in \<open>blast intro: watch_moves update_moves\<close>)+

end
