(* ===== verification/WatchDelivery.thy ===== *)
theory WatchDelivery
  imports WatchPipeline
begin

text \<open>
  What the pipeline of a watch guarantees: lossless, ordered and bounded delivery, no deadlock while it is
  not cancelled, its end under every schedule once it is, and that its watch loop is \<open>watchLoop\<close>.
\<close>

text \<open>A pipeline whose first poll was answered, for the witnesses.\<close>

definition polled :: "sink \<Rightarrow> service_entry list \<Rightarrow> nat \<Rightarrow> pipe" where
  "polled k es i = (start_pipe k)\<lparr>ppPc := Sending es, ppWatch := \<lparr>wsLast = i, wsAttempt = 0\<rparr>, ppReplies := [Inr (es, i)]\<rparr>"

lemma pipe_loop:
  "pipe_reach ops name tag s t \<Longrightarrow> loop_step ops name tag t u \<Longrightarrow> u = v \<Longrightarrow> pipe_reach ops name tag s v"
  by (auto intro: reach.step [where step = "pipe_step ops name tag"] pipe_step.loop)

lemma polled_reach: "0 < i \<Longrightarrow> pipe_reach ops name tag (start_pipe k) (polled k es i)"
  by (rule pipe_loop [OF pipe_loop [OF reach.refl loop_step.watches [OF watch_step.head_polls] HOL.refl] loop_step.watches [OF watch_step.poll_advances]])
     (simp_all add: polled_def start_pipe_def start_watch_def)

section \<open>Properties\<close>

text \<open>
  C7. The pipeline of a watch loses nothing, whatever the interleaving of the two loops and whenever the
  context is cancelled: the events sent are those received followed by those in the channel (16 at most), in
  order, and a prefix of what the catalog's replies publish; each event received has been answered by
  one resolution of the backend, but for the one under way, and what a reader is served is the fold of the
  answers over the seed, of a managed cache and of a dynamic resolver alike; neither loop ends, nor is the
  channel closed, before the cancellation.
\<close>

theorem pipeline_delivers:
  assumes "pipe_reach ops name tag (start_pipe k) s"
  shows "ppSent s = ppTaken s @ ppChan s \<and> length (ppChan s) \<le> 16
     \<and> prefix (ppSent s) (concat (map (map entry_event) (published 0 (ppReplies s))))
     \<and> length (ppTaken s) = length (ppAnswers s) + (if ppUpd s = Resolving then 1 else 0)
     \<and> set (ppAnswers s) \<subseteq> range (\<lambda>(c, r). fst (opResolve ops c name tag r))
     \<and> (case k of
          Managed mr \<Rightarrow> \<exists>mr'. ppSink s = Managed mr' \<and> view_of mr' = fold absorb (ppAnswers s) (view_of mr)
        | Dynamic dr \<Rightarrow> \<exists>dr'. ppSink s = Dynamic dr' \<and> drSnapshot dr' =
            fold (dyn_absorb (drView dr) (drFallback dr, drFallbackScheme dr)) (ppAnswers s) (drSnapshot dr))
     \<and> (ppDone s \<or> \<not> ppClosed s \<and> ppPc s \<noteq> Returned \<and> ppUpd s \<noteq> Gone)"
proof -
  have inv: "pipe_inv open_registry Background ops name tag k s" by (rule reach_pipe_inv [OF assms])
  then have "chan_ok s" "life_ok s" "upd_ok ops name tag k s"
    "prefix (ppSent s) (feed (ppReplies s))"
    by (auto simp: pipe_inv_def dest: loop_sent_prefix)
  then show ?thesis
    by (auto simp: pipe_parts watchBuffer_def feed_def managed_sink dynamic_sink cell.view_updates image_def split_def
        split: sink.split)
qed

theorem pipeline_delivers_witness:
  "\<exists>s :: pipe. ppTaken s = [entry_event (healthy_entry ''1'')] \<and> length (ppAnswers s) = 1 \<and> ppSent s = ppTaken s @ ppChan s
     \<and> (\<exists>mr'. ppSink s = Managed mr' \<and> view_of mr' = Serving dual_service)"
proof -
  let ?e = "healthy_entry ''1''" and ?c = "\<lparr>ctxDone = False, ctxDeadline = None\<rparr>"
  let ?ops = "stub_ops dual_service" and ?p = "polled (Managed new_resolver) [healthy_entry ''1''] 7"
  let ?q = "?p\<lparr>ppPc := Sending [], ppChan := ppChan ?p @ [entry_event ?e], ppSent := ppSent ?p @ [entry_event ?e]\<rparr>"
  let ?r = "?q\<lparr>ppChan := [], ppUpd := Resolving, ppTaken := ppTaken ?q @ [entry_event ?e]\<rparr>"
  obtain k r' where k: "sink_update ?ops ?c ''a'' [] (ppSink ?r, 0) = (k, r')" by fastforce
  let ?s = "?r\<lparr>ppUpd := Waiting, ppSink := k, ppAnswers := ppAnswers ?r @ [fst (opResolve ?ops ?c ''a'' [] 0)]\<rparr>"
  have "pipe_reach ?ops ''a'' [] (start_pipe (Managed new_resolver)) ?q"
    by (rule pipe_loop [OF polled_reach loop_step.watches [OF watch_step.send] HOL.refl]) (simp_all add: polled_def start_pipe_def watchBuffer_def)
  moreover have "loop_step ?ops ''a'' [] ?q ?r"
    by (rule loop_step.updates, rule update_step.receive) (simp_all add: polled_def start_pipe_def)
  moreover have "loop_step ?ops ''a'' [] ?r ?s"
    using k by (intro loop_step.updates update_step.refresh [OF _ _ k]) (simp_all add: polled_def start_pipe_def)
  ultimately have "pipe_reach ?ops ''a'' [] (start_pipe (Managed new_resolver)) ?s"
    using pipe_loop [OF pipe_loop [OF _ _ HOL.refl] _ HOL.refl] by blast
  from pipeline_delivers [OF this] show ?thesis
    by (intro exI [of _ ?s]) (simp add: polled_def start_pipe_def stub_ops_def)
qed

lemma drains:
  assumes "pipe_reach ops name tag (start_pipe k) s" and "\<not> ppDone s"
  shows "\<exists>u. pipe_reach ops name tag s u \<and> \<not> ppDone u \<and> ppReplies u = ppReplies s
     \<and> ppTaken u = feed (ppReplies s) \<and> ppUpd u \<noteq> Resolving \<and> upd_ok ops name tag k u
     \<and> answered_by ops name tag b s u"
proof -
  let ?inv = "pipe_inv open_registry Background ops name tag k"
  have i: "draining open_registry Background ops name tag k b s s"
    using assms reach_pipe_inv by (simp add: draining_def answered_same)
  obtain u where u: "reach (local_step ops name tag b) s u" "undelivered u = 0"
    using drain.finishes [OF i] by blast
  have v: "?inv u \<and> \<not> ppDone u \<and> ppReplies u = ppReplies s \<and> answered_by ops name tag b s u"
    using drain.reach_inv [OF u(1) i] by (simp add: draining_def)
  have r: "pipe_reach ops name tag s u"
    by (rule reach_weaken [OF u(1)]) (rule local_pipe_step)
  have pc: "ppChan u = []" "ppUpd u \<noteq> Resolving" "\<And>es. ppPc u \<noteq> Sending es"
    using u(2) by (auto simp: undelivered_def split: watch_pc.splits if_splits)
  have "ppSent u = feed (ppReplies u)" using v pc(3) by (cases "ppPc u") (auto simp: pipe_inv_def life_ok_def)
  then show ?thesis
    using r v pc by (intro exI [of _ u]) (auto simp: pipe_inv_def chan_ok_def)
qed

text \<open>
  C12. A watch that is not cancelled catches up: from any state of the pipeline, without any further reply of
  the catalog, the two loops can reach one in which every event the replies so far publish has been
  received and answered by a resolution, so no state is a deadlock and no event is stuck behind the
  channel's capacity.
\<close>

theorem pipeline_drains:
  assumes "pipe_reach ops name tag (start_pipe k) s" and "\<not> ppDone s"
  shows "\<exists>u. pipe_reach ops name tag s u \<and> \<not> ppDone u \<and> ppReplies u = ppReplies s
     \<and> ppTaken u = concat (map (map entry_event) (published 0 (ppReplies s)))
     \<and> length (ppAnswers u) = length (ppTaken u) \<and> ppSink u = fold sink_absorb (ppAnswers u) k"
proof -
  obtain u where "pipe_reach ops name tag s u" "\<not> ppDone u" "ppReplies u = ppReplies s"
    "ppTaken u = feed (ppReplies s)" "ppUpd u \<noteq> Resolving" "upd_ok ops name tag k u"
    using drains [OF assms] by blast
  then show ?thesis by (intro exI [of _ u]) (simp add: upd_ok_def feed_def)
qed

theorem pipeline_drains_witness:
  "\<exists>u. pipe_reach (stub_ops dual_service) ''a'' [] (polled (Managed new_resolver) [healthy_entry ''1'', healthy_entry ''2''] 7) u
     \<and> ppTaken u = [entry_event (healthy_entry ''1''), entry_event (healthy_entry ''2'')] \<and> length (ppAnswers u) = 2"
proof -
  let ?p = "polled (Managed new_resolver) [healthy_entry ''1'', healthy_entry ''2''] 7"
  have "pipe_reach (stub_ops dual_service) ''a'' [] (start_pipe (Managed new_resolver)) ?p" by (rule polled_reach) simp
  from pipeline_drains [OF this] show ?thesis by (auto simp: polled_def start_pipe_def)
qed

text \<open>
  C8. Cancellation ends a watch under every schedule: once the context is done the two loops can take only
  finitely many more steps, however the scheduler and the selects choose, and where neither can
  take one the watch loop has returned and closed its channel and the update loop is gone.
\<close>

theorem cancelled_watch_ends:
  assumes "pipe_reach ops name tag (start_pipe k) s" and "ppDone s"
  shows "(\<forall>f. f 0 = s \<longrightarrow> (\<exists>i. \<not> loop_step ops name tag (f i) (f (Suc i))))
     \<and> (\<forall>u. reach (loop_step ops name tag) s u \<longrightarrow> (\<nexists>v. loop_step ops name tag u v) \<longrightarrow>
          ppPc u = Returned \<and> ppClosed u \<and> ppUpd u = Gone)"
proof -
  let ?inv = "pipe_inv open_registry Background ops name tag k"
  have i: "?inv s \<and> ppDone s" using assms reach_pipe_inv by blast
  show ?thesis
  proof (intro conjI allI impI)
    fix f :: "nat \<Rightarrow> pipe" assume "f 0 = s"
    with i have "?inv (f 0) \<and> ppDone (f 0)" by simp
    then show "\<exists>i. \<not> loop_step ops name tag (f i) (f (Suc i))" by (rule cancelled.run_ends)
  next
    fix u assume u: "reach (loop_step ops name tag) s u" "\<nexists>v. loop_step ops name tag u v"
    have v: "?inv u \<and> ppDone u" using cancelled.reach_inv [OF u(1) i] .
    then have "ppPc u = Returned" "ppUpd u = Gone"
      using u(2) loop_moves_when_done update_moves_when_done by blast+
    with v show "ppPc u = Returned" "ppClosed u" "ppUpd u = Gone" by (simp_all add: pipe_inv_def life_ok_def)
  qed
qed

theorem cancelled_watch_ends_witness:
  "\<exists>u. reach (loop_step (stub_ops dual_service) ''a'' []) ((polled (Managed new_resolver) [healthy_entry ''1''] 7)\<lparr>ppDone := True\<rparr>) u
     \<and> ppPc u = Returned \<and> ppClosed u \<and> ppUpd u = Gone"
proof -
  let ?ops = "stub_ops dual_service" and ?p = "polled (Managed new_resolver) [healthy_entry ''1''] 7"
  let ?s = "?p\<lparr>ppDone := True\<rparr>"
  let ?u = "(loop_returns ?s)\<lparr>ppUpd := Gone\<rparr>"
  have "pipe_reach ?ops ''a'' [] (start_pipe (Managed new_resolver)) ?p" by (rule polled_reach) simp
  then have s: "pipe_reach ?ops ''a'' [] (start_pipe (Managed new_resolver)) ?s"
    by (rule reach.step [where step = "pipe_step ?ops ''a'' []", OF _ pipe_step.cancel])
  have "loop_step ?ops ''a'' [] ?s (loop_returns ?s)"
    by (rule loop_step.watches, rule watch_step.send_cut) (simp_all add: polled_def)
  moreover have "loop_step ?ops ''a'' [] (loop_returns ?s) ?u"
    by (rule loop_step.updates, rule update_step.receive_done) (simp_all add: polled_def start_pipe_def loop_returns_def)
  ultimately have r: "reach (loop_step ?ops ''a'' []) ?s ?u"
    by (rule reach_first [where step = "loop_step ?ops ''a'' []", OF _ reach_first
          [where step = "loop_step ?ops ''a'' []", OF _ reach.refl]])
  have stuck: "\<nexists>v. loop_step ?ops ''a'' [] ?u v"
    by (auto elim!: loop_stepE watch_stepE update_stepE simp: loop_returns_def)
  have d: "ppDone ?s" by simp
  show ?thesis
    using cancelled_watch_ends [OF s d, THEN conjunct2, rule_format, OF r stuck] r by (intro exI [of _ ?u] conjI) blast+
qed

text \<open>
  C14. The watch loop in steps is the loop in turns: at its head and in a poll, the loop has sent and
  remembers what \<open>watchLoop\<close> does after undisturbed turns with the same replies, and when it has
  returned there is a script of turns after which \<open>watchLoop\<close> has returned too, with the same events.
\<close>

theorem pipeline_refines_watch:
  assumes "pipe_reach ops name tag (start_pipe k) s"
  shows "(ppPc s = AtHead \<or> ppPc s = Polling \<longrightarrow>
        snd (watchLoop r cx name (map calm (ppReplies s))) = Some (ppWatch s)
        \<and> events_of (fst (watchLoop r cx name (map calm (ppReplies s)))) = ppSent s)
     \<and> (ppPc s = Returned \<longrightarrow>
        (\<exists>ts. snd (watchLoop r cx name ts) = None \<and> events_of (fst (watchLoop r cx name ts)) = ppSent s
           \<and> prefix (ppReplies s) (map tnResult ts)))"
proof -
  have loop: "loop_ok r cx name (ppPc s) (ppWatch s) (ppReplies s) (ppSent s)"
    using reach_pipe_inv [OF assms, of r cx] by (simp add: pipe_inv_def)
  have run: "snd (watchLoop r cx name (map calm rs)) = Some (replay rs)" for rs
    using calm_run [of r cx name rs start_watch] by (simp add: watchLoop_def start_watch_def)
  have tn: "map tnResult (map calm rs) = rs" for rs by (induction rs) (simp_all add: calm_def)
  show ?thesis
  proof (intro conjI impI)
    assume "ppPc s = AtHead \<or> ppPc s = Polling"
    then show "snd (watchLoop r cx name (map calm (ppReplies s))) = Some (ppWatch s)"
      "events_of (fst (watchLoop r cx name (map calm (ppReplies s)))) = ppSent s"
      using loop run calm_events by (auto simp del: map_map)
  next
    assume "ppPc s = Returned"
    then obtain rs0 t where t: "ppReplies s = rs0 \<or> ppReplies s = rs0 @ [tnResult t]"
      "snd (watch_turn r cx name t (replay rs0)) = None"
      "ppSent s = feed rs0 @ events_of (fst (watch_turn r cx name t (replay rs0)))" using loop by auto
    show "\<exists>ts. snd (watchLoop r cx name ts) = None \<and> events_of (fst (watchLoop r cx name ts)) = ppSent s
        \<and> prefix (ppReplies s) (map tnResult ts)"
      using last_turn [OF t(2)] t(1,3) tn [of rs0]
      by (intro exI [of _ "map calm rs0 @ [t]"]) (auto simp del: map_map)
  qed
qed

theorem pipeline_refines_watch_witness:
  "\<exists>ts. snd (watchLoop open_registry Background ''a'' ts) = None
     \<and> events_of (fst (watchLoop open_registry Background ''a'' ts)) = [entry_event (healthy_entry ''1'')]
     \<and> tnResult (hd ts) = Inr ([healthy_entry ''1'', healthy_entry ''2''], 7)"
proof -
  let ?ops = "stub_ops dual_service" and ?p = "polled (Managed new_resolver) [healthy_entry ''1'', healthy_entry ''2''] 7"
  let ?q = "?p\<lparr>ppPc := Sending [healthy_entry ''2''], ppChan := ppChan ?p @ [entry_event (healthy_entry ''1'')],
      ppSent := ppSent ?p @ [entry_event (healthy_entry ''1'')]\<rparr>"
  let ?d = "?q\<lparr>ppDone := True\<rparr>"
  have "pipe_reach ?ops ''a'' [] (start_pipe (Managed new_resolver)) ?q"
    by (rule pipe_loop [OF polled_reach loop_step.watches [OF watch_step.send] HOL.refl]) (simp_all add: polled_def start_pipe_def watchBuffer_def)
  then have "pipe_reach ?ops ''a'' [] (start_pipe (Managed new_resolver)) ?d"
    by (rule reach.step [where step = "pipe_step ?ops ''a'' []", OF _ pipe_step.cancel])
  then have "pipe_reach ?ops ''a'' [] (start_pipe (Managed new_resolver)) (loop_returns ?d)"
    by (rule pipe_loop [OF _ loop_step.watches [OF watch_step.send_cut] HOL.refl]) simp_all
  from pipeline_refines_watch [OF this, of open_registry Background] obtain ts where
    "snd (watchLoop open_registry Background ''a'' ts) = None"
    "events_of (fst (watchLoop open_registry Background ''a'' ts)) = [entry_event (healthy_entry ''1'')]"
    "prefix [Inr ([healthy_entry ''1'', healthy_entry ''2''], 7)] (map tnResult ts)"
    by (auto simp: loop_returns_def polled_def start_pipe_def)
  then show ?thesis by (intro exI [of _ ts]) (cases ts; simp)
qed

end
