(* ===== verification/RegisterConcurrency.thy ===== *)
theory RegisterConcurrency
  imports ManagerCalls HeartbeatConcurrency
begin

text \<open>
  The goroutines of \<open>RegisterAsync\<close> (\<open>manager.go\<close>) against each other, \<open>Close\<close>, the cancellation of their
  callers' contexts and the other users of the backend. Each is a thread that tests the manager's base
  context, calls Register, and sleeps; between any two of these the others may run. \<open>Close\<close> is two
  steps: the locked section that cancels the base context, then the backend's Close.
\<close>

section \<open>Threads and steps\<close>

text \<open>The attempt a thread is at: before its test of the base context, in Register, asleep after a failure.\<close>

datatype reg_pc =
    RegTest int
  | RegCall int
  | RegSleep int duration
  | RegEnd async_outcome

text \<open>\<open>rtTries\<close> and \<open>rtSleeps\<close> record the results of its calls of Register and the sleeps it asked for.\<close>

record reg_thread =
  rtPc :: reg_pc
  rtSvc :: service
  rtDone :: bool
  rtTries :: "go_error option list"
  rtSleeps :: "duration list"

record 'r reg_sys =
  ryMgr :: "'r manager"
  ryThreads :: "reg_thread list"

definition new_reg_thread :: "service \<Rightarrow> bool \<Rightarrow> reg_thread" where
  "new_reg_thread svc d = \<lparr>rtPc = RegTest 0, rtSvc = svc, rtDone = d, rtTries = [], rtSleeps = []\<rparr>"

definition reg_ctx :: "reg_thread \<Rightarrow> ctx" where
  "reg_ctx th = \<lparr>ctxDone = rtDone th, ctxDeadline = None\<rparr>"

text \<open>\<open>sleepCtxAny\<close>: it may return false once either context is done, and true when its timer has fired.\<close>

definition sleepCtxAny :: "bool \<Rightarrow> bool \<Rightarrow> bool \<Rightarrow> bool set" where
  "sleepCtxAny a_done b_done fired = (if a_done \<or> b_done then {False} else {}) \<union> (if fired then {True} else {})"

text \<open>One step of one thread, in the manager. A panic is recovered by \<open>SafeGo\<close> and ends the thread.\<close>

inductive reg_move ::
    "'r registry_ops \<Rightarrow> reg_thread \<times> 'r manager \<Rightarrow> reg_thread \<times> 'r manager \<Rightarrow> bool" for ops where
  test_closed:
    "\<lbrakk>rtPc th = RegTest n; mBaseDone m\<rbrakk> \<Longrightarrow> reg_move ops (th, m) (th\<lparr>rtPc := RegEnd Stopped\<rparr>, m)"
| test_open:
    "\<lbrakk>rtPc th = RegTest n; \<not> mBaseDone m\<rbrakk> \<Longrightarrow> reg_move ops (th, m) (th\<lparr>rtPc := RegCall n\<rparr>, m)"
| call_succeeds:
    "\<lbrakk>rtPc th = RegCall n; Manager_Register ops (reg_ctx th) (rtSvc th) (Some m) = (None, Some m')\<rbrakk> \<Longrightarrow>
     reg_move ops (th, m)
       (th\<lparr>rtPc := RegEnd Registered, rtTries := rtTries th @ [None]\<rparr>, log_registered (rtSvc th) n m')"
| call_fails:
    "\<lbrakk>rtPc th = RegCall n; Manager_Register ops (reg_ctx th) (rtSvc th) (Some m) = (Some e, Some m');
      \<not> is_panic e\<rbrakk> \<Longrightarrow>
     reg_move ops (th, m)
       (th\<lparr>rtPc := RegSleep n (backoffDuration n), rtTries := rtTries th @ [Some e],
           rtSleeps := rtSleeps th @ [backoffDuration n]\<rparr>, log_retry (rtSvc th) n e m')"
| call_panics:
    "\<lbrakk>rtPc th = RegCall n; Manager_Register ops (reg_ctx th) (rtSvc th) (Some m) = (Some e, Some m'); is_panic e\<rbrakk> \<Longrightarrow>
     reg_move ops (th, m) (th\<lparr>rtPc := RegEnd Stopped, rtTries := rtTries th @ [Some e]\<rparr>, m')"
| sleep_cut:
    "\<lbrakk>rtPc th = RegSleep n d; False \<in> sleepCtxAny (rtDone th) (mBaseDone m) fired\<rbrakk> \<Longrightarrow>
     reg_move ops (th, m) (th\<lparr>rtPc := RegEnd Stopped\<rparr>, m)"
| sleep_over:
    "\<lbrakk>rtPc th = RegSleep n d; True \<in> sleepCtxAny (rtDone th) (mBaseDone m) fired\<rbrakk> \<Longrightarrow>
     reg_move ops (th, m) (th\<lparr>rtPc := RegTest (n + 1)\<rparr>, m)"

text \<open>The two parts of Close.\<close>

definition close_locked :: "'r manager \<Rightarrow> 'r manager" where
  "close_locked m = fold stop_resolver (mResolvers m) (m\<lparr>mClosed := True, mBaseDone := True\<rparr>)"

definition close_registry :: "'r registry_ops \<Rightarrow> 'r manager \<Rightarrow> 'r manager" where
  "close_registry ops m =
     (case mRegistry m of
        None \<Rightarrow> m\<lparr>mCloseErr := Some None\<rparr>
      | Some r \<Rightarrow> m\<lparr>mRegistry := Some (after_close ops r), mCloseErr := Some (close_error ops r)\<rparr>)"

text \<open>
  A step of the program: of one of the threads, the start of one, the cancellation of its caller's context, a
  part of Close, or a request some other user of the backend makes (a blocking Register of the caller among
  them). What a thread itself does is a \<open>threads_step\<close>, further down.
\<close>

inductive reg_step :: "'r registry_ops \<Rightarrow> 'r reg_sys \<Rightarrow> 'r reg_sys \<Rightarrow> bool" for ops where
  moves:
    "\<lbrakk>t < length (ryThreads s); reg_move ops (ryThreads s ! t, ryMgr s) (th, m)\<rbrakk> \<Longrightarrow>
     reg_step ops s (s\<lparr>ryMgr := m, ryThreads := (ryThreads s)[t := th]\<rparr>)"
| starts:
    "Enabled (mConfig (ryMgr s)) \<Longrightarrow>
     reg_step ops s (s\<lparr>ryThreads := ryThreads s @ [new_reg_thread svc d]\<rparr>)"
| cancels:
    "\<lbrakk>t < length (ryThreads s)\<rbrakk> \<Longrightarrow>
     reg_step ops s (s\<lparr>ryThreads := (ryThreads s)[t := (ryThreads s ! t)\<lparr>rtDone := True\<rparr>]\<rparr>)"
| close_begins:
    "\<not> mClosed (ryMgr s) \<Longrightarrow> reg_step ops s (s\<lparr>ryMgr := close_locked (ryMgr s)\<rparr>)"
| close_ends:
    "\<lbrakk>mClosed (ryMgr s); mCloseErr (ryMgr s) = None\<rbrakk> \<Longrightarrow>
     reg_step ops s (s\<lparr>ryMgr := close_registry ops (ryMgr s)\<rparr>)"
| others:
    "mRegistry (ryMgr s) = Some r \<Longrightarrow>
     reg_step ops s (s\<lparr>ryMgr := (ryMgr s)\<lparr>mRegistry := Some (after_request ops q r)\<rparr>\<rparr>)"

inductive_cases reg_moveE: "reg_move ops (th, m) (th', m')"
inductive_cases reg_stepE: "reg_step ops s u"

abbreviation reg_reach :: "'r registry_ops \<Rightarrow> 'r reg_sys \<Rightarrow> 'r reg_sys \<Rightarrow> bool" where
  "reg_reach ops \<equiv> reach (reg_step ops)"

text \<open>Without a step in between, the two parts are Close.\<close>

lemma close_parts:
  assumes "mCloseErr m = None"
  shows "snd (Manager_Close ops (Some m)) = Some (close_registry ops (close_locked m))"
  using assms
  by (auto simp: Manager_Close_def doClose_def close_registry_def close_locked_def Let_def stop_resolvers_fields
      after_close_def close_error_def split: option.splits prod.splits)

section \<open>The invariant of a thread\<close>

definition failures :: "go_error option list \<Rightarrow> int \<Rightarrow> bool" where
  "failures rs n \<longleftrightarrow> int (length rs) = n \<and> None \<notin> set rs"

fun tries_ok :: "reg_pc \<Rightarrow> go_error option list \<Rightarrow> bool" where
  "tries_ok (RegTest n) rs \<longleftrightarrow> failures rs n"
| "tries_ok (RegCall n) rs \<longleftrightarrow> failures rs n"
| "tries_ok (RegSleep n d) rs \<longleftrightarrow> failures rs (n + 1)"
| "tries_ok (RegEnd out) rs \<longleftrightarrow>
     (if out = Registered then rs \<noteq> [] \<and> last rs = None \<and> None \<notin> set (butlast rs) else None \<notin> set rs)"

fun sleeps_ok :: "reg_pc \<Rightarrow> nat \<Rightarrow> duration list \<Rightarrow> bool" where
  "sleeps_ok (RegEnd out) k ds \<longleftrightarrow> k \<le> length ds + 1 \<and> length ds \<le> k \<and> (out = Registered \<longrightarrow> k = length ds + 1)"
| "sleeps_ok pc k ds \<longleftrightarrow> length ds = k"

definition thread_ok :: "reg_thread \<Rightarrow> bool" where
  "thread_ok th \<longleftrightarrow>
     tries_ok (rtPc th) (rtTries th) \<and> sleeps_ok (rtPc th) (length (rtTries th)) (rtSleeps th)
     \<and> rtSleeps th = map (\<lambda>i. backoffDuration (int i)) [0..<length (rtSleeps th)]"

definition threads_fine :: "'r reg_sys \<Rightarrow> bool" where
  "threads_fine s \<longleftrightarrow> list_all thread_ok (ryThreads s)"

lemma move_ok: "reg_move ops (th, m) (th', m') \<Longrightarrow> thread_ok th \<Longrightarrow> thread_ok th'"
  by (erule reg_moveE) (auto simp: thread_ok_def failures_def butlast_append)

lemma fine_update:
  "threads_fine s \<Longrightarrow> thread_ok th \<Longrightarrow> threads_fine (s\<lparr>ryMgr := m, ryThreads := (ryThreads s)[t := th]\<rparr>)"
  "threads_fine s \<Longrightarrow> thread_ok th \<Longrightarrow> threads_fine (s\<lparr>ryThreads := (ryThreads s)[t := th]\<rparr>)"
  by (auto simp: threads_fine_def list_all_iff dest!: set_update_subset_insert [THEN subsetD])

lemma fine_nth: "threads_fine s \<Longrightarrow> t < length (ryThreads s) \<Longrightarrow> thread_ok (ryThreads s ! t)"
  by (simp add: threads_fine_def list_all_length)

lemma reg_step_fine:
  assumes "reg_step ops s u" "threads_fine s" shows "threads_fine u"
  using assms(1)
proof cases
  case (moves t th m)
  then show ?thesis using fine_update(1) [OF assms(2)] move_ok fine_nth [OF assms(2)] by blast
next
  case (cancels t)
  have "thread_ok (ryThreads s ! t) \<Longrightarrow> thread_ok ((ryThreads s ! t)\<lparr>rtDone := True\<rparr>)" by (simp add: thread_ok_def)
  then show ?thesis using cancels fine_update(2) [OF assms(2)] fine_nth [OF assms(2)] by blast
qed (use assms(2) in \<open>auto simp: threads_fine_def thread_ok_def new_reg_thread_def failures_def\<close>)

interpretation reg: step_system "reg_step ops" threads_fine for ops
  by unfold_locales (rule reg_step_fine)

section \<open>After Close\<close>

lemma register_frame:
  assumes "Manager_Register ops c svc (Some m) = (e, Some m')"
  shows "mBaseDone m' = mBaseDone m" "mClosed m' = mClosed m" "mCloseErr m' = mCloseErr m" "mConfig m' = mConfig m"
  using plain_Register [of ops m c svc] assms by (simp_all add: plain_step_def mgr_core_def)

lemma register_result: "\<exists>e m'. Manager_Register ops c svc (Some m) = (e, Some m')"
  by (auto simp: Manager_Register_def split: prod.splits sum.splits)

lemma move_base: "reg_move ops (th, m) (th', m') \<Longrightarrow> mBaseDone m' = mBaseDone m"
  by (erule reg_moveE) (auto dest: register_frame(1) simp: log_registered_def log_retry_def m_log_def)

lemma reg_step_base:
  assumes "reg_step ops s u" "mBaseDone (ryMgr s)" shows "mBaseDone (ryMgr u)"
  using assms(1)
proof cases
  case (moves t th m)
  then show ?thesis using move_base [OF moves(3)] assms(2) by simp
qed (use assms(2) in \<open>simp_all add: close_locked_def stop_resolvers_fields close_registry_def split: option.splits\<close>)

text \<open>The calls a thread has made, with the one under way. Once the base context is done it does not grow.\<close>

definition spent :: "reg_thread \<Rightarrow> nat" where
  "spent th = length (rtTries th) + (case rtPc th of RegCall n \<Rightarrow> 1 | _ \<Rightarrow> 0)"

lemma move_spent: "reg_move ops (th, m) (th', m') \<Longrightarrow> mBaseDone m \<Longrightarrow> spent th' = spent th"
  by (erule reg_moveE) (simp_all add: spent_def)

definition within :: "reg_thread list \<Rightarrow> 'r reg_sys \<Rightarrow> bool" where
  "within ths u \<longleftrightarrow> mBaseDone (ryMgr u) \<and> length ths \<le> length (ryThreads u)
     \<and> (\<forall>t < length ths. spent (ryThreads u ! t) \<le> spent (ths ! t))
     \<and> (\<forall>t < length (ryThreads u). length ths \<le> t \<longrightarrow> spent (ryThreads u ! t) = 0)"

lemma reg_step_within:
  assumes "reg_step ops s u" "within ths s" shows "within ths u"
proof -
  have base: "mBaseDone (ryMgr u)" using reg_step_base [OF assms(1)] assms(2) by (simp add: within_def)
  show ?thesis
    using assms(1)
  proof cases
    case (moves t th m)
    then have "spent th = spent (ryThreads s ! t)" using move_spent [OF moves(3)] assms(2) by (simp add: within_def)
    then show ?thesis using moves(1,2) base assms(2) by (auto simp: within_def nth_list_update)
  next
    case (cancels t)
    then show ?thesis using base assms(2) by (simp add: within_def nth_list_update spent_def)
  next
    case (starts svc d)
    then show ?thesis using base assms(2) by (auto simp: within_def nth_append new_reg_thread_def spent_def)
  qed (use base assms(2) in \<open>simp_all add: within_def\<close>)
qed

interpretation late: step_system "reg_step ops" "within ths" for ops ths
  by unfold_locales (rule reg_step_within)

text \<open>The steps of the threads alone, and what they have left to do once the base context is done.\<close>

inductive threads_step :: "'r registry_ops \<Rightarrow> 'r reg_sys \<Rightarrow> 'r reg_sys \<Rightarrow> bool" for ops where
  "\<lbrakk>t < length (ryThreads s); reg_move ops (ryThreads s ! t, ryMgr s) (th, m)\<rbrakk> \<Longrightarrow>
   threads_step ops s (s\<lparr>ryMgr := m, ryThreads := (ryThreads s)[t := th]\<rparr>)"

fun moves_left :: "reg_pc \<Rightarrow> nat" where
  "moves_left (RegCall n) = 3"
| "moves_left (RegSleep n d) = 2"
| "moves_left (RegTest n) = 1"
| "moves_left (RegEnd out) = 0"

definition all_left :: "'r reg_sys \<Rightarrow> nat" where
  "all_left s = sum_list (map (moves_left \<circ> rtPc) (ryThreads s))"

lemma move_left: "reg_move ops (th, m) (th', m') \<Longrightarrow> mBaseDone m \<Longrightarrow> moves_left (rtPc th') < moves_left (rtPc th)"
  by (erule reg_moveE) simp_all

lemma threads_left:
  assumes "threads_step ops s u" "mBaseDone (ryMgr s)" shows "(all_left u, all_left s) \<in> less_than"
  using assms(1)
proof cases
  case (1 t th m)
  let ?f = "moves_left \<circ> rtPc" and ?ths = "ryThreads s"
  have lt: "?f th < ?f (?ths ! t)" using move_left [OF 1(3) assms(2)] by simp
  have "sum_list (map ?f ?ths) = sum_list (map ?f (take t ?ths)) + ?f (?ths ! t) + sum_list (map ?f (drop (Suc t) ?ths))"
    using 1(2) by (subst id_take_nth_drop [of t]) simp_all
  moreover have "sum_list (map ?f (?ths[t := th])) = sum_list (map ?f (take t ?ths)) + ?f th + sum_list (map ?f (drop (Suc t) ?ths))"
    using 1(2) by (simp add: upd_conv_take_nth_drop)
  ultimately show ?thesis using lt 1(1) by (simp add: all_left_def)
qed

lemma threads_reg_step: "threads_step ops s u \<Longrightarrow> reg_step ops s u"
  by (induction rule: threads_step.induct) (rule reg_step.moves)

interpretation closed: ranked_system "threads_step ops" "\<lambda>s. mBaseDone (ryMgr s)" all_left less_than for ops
  by unfold_locales (auto intro: reg_step_base threads_reg_step dest: threads_left)

text \<open>What a call of Register leaves of its thread and the manager, for each of its results.\<close>

definition after_attempt :: "reg_thread \<Rightarrow> int \<Rightarrow> go_error option \<Rightarrow> 'r manager \<Rightarrow> reg_thread \<times> 'r manager" where
  "after_attempt th n e m =
     (case e of
        None \<Rightarrow> (th\<lparr>rtPc := RegEnd Registered, rtTries := rtTries th @ [None]\<rparr>, log_registered (rtSvc th) n m)
      | Some x \<Rightarrow>
          if is_panic x then (th\<lparr>rtPc := RegEnd Stopped, rtTries := rtTries th @ [Some x]\<rparr>, m)
          else (th\<lparr>rtPc := RegSleep n (backoffDuration n), rtTries := rtTries th @ [Some x],
                   rtSleeps := rtSleeps th @ [backoffDuration n]\<rparr>, log_retry (rtSvc th) n x m))"

lemma call_returns:
  assumes "rtPc th = RegCall n" "Manager_Register ops (reg_ctx th) (rtSvc th) (Some m) = (e, Some m')"
  shows "reg_move ops (th, m) (after_attempt th n e m')"
proof (cases e)
  case None
  with assms show ?thesis by (simp add: after_attempt_def reg_move.call_succeeds)
next
  case (Some x)
  with assms show ?thesis by (simp add: after_attempt_def reg_move.call_fails reg_move.call_panics)
qed

lemma thread_can_move: "(\<And>out. rtPc th \<noteq> RegEnd out) \<Longrightarrow> \<exists>th' m'. reg_move ops (th, m) (th', m')"
proof (cases "rtPc th")
  case (RegCall n)
  then show ?thesis using call_returns register_result by (metis prod.collapse)
next
  case (RegTest n)
  then show ?thesis using reg_move.test_closed reg_move.test_open by (cases "mBaseDone m") blast+
next
  case (RegSleep n d)
  then show ?thesis using reg_move.sleep_over [OF RegSleep, of m True ops] by (auto simp: sleepCtxAny_def)
qed blast

end
