(* ===== verification/RegisterInterleavings.thy ===== *)
theory RegisterInterleavings
  imports RegisterConcurrency
begin

text \<open>
  What the model of \<open>RegisterConcurrency\<close> shows: asynchronous registrations are paced, they end when the
  manager is closed, and a registration in flight outlives \<open>Close\<close>.
\<close>

section \<open>A registration on its own\<close>

definition start_reg :: "'r manager \<Rightarrow> 'r reg_sys" where
  "start_reg m = \<lparr>ryMgr = m, ryThreads = []\<rparr>"

lemma start_fine: "threads_fine (start_reg m)"
  by (simp add: threads_fine_def start_reg_def)

text \<open>A call of Register on an enabled manager reaches the backend with what the configuration makes of the service.\<close>

lemma prepared_elsewhere:
  "mConfig q = mConfig m \<Longrightarrow> mWorkload q = mWorkload m \<Longrightarrow> fst (prepareRegister svc q) = fst (prepareRegister svc m)"
  by (simp add: prepareRegister_def Let_def applyHealthCheck_def split: option.splits sum.splits)

lemma prepare_registry: "mRegistry (snd (prepareRegister svc q)) = mRegistry q"
  by (auto simp: prepareRegister_def Let_def applyHealthCheck_def m_log_def split: option.splits sum.splits)

lemma register_reaches:
  assumes "Enabled (mConfig q)" "mRegistry q = Some r" "fst (prepareRegister svc q) = Inr svc'"
  shows "\<exists>q'. Manager_Register ops c svc (Some q) = (fst (opRegister ops c svc' r), Some q')
    \<and> mRegistry q' = Some (after_request ops (ReqRegister c svc') r)"
proof -
  obtain q1 where "prepareRegister svc q = (Inr svc', q1)" using assms(3) by (cases "prepareRegister svc q") auto
  then show ?thesis
    using assms prepare_registry [of svc q] by (simp add: Manager_Register_def call_register_def split: prod.splits)
qed

lemma attempt_fields:
  "mRegistry (snd (after_attempt th n e m)) = mRegistry m" "rtTries (fst (after_attempt th n e m)) = rtTries th @ [e]"
  by (simp_all add: after_attempt_def log_registered_def log_retry_def m_log_def split: option.split)

lemma call_moves:
  assumes "rtPc th = RegCall n" "Manager_Register ops (reg_ctx th) (rtSvc th) (Some m) = (e, Some m')"
  shows "\<exists>th' m''. reg_move ops (th, m) (th', m'') \<and> mRegistry m'' = mRegistry m' \<and> rtTries th' = rtTries th @ [e]"
  using call_returns [OF assms] attempt_fields [where th = th and n = n and e = e and m = m'] by (metis prod.collapse)

lemma stop_workload: "mWorkload (fold stop_resolver es m) = mWorkload m"
proof (induction es arbitrary: m)
  case (Cons e es)
  have "mWorkload (stop_resolver e m) = mWorkload m" by (cases e) (simp add: stop_resolver_def mr_stop_def)
  then show ?case using Cons.IH by simp
qed simp

lemma attempt_moves:
  assumes "rtPc th = RegTest n" "\<not> mBaseDone m" "Manager_Register ops (reg_ctx th) (rtSvc th) (Some m) = (e, Some m')"
  shows "(reg_move ops)\<^sup>*\<^sup>* (th, m) (after_attempt th n e m')"
proof -
  let ?call = "th\<lparr>rtPc := RegCall n\<rparr>"
  have "reg_move ops (?call, m) (after_attempt ?call n e m')"
    by (rule call_returns) (use assms(3) in \<open>simp_all add: reg_ctx_def\<close>)
  moreover have "after_attempt ?call n e m' = after_attempt th n e m'" by (simp add: after_attempt_def split: option.split)
  ultimately show ?thesis using reg_move.test_open [OF assms(1,2)] by (metis converse_rtranclp_into_rtranclp r_into_rtranclp)
qed

text \<open>
  Undisturbed, a goroutine does what the loop \<open>register_loop\<close> of the theory \<open>Manager\<close> does: the same calls, sleeps,
  log calls and outcome, for any script whose sleeps are cut short only where the context allows it.
\<close>

lemma loop_is_thread:
  assumes "register_loop ops (reg_ctx th) (rtSvc th) n as m = (o1, ds, m')" "rtPc th = RegTest n"
    and "\<forall>a \<in> set as. atEnv a = id \<and> (atSlept a \<or> rtDone th)"
  shows "\<exists>th'. (reg_move ops)\<^sup>*\<^sup>* (th, m) (th', m') \<and> rtSleeps th' = rtSleeps th @ ds
     \<and> rtPc th' = (if o1 = Retrying then RegTest (n + int (length as)) else RegEnd o1)"
  using assms
proof (induction as arbitrary: n th m ds)
  case Nil
  then show ?case by auto
next
  case (Cons a as)
  have env: "atEnv a m = m" using Cons.prems(3) by simp
  obtain e m1 where reg: "Manager_Register ops (reg_ctx th) (rtSvc th) (Some m) = (e, Some m1)"
    using register_result by blast
  let ?d = "backoffDuration n" and ?t = "fst (after_attempt th n e m1)" and ?m2 = "snd (after_attempt th n e m1)"
  have go: "\<not> mBaseDone m \<Longrightarrow> (reg_move ops)\<^sup>*\<^sup>* (th, m) (?t, ?m2)"
    using attempt_moves [OF Cons.prems(2) _ reg] by simp
  note run = Cons.prems(1) [simplified env register_loop.simps Let_def]
  consider (closed) "mBaseDone m" | (ends) "\<not> mBaseDone m" "e = None \<or> is_panic (the e)"
    | (cut) x where "\<not> mBaseDone m" "e = Some x" "\<not> is_panic x" "\<not> atSlept a"
    | (again) x where "\<not> mBaseDone m" "e = Some x" "\<not> is_panic x" "atSlept a" by (cases e) auto
  then show ?case
  proof cases
    case closed
    have "reg_move ops (th, m) (th\<lparr>rtPc := RegEnd Stopped\<rparr>, m)" by (rule reg_move.test_closed [OF Cons.prems(2) closed])
    with run closed show ?thesis by (intro exI [of _ "th\<lparr>rtPc := RegEnd Stopped\<rparr>"]) auto
  next
    case ends
    then show ?thesis using run reg go by (intro exI [of _ ?t]) (auto simp: after_attempt_def split: option.splits if_splits)
  next
    case cut
    have t: "?t = th\<lparr>rtPc := RegSleep n ?d, rtTries := rtTries th @ [Some x], rtSleeps := rtSleeps th @ [?d]\<rparr>"
      "?m2 = log_retry (rtSvc th) n x m1" using cut by (simp_all add: after_attempt_def)
    have "reg_move ops (?t, ?m2) (?t\<lparr>rtPc := RegEnd Stopped\<rparr>, ?m2)"
      using cut(4) Cons.prems(3) by (intro reg_move.sleep_cut [where fired = False]) (simp_all add: sleepCtxAny_def t)
    from rtranclp.rtrancl_into_rtrancl [OF go [OF cut(1)] this] run reg cut t show ?thesis
      by (intro exI [of _ "?t\<lparr>rtPc := RegEnd Stopped\<rparr>"]) simp
  next
    case again
    have t: "?t = th\<lparr>rtPc := RegSleep n ?d, rtTries := rtTries th @ [Some x], rtSleeps := rtSleeps th @ [?d]\<rparr>"
      "?m2 = log_retry (rtSvc th) n x m1" using again by (simp_all add: after_attempt_def)
    let ?u = "?t\<lparr>rtPc := RegTest (n + 1)\<rparr>"
    have "reg_move ops (?t, ?m2) (?u, ?m2)"
      by (intro reg_move.sleep_over [where fired = True]) (simp_all add: sleepCtxAny_def t)
    note awake = rtranclp.rtrancl_into_rtrancl [OF go [OF again(1)] this]
    obtain ds1 where rest: "register_loop ops (reg_ctx th) (rtSvc th) (n + 1) as ?m2 = (o1, ds1, m')" "ds = ?d # ds1"
      using run reg again t by (auto split: prod.splits)
    have "\<exists>th'. (reg_move ops)\<^sup>*\<^sup>* (?u, ?m2) (th', m') \<and> rtSleeps th' = rtSleeps ?u @ ds1
        \<and> rtPc th' = (if o1 = Retrying then RegTest (n + 1 + int (length as)) else RegEnd o1)"
      by (rule Cons.IH) (use rest(1) Cons.prems(3) t in \<open>simp_all add: reg_ctx_def\<close>)
    with awake rest(2) t show ?thesis by (auto simp: ac_simps intro: rtranclp_trans)
  qed
qed

text \<open>A call of Register on its own: a thread that has passed the test of an open manager.\<close>

lemma reaches_call:
  assumes "Enabled (mConfig m)" "\<not> mBaseDone m"
  shows "reg_reach ops (start_reg m) \<lparr>ryMgr = m, ryThreads = [(new_reg_thread svc False)\<lparr>rtPc := RegCall 0\<rparr>]\<rparr>"
proof -
  let ?s = "\<lparr>ryMgr = m, ryThreads = [new_reg_thread svc False]\<rparr>"
  have "reg_step ops (start_reg m) ?s"
    using reg_step.starts [of "start_reg m" ops svc False] assms(1) by (simp add: start_reg_def)
  moreover have "reg_move ops (new_reg_thread svc False, m) ((new_reg_thread svc False)\<lparr>rtPc := RegCall 0\<rparr>, m)"
    by (rule reg_move.test_open) (use assms(2) in \<open>simp_all add: new_reg_thread_def\<close>)
  then have "reg_step ops ?s \<lparr>ryMgr = m, ryThreads = [(new_reg_thread svc False)\<lparr>rtPc := RegCall 0\<rparr>]\<rparr>"
    using reg_step.moves [of 0 ?s ops] by simp
  ultimately show ?thesis
    using reach.step [where step = "reg_step ops", OF reach.step [where step = "reg_step ops", OF reach.refl]] by blast
qed

text \<open>A manager on a stub backend with a registration that is prepared, for the witnesses.\<close>

lemma prepared_id: "fst (prepareRegister svc m) = Inr svc' \<Longrightarrow> sID svc' = sID svc"
  by (auto simp: prepareRegister_def Let_def advertised_frame tagWorkload_def split: if_splits dest!: applyHealthCheck_frame)

definition calling :: reg_thread where
  "calling = (new_reg_thread http_service False)\<lparr>rtPc := RegCall 0\<rparr>"

lemma calling_registers:
  assumes "mConfig q = mConfig stub_manager" "mRegistry q = Some n"
  shows "\<exists>q'. reg_step (stub_ops http_service) \<lparr>ryMgr = q, ryThreads = [calling]\<rparr>
      \<lparr>ryMgr = q', ryThreads = [calling\<lparr>rtPc := RegEnd Registered, rtTries := [None]\<rparr>]\<rparr> \<and> mRegistry q' = Some (n + 1)"
proof -
  let ?ops = "stub_ops http_service" and ?s = "\<lparr>ryMgr = q, ryThreads = [calling]\<rparr>"
  have "AdvertiseAddr (mConfig q) \<noteq> []" by (simp add: assms(1) stub_manager_def enabled_advertises)
  then obtain svc where "fst (prepareRegister http_service q) = Inr svc" using http_prepares by blast
  then obtain q' where "Manager_Register ?ops (reg_ctx calling) (rtSvc calling) (Some q) = (None, Some q')" "mRegistry q' = Some (n + 1)"
    using register_reaches [of q n http_service svc ?ops "reg_ctx calling"] assms
    by (auto simp: calling_def new_reg_thread_def stub_ops_def)
  moreover from this(1) have "reg_move ?ops (calling, q)
      (calling\<lparr>rtPc := RegEnd Registered, rtTries := rtTries calling @ [None]\<rparr>, log_registered (rtSvc calling) 0 q')"
    by (intro reg_move.call_succeeds) (simp_all add: calling_def)
  ultimately show ?thesis
    using reg_step.moves [of 0 ?s ?ops] by (intro exI [of _ q']) (simp add: log_registered_def calling_def new_reg_thread_def)
qed

text \<open>
  C29. However the goroutines of RegisterAsync, Close and the rest interleave, each of them is paced and
  registers at most once: the sleeps it asked for are 100ms, 200ms, ... capped at 30s, one after each
  failed call; a call that succeeded is its last, and it has ended; and it never ends as registered
  without one.
\<close>

theorem async_registrations_paced:
  assumes "reg_reach ops (start_reg m) s" and "th \<in> set (ryThreads s)"
  shows "rtSleeps th = map (\<lambda>i. if i < 9 then 100 * millisecond * 2 ^ i else 30 * second) [0..<length (rtSleeps th)]
     \<and> length (rtSleeps th) \<le> length (rtTries th) \<and> length (rtTries th) \<le> length (rtSleeps th) + 1
     \<and> (None \<in> set (rtTries th) \<longleftrightarrow> rtPc th = RegEnd Registered)
     \<and> (rtPc th = RegEnd Registered \<longrightarrow> (\<exists>es. rtTries th = map Some es @ [None]))"
proof -
  have "thread_ok th"
    using reg.reach_inv [OF assms(1) start_fine] assms(2) by (simp add: threads_fine_def list_all_iff)
  moreover have "backoffDuration (int i) = (if i < 9 then 100 * millisecond * 2 ^ i else 30 * second)" for i
    by (simp add: backoff_small backoff_large watch_constants)
  moreover have "\<exists>es. rs = map Some es @ [None]" if "rs \<noteq> []" "last rs = None" "None \<notin> set (butlast rs)" for rs :: "go_error option list"
  proof -
    have "map (\<lambda>x. Some (the x)) (butlast rs) = butlast rs"
      by (rule map_idI) (metis option.collapse that(3))
    then have "map Some (map the (butlast rs)) = butlast rs" by (simp add: comp_def)
    with that show ?thesis by (metis append_butlast_last_id)
  qed
  ultimately show ?thesis
    by (cases "rtPc th") (auto simp: thread_ok_def failures_def dest: in_set_butlastD last_in_set split: if_splits)
qed

theorem async_registrations_paced_witness:
  "\<exists>s th. reg_reach (stub_ops http_service) (start_reg stub_manager) s \<and> th \<in> set (ryThreads s)
     \<and> rtPc th = RegEnd Registered \<and> (\<exists>es. rtTries th = map Some es @ [None])"
proof -
  obtain q where q: "reg_step (stub_ops http_service) \<lparr>ryMgr = stub_manager, ryThreads = [calling]\<rparr>
      \<lparr>ryMgr = q, ryThreads = [calling\<lparr>rtPc := RegEnd Registered, rtTries := [None]\<rparr>]\<rparr>"
    using calling_registers [of stub_manager 0] by auto
  have "reg_reach (stub_ops http_service) (start_reg stub_manager) \<lparr>ryMgr = stub_manager, ryThreads = [calling]\<rparr>"
    unfolding calling_def by (rule reaches_call) simp_all
  from reach.step [where step = "reg_step (stub_ops http_service)", OF this q]
  have r: "reg_reach (stub_ops http_service) (start_reg stub_manager)
      \<lparr>ryMgr = q, ryThreads = [calling\<lparr>rtPc := RegEnd Registered, rtTries := [None]\<rparr>]\<rparr>" .
  let ?th = "calling\<lparr>rtPc := RegEnd Registered, rtTries := [None]\<rparr>"
  have "?th \<in> set (ryThreads \<lparr>ryMgr = q, ryThreads = [?th]\<rparr>)" by simp
  from async_registrations_paced [OF r this] r show ?thesis
    by (intro exI [of _ "\<lparr>ryMgr = q, ryThreads = [?th]\<rparr>"] exI [of _ ?th]) simp
qed

lemma late_calls:
  assumes "mBaseDone (ryMgr s)" and "reg_reach ops s u"
  shows "length (ryThreads s) \<le> length (ryThreads u)
     \<and> (\<forall>t < length (ryThreads s). length (rtTries (ryThreads u ! t)) \<le> spent (ryThreads s ! t))
     \<and> (\<forall>t < length (ryThreads u). length (ryThreads s) \<le> t \<longrightarrow> rtTries (ryThreads u ! t) = [])"
proof -
  have "within (ryThreads s) s" using assms(1) by (simp add: within_def)
  then have w: "within (ryThreads s) u" by (rule late.reach_inv [OF assms(2)])
  have made: "length (rtTries th) \<le> spent th" "spent th = 0 \<Longrightarrow> rtTries th = []" for th
    by (simp_all add: spent_def)
  show ?thesis using w made(2) order_trans [OF made(1)] by (simp add: within_def)
qed

text \<open>
  C9. Close ends asynchronous registration: once the base context is done, however the rest goes on, a
  goroutine of RegisterAsync calls Register at most once more, and only if it was already past its test of
  that context, and one that is started later never does; no schedule lets the goroutines go on for
  ever, and where none of them can take a step each has ended.
\<close>

theorem closed_registrations_end:
  assumes "mBaseDone (ryMgr s)"
  shows "(\<forall>u t. reg_reach ops s u \<longrightarrow> t < length (ryThreads u) \<longrightarrow> length (rtTries (ryThreads u ! t))
          \<le> (if t < length (ryThreads s)
             then length (rtTries (ryThreads s ! t)) + (case rtPc (ryThreads s ! t) of RegCall n \<Rightarrow> 1 | _ \<Rightarrow> 0)
             else 0))
     \<and> (\<forall>f. f 0 = s \<longrightarrow> (\<exists>i. \<not> threads_step ops (f i) (f (Suc i))))
     \<and> (\<forall>u. reach (threads_step ops) s u \<longrightarrow> (\<nexists>v. threads_step ops u v) \<longrightarrow>
          (\<forall>th \<in> set (ryThreads u). \<exists>out. rtPc th = RegEnd out))"
proof (intro conjI allI impI ballI)
  fix u t assume "reg_reach ops s u" "t < length (ryThreads u)"
  then show "length (rtTries (ryThreads u ! t))
      \<le> (if t < length (ryThreads s)
         then length (rtTries (ryThreads s ! t)) + (case rtPc (ryThreads s ! t) of RegCall n \<Rightarrow> 1 | _ \<Rightarrow> 0)
         else 0)"
    using late_calls [OF assms] by (auto simp: spent_def)
next
  fix f :: "nat \<Rightarrow> 'a reg_sys" assume "f 0 = s"
  with assms have "mBaseDone (ryMgr (f 0))" by simp
  then show "\<exists>i. \<not> threads_step ops (f i) (f (Suc i))" by (rule closed.run_ends)
next
  fix u th assume u: "\<nexists>v. threads_step ops u v" and "th \<in> set (ryThreads u)"
  then obtain t where t: "t < length (ryThreads u)" "ryThreads u ! t = th" by (auto simp: in_set_conv_nth)
  show "\<exists>out. rtPc th = RegEnd out"
  proof (rule ccontr)
    assume "\<nexists>out. rtPc th = RegEnd out"
    then obtain th' m' where "reg_move ops (ryThreads u ! t, ryMgr u) (th', m')"
      using thread_can_move [of th ops "ryMgr u"] t(2) by blast
    then show False using u threads_step.intros [OF t(1)] by blast
  qed
qed

theorem closed_registrations_end_witness:
  "\<exists>u. reg_reach (stub_ops http_service) \<lparr>ryMgr = stub_manager\<lparr>mBaseDone := True\<rparr>, ryThreads = [calling]\<rparr> u
     \<and> mRegistry (ryMgr u) = Some 1 \<and> length (rtTries (ryThreads u ! 0)) \<le> 1"
proof -
  let ?s = "\<lparr>ryMgr = stub_manager\<lparr>mBaseDone := True\<rparr>, ryThreads = [calling]\<rparr>"
  obtain q where q: "reg_step (stub_ops http_service) ?s
      \<lparr>ryMgr = q, ryThreads = [calling\<lparr>rtPc := RegEnd Registered, rtTries := [None]\<rparr>]\<rparr>" "mRegistry q = Some 1"
    using calling_registers [of "stub_manager\<lparr>mBaseDone := True\<rparr>" 0] by auto
  let ?u = "\<lparr>ryMgr = q, ryThreads = [calling\<lparr>rtPc := RegEnd Registered, rtTries := [None]\<rparr>]\<rparr>"
  have r: "reg_reach (stub_ops http_service) ?s ?u"
    by (rule reach_first [where step = "reg_step (stub_ops http_service)", OF q(1) reach.refl])
  have b: "mBaseDone (ryMgr ?s)" and t: "0 < length (ryThreads ?u)" by simp_all
  have "length (rtTries (ryThreads ?u ! 0)) \<le> 1"
    using closed_registrations_end [OF b, THEN conjunct1, rule_format, OF r t] by (simp add: calling_def new_reg_thread_def)
  with q(2) r show ?thesis by (intro exI [of _ ?u]) simp
qed

text \<open>
  C39. The test of the base context does not protect a registration: on any manager with a backend there is a
  schedule in which a goroutine of RegisterAsync passes its test, the service is deregistered, Close runs to
  its end and returns, with the base context cancelled and the backend closed, and then the next step of
  that goroutine, its first call of Register, registers the service with the closed backend.
\<close>

theorem register_outlives_close:
  assumes "Enabled (mConfig m)" "mRegistry m = Some r" "\<not> mClosed m" "\<not> mBaseDone m" "mCloseErr m = None"
    and "fst (prepareRegister svc m) = Inr svc'"
  shows "\<exists>u v th th'. reg_reach ops (start_reg m) u \<and> ryThreads u = [th] \<and> rtSvc th = svc \<and> rtTries th = []
     \<and> mClosed (ryMgr u) \<and> mBaseDone (ryMgr u) \<and> mCloseErr (ryMgr u) \<noteq> None
     \<and> mRegistry (ryMgr u) = Some (after_close ops (after_request ops (ReqDeregister c (sID svc)) r))
     \<and> threads_step ops u v \<and> ryThreads v = [th'] \<and> length (rtTries th') = 1
     \<and> mRegistry (ryMgr v) = Some (after_request ops (ReqRegister Background svc')
          (after_close ops (after_request ops (ReqDeregister c (sID svc)) r)))"
proof -
  let ?th = "(new_reg_thread svc False)\<lparr>rtPc := RegCall 0\<rparr>"
  let ?s = "\<lambda>q. \<lparr>ryMgr = q, ryThreads = [?th]\<rparr>"
  let ?r1 = "after_request ops (ReqDeregister c (sID svc)) r"
  let ?m1 = "m\<lparr>mRegistry := Some ?r1\<rparr>"
  let ?m3 = "close_registry ops (close_locked ?m1)"
  have m3: "mRegistry ?m3 = Some (after_close ops ?r1)" "mCloseErr ?m3 \<noteq> None" "mConfig ?m3 = mConfig m"
    "mWorkload ?m3 = mWorkload m" "mClosed ?m3" "mBaseDone ?m3"
    by (simp_all add: close_registry_def close_locked_def stop_resolvers_fields stop_workload)
  note go = reach.step [where step = "reg_step ops"]
  have s1: "reg_step ops (?s m) (?s ?m1)" using reg_step.others [of "?s m" r ops "ReqDeregister c (sID svc)"] assms(2) by simp
  have s2: "reg_step ops (?s ?m1) (?s (close_locked ?m1))"
    using reg_step.close_begins [of "?s ?m1" ops] assms(3) by simp
  have s3: "reg_step ops (?s (close_locked ?m1)) (?s ?m3)"
    using reg_step.close_ends [of "?s (close_locked ?m1)" ops] assms(5)
    by (simp add: close_locked_def stop_resolvers_fields)
  have u: "reg_reach ops (start_reg m) (?s ?m3)" by (rule go [OF go [OF go [OF reaches_call [OF assms(1,4)] s1] s2] s3])
  obtain e q where q: "Manager_Register ops (reg_ctx ?th) (rtSvc ?th) (Some ?m3) = (e, Some q)"
    "mRegistry q = Some (after_request ops (ReqRegister (reg_ctx ?th) svc') (after_close ops ?r1))"
    using register_reaches [of ?m3 _ svc svc'] m3 assms(1,6) prepared_elsewhere [of ?m3 m]
    by (metis new_reg_thread_def reg_thread.select_convs(2) reg_thread.update_convs(1))
  obtain th' m4 where m4: "reg_move ops (?th, ?m3) (th', m4)" "mRegistry m4 = mRegistry q" "rtTries th' = rtTries ?th @ [e]"
    using call_moves [OF _ q(1), of 0] by auto
  then have v: "threads_step ops (?s ?m3) \<lparr>ryMgr = m4, ryThreads = [th']\<rparr>"
    using threads_step.intros [of 0 "?s ?m3" ops] by simp
  have "reg_ctx ?th = Background" by (simp add: reg_ctx_def new_reg_thread_def Background_def)
  then show ?thesis
    using u v m3 m4 q(2)
    by (intro exI [of _ "?s ?m3"] exI [of _ "\<lparr>ryMgr = m4, ryThreads = [th']\<rparr>"] exI [of _ ?th] exI [of _ th'])
      (simp add: new_reg_thread_def)
qed

text \<open>An agent that keeps the ids of the services registered with it.\<close>

definition roster_api :: "string list consul_api" where
  "roster_api =
     \<lparr>apNewClient = \<lambda>_. None, apRegister = \<lambda>_ _ reg ids. (None, rgID reg # ids),
      apDeregister = \<lambda>_ _ i ids. (None, removeAll i ids), apUpdateTTL = \<lambda>_ _ _ _ _ ids. (None, ids),
      apHealth = \<lambda>_ _ _ _ _ ids. (Inr ([], 1), ids)\<rparr>"

lemma roster_register:
  "crClosed r \<Longrightarrow> \<exists>r'. snd (consul_Register roster_api c svc (Some r)) = Some r' \<and> crClosed r' \<and> crServer r' = sID svc # crServer r"
  by (simp add: consul_Register_def Let_def startHeartbeat_def cr_log_def roster_api_def split: prod.splits)

theorem register_outlives_close_witness:
  "\<exists>m u v th r. New (consul_backend roster_api default_api_config []) enabled_config
       [Some (WithLogger NilInterface), Some (WithWorkload ''w'')] = Inr m
     \<and> reg_reach (consul_ops roster_api) (start_reg m) u \<and> mCloseErr (ryMgr u) \<noteq> None
     \<and> threads_step (consul_ops roster_api) u v \<and> ryThreads v = [th] \<and> length (rtTries th) = 1
     \<and> mRegistry (ryMgr v) = Some (Some r) \<and> crClosed r \<and> ''a-1'' \<in> set (crServer r)"
proof -
  let ?ops = "consul_ops roster_api"
  have b: "\<exists>r. consul_backend roster_api default_api_config [] c = Inr (Some r)" for c
    by (simp add: consul_backend_def newConsulRegistry_def roster_api_def)
  then obtain r0 where r0: "consul_backend roster_api default_api_config [] (withDefaults enabled_config) = Inr (Some r0)"
    by blast
  obtain m where m: "New (consul_backend roster_api default_api_config []) enabled_config
      [Some (WithLogger NilInterface), Some (WithWorkload ''w'')] = Inr m"
    using New_succeeds [of "consul_backend roster_api default_api_config []"] b by blast
  note f = New_fields [OF m]
  have e: "Enabled (mConfig m)" "mRegistry m = Some (Some r0)" using f(6,11) r0 by (auto simp: enabled_config_def)
  have "AdvertiseAddr (mConfig m) \<noteq> []" using f(6) by (simp add: enabled_advertises)
  then obtain svc where svc: "fst (prepareRegister http_service m) = Inr svc" using http_prepares by blast
  obtain u v th where u: "reg_reach ?ops (start_reg m) u" "mCloseErr (ryMgr u) \<noteq> None" "threads_step ?ops u v"
    "ryThreads v = [th]" "length (rtTries th) = 1"
    "mRegistry (ryMgr v) = Some (after_request ?ops (ReqRegister Background svc)
       (after_close ?ops (after_request ?ops (ReqDeregister Background (sID http_service)) (Some r0))))"
    using register_outlives_close [OF e f(2,10,5) svc, where c = Background] by blast
  obtain r1 where r1: "after_request ?ops (ReqDeregister Background (sID http_service)) (Some r0) = Some r1"
    by (simp add: consul_ops_def consul_Deregister_def Let_def roster_api_def)
  obtain r where "after_request ?ops (ReqRegister Background svc) (Some (close_heartbeats r1)) = Some r"
    "crClosed r" "crServer r = sID svc # crServer (close_heartbeats r1)"
    using roster_register [OF close_keeps_closed] by (fastforce simp: consul_ops_def)
  moreover have "sID svc = ''a-1''" using prepared_id [OF svc] by (simp add: http_service_def)
  moreover have "after_close ?ops (Some r1) = Some (close_heartbeats r1)"
    by (simp add: after_close_def consul_ops_def consul_Close_def)
  ultimately show ?thesis using m u r1
    by (intro exI [of _ m] exI [of _ u] exI [of _ v] exI [of _ th] exI [of _ r]) simp
qed

end
