(* ===== verification/GoQuote.thy ===== *)
theory GoQuote
  imports GoUrl
begin

text \<open>
  Go's \<open>%q\<close> for a string: \<open>strconv.Quote\<close>, on bytes. Which runes above Latin-1 print is a table of the
  package \<open>strconv\<close>, here the parameter \<open>upper\<close>.
\<close>

section \<open>Decoding and quoting\<close>

definition cont_byte :: "char \<Rightarrow> bool" where
  "cont_byte c \<longleftrightarrow> 0x80 \<le> byte c \<and> byte c \<le> 0xBF"

text \<open>The second byte of a rune, which excludes overlong forms, surrogates and what is above 0x10FFFF.\<close>

definition second_byte :: "nat \<Rightarrow> char \<Rightarrow> bool" where
  "second_byte b0 c \<longleftrightarrow>
     (if b0 = 0xE0 then 0xA0 else if b0 = 0xF0 then 0x90 else 0x80) \<le> byte c
     \<and> byte c \<le> (if b0 = 0xED then 0x9F else if b0 = 0xF4 then 0x8F else 0xBF)"

abbreviation rune_error :: nat where "rune_error \<equiv> 0xFFFD"

text \<open>\<open>utf8.DecodeRuneInString\<close>: the rune and its width in bytes; an invalid byte is an error of width 1.\<close>

definition decode_rune :: "string \<Rightarrow> nat \<times> nat" where
  "decode_rune s =
     (case s of
        [] \<Rightarrow> (rune_error, 0)
      | a # s1 \<Rightarrow>
          let b0 = byte a in
          if b0 < 0x80 then (b0, 1)
          else case s1 of
            [] \<Rightarrow> (rune_error, 1)
          | b # s2 \<Rightarrow>
              if 0xC2 \<le> b0 \<and> b0 \<le> 0xDF
              then (if cont_byte b then ((b0 - 0xC0) * 64 + (byte b - 0x80), 2) else (rune_error, 1))
              else case s2 of
                [] \<Rightarrow> (rune_error, 1)
              | c # s3 \<Rightarrow>
                  if 0xE0 \<le> b0 \<and> b0 \<le> 0xEF
                  then (if second_byte b0 b \<and> cont_byte c
                        then ((b0 - 0xE0) * 4096 + (byte b - 0x80) * 64 + (byte c - 0x80), 3)
                        else (rune_error, 1))
                  else case s3 of
                    [] \<Rightarrow> (rune_error, 1)
                  | d # s4 \<Rightarrow>
                      if 0xF0 \<le> b0 \<and> b0 \<le> 0xF4 \<and> second_byte b0 b \<and> cont_byte c \<and> cont_byte d
                      then ((b0 - 0xF0) * 262144 + (byte b - 0x80) * 4096 + (byte c - 0x80) * 64 + (byte d - 0x80), 4)
                      else (rune_error, 1))"

definition is_print :: "(nat \<Rightarrow> bool) \<Rightarrow> nat \<Rightarrow> bool" where
  "is_print upper r = (if r \<le> 0xFF then 0x20 \<le> r \<and> r < 0x7F \<or> 0xA1 \<le> r \<and> r \<noteq> 0xAD else upper r)"

definition hex_digit :: "nat \<Rightarrow> char" where
  "hex_digit n = char_of (if n < 10 then 48 + n else 87 + n)"

fun hex_digits :: "nat \<Rightarrow> nat \<Rightarrow> string" where
  "hex_digits 0 n = []"
| "hex_digits (Suc k) n = hex_digits k (n div 16) @ [hex_digit (n mod 16)]"

abbreviation backslash :: char where "backslash \<equiv> CHR 0x5C"

text \<open>What is appended for one rune of width \<open>w\<close> at the head of \<open>s\<close>.\<close>

definition quote_rune :: "(nat \<Rightarrow> bool) \<Rightarrow> nat \<Rightarrow> nat \<Rightarrow> string \<Rightarrow> string" where
  "quote_rune upper r w s =
     (if w = 1 \<and> r = rune_error then [backslash, CHR ''x''] @ hex_digits 2 (byte (hd s))
      else if r = 0x22 \<or> r = 0x5C then [backslash, char_of r]
      else if is_print upper r then take w s
      else if r = 7 then [backslash, CHR ''a''] else if r = 8 then [backslash, CHR ''b'']
      else if r = 12 then [backslash, CHR ''f''] else if r = 10 then [backslash, CHR ''n'']
      else if r = 13 then [backslash, CHR ''r''] else if r = 9 then [backslash, CHR ''t'']
      else if r = 11 then [backslash, CHR ''v'']
      else if r < 0x20 \<or> r = 0x7F then [backslash, CHR ''x''] @ hex_digits 2 r
      else if r < 0x10000 then [backslash, CHR ''u''] @ hex_digits 4 r
      else [backslash, CHR ''U''] @ hex_digits 8 r)"

function quote_runes :: "(nat \<Rightarrow> bool) \<Rightarrow> string \<Rightarrow> string" where
  "quote_runes upper [] = []"
| "quote_runes upper (a # s) =
     (case decode_rune (a # s) of (r, w) \<Rightarrow> quote_rune upper r w (a # s) @ quote_runes upper (drop (w - 1) s))"
  by pat_completeness auto

termination quote_runes
  by (relation "measure (length \<circ> snd)") auto

definition go_quote :: "(nat \<Rightarrow> bool) \<Rightarrow> string \<Rightarrow> string" where
  "go_quote upper s = [CHR 0x22] @ quote_runes upper s @ [CHR 0x22]"

section \<open>Reading a quoted string back\<close>

definition encode_rune :: "nat \<Rightarrow> string" where
  "encode_rune r =
     map char_of
       (if r < 0x80 then [r]
        else if r < 0x800 then [0xC0 + r div 64, 0x80 + r mod 64]
        else if r < 0x10000 then [0xE0 + r div 4096, 0x80 + r div 64 mod 64, 0x80 + r mod 64]
        else [0xF0 + r div 262144, 0x80 + r div 4096 mod 64, 0x80 + r div 64 mod 64, 0x80 + r mod 64])"

definition hex_value :: "string \<Rightarrow> nat" where
  "hex_value s = foldl (\<lambda>n c. 16 * n + unhex c) 0 s"

definition letter_escape :: "char \<Rightarrow> char" where
  "letter_escape c =
     (case map_of [(CHR ''a'', 7), (CHR ''b'', 8), (CHR ''f'', 12), (CHR ''n'', 10), (CHR ''r'', 13), (CHR ''t'', 9), (CHR ''v'', 11)] c
      of None \<Rightarrow> c | Some n \<Rightarrow> char_of (n :: nat))"

text \<open>The reference reader: up to the closing quote, the bytes that were quoted and the rest.\<close>

function read_quoted :: "string \<Rightarrow> (string \<times> string) option" where
  "read_quoted [] = None"
| "read_quoted (a # s) =
     (if a = CHR 0x22 then Some ([], s)
      else if a \<noteq> backslash then map_option (apfst (Cons a)) (read_quoted s)
      else case s of
        [] \<Rightarrow> None
      | k # t \<Rightarrow>
          if k = CHR ''x'' then map_option (apfst (Cons (char_of (hex_value (take 2 t))))) (read_quoted (drop 2 t))
          else if k = CHR ''u'' then map_option (apfst (append (encode_rune (hex_value (take 4 t))))) (read_quoted (drop 4 t))
          else if k = CHR ''U'' then map_option (apfst (append (encode_rune (hex_value (take 8 t))))) (read_quoted (drop 8 t))
          else map_option (apfst (Cons (letter_escape k))) (read_quoted t))"
  by pat_completeness auto

termination read_quoted
  by (relation "measure length") auto

section \<open>The round trip\<close>

lemma unhex_digit: "n < 16 \<Longrightarrow> unhex (hex_digit n) = n"
proof -
  have "\<forall>n \<in> set [0..<16]. unhex (hex_digit n) = n" by code_simp
  then show "n < 16 \<Longrightarrow> unhex (hex_digit n) = n" by simp
qed

lemma hex_digits_length [simp]: "length (hex_digits k n) = k"
  by (induction k arbitrary: n) simp_all

lemma hex_value_digits: "n < 16 ^ k \<Longrightarrow> hex_value (hex_digits k n) = n"
proof (induction k arbitrary: n)
  case (Suc k)
  have "n div 16 < 16 ^ k" using Suc.prems by (simp add: less_mult_imp_div_less)
  from Suc.IH [OF this] show ?case by (simp add: hex_value_def unhex_digit)
qed (simp add: hex_value_def)

lemma char_of_byte [simp]: "char_of (byte c) = c"
  by (simp add: byte_def)

lemma byte_char_of: "n < 256 \<Longrightarrow> byte (char_of n) = n"
  by (simp add: byte_def)

lemma base64 [simp]:
  "y < 64 \<Longrightarrow> (x * 64 + y) div 64 = (x :: nat)" "y < 64 \<Longrightarrow> (x * 64 + y) mod 64 = (y :: nat)"
  by simp_all

lemma encode2:
  assumes "2 \<le> x" "x < 32" "y < 64"
  shows "encode_rune (x * 64 + y) = map char_of [0xC0 + x, 0x80 + y]"
  using assms by (simp add: encode_rune_def)

lemma encode3:
  assumes "x < 16" "y < 64" "z < 64" "x = 0 \<longrightarrow> 32 \<le> y"
  shows "encode_rune ((x * 64 + y) * 64 + z) = map char_of [0xE0 + x, 0x80 + y, 0x80 + z]"
proof -
  let ?r = "(x * 64 + y) * 64 + z"
  have "?r div 64 = x * 64 + y" "?r mod 64 = z" using assms(3) by (simp_all only: base64)
  moreover from this have "?r div 4096 = x" using assms(2) by (simp add: div_mult2_eq [of ?r 64 64, simplified])
  moreover have "0x800 \<le> ?r" "?r < 0x10000" using assms by auto
  ultimately show ?thesis using assms(2) by (simp add: encode_rune_def)
qed

lemma encode4:
  assumes "x < 5" "y < 64" "z < 64" "w < 64" "x = 0 \<longrightarrow> 16 \<le> y"
  shows "encode_rune (((x * 64 + y) * 64 + z) * 64 + w) = map char_of [0xF0 + x, 0x80 + y, 0x80 + z, 0x80 + w]"
proof -
  let ?r = "((x * 64 + y) * 64 + z) * 64 + w"
  have 1: "?r div 64 = (x * 64 + y) * 64 + z" "?r mod 64 = w" using assms(4) by (simp_all only: base64)
  then have 2: "?r div 4096 = x * 64 + y" using assms(3) by (simp add: div_mult2_eq [of ?r 64 64, simplified])
  then have "?r div 262144 = x" using assms(2) by (simp add: div_mult2_eq [of ?r 4096 64, simplified])
  moreover have "?r div 64 mod 64 = z" "?r div 4096 mod 64 = y"
    unfolding 1(1) 2 using assms(2,3) by (simp_all only: base64)
  moreover have "0x10000 \<le> ?r" using assms by auto
  ultimately show ?thesis using 1(2) by (simp add: encode_rune_def)
qed

text \<open>A rune that decodes is encoded by the bytes it came from.\<close>

lemma byte_less [simp]: "byte c < 256"
  by (simp add: byte_def)

lemma offset: "k \<le> byte c \<Longrightarrow> char_of (k + (byte c - k)) = c"
  by simp

lemma decode_cases:
  assumes "decode_rune (a # s) = (r, w)" "\<not> (w = 1 \<and> r = rune_error)"
  obtains (one) "byte a < 0x80" "r = byte a" "w = 1"
    | (two) b s2 where "s = b # s2" "0xC2 \<le> byte a" "byte a \<le> 0xDF" "cont_byte b" "w = 2"
        "r = (byte a - 0xC0) * 64 + (byte b - 0x80)"
    | (three) b c s3 where "s = b # c # s3" "0xE0 \<le> byte a" "byte a \<le> 0xEF" "second_byte (byte a) b" "cont_byte c" "w = 3"
        "r = (byte a - 0xE0) * 4096 + (byte b - 0x80) * 64 + (byte c - 0x80)"
    | (four) b c d s4 where "s = b # c # d # s4" "0xF0 \<le> byte a" "byte a \<le> 0xF4" "second_byte (byte a) b"
        "cont_byte c" "cont_byte d" "w = 4"
        "r = (byte a - 0xF0) * 262144 + (byte b - 0x80) * 4096 + (byte c - 0x80) * 64 + (byte d - 0x80)"
  using assms by (auto simp: decode_rune_def Let_def split: list.splits if_splits)

lemma second_byte_bounds:
  assumes "second_byte x b"
  shows "0x80 \<le> byte b" "byte b \<le> 0xBF" "x = 0xE0 \<longrightarrow> 0xA0 \<le> byte b" "x = 0xF0 \<longrightarrow> 0x90 \<le> byte b"
  using assms by (auto simp: second_byte_def split: if_splits)

lemma encode_decode:
  assumes "decode_rune (a # s) = (r, w)" "\<not> (w = 1 \<and> r = rune_error)"
  shows "encode_rune r = take w (a # s)"
  using assms
proof (cases rule: decode_cases)
    case one
    then show ?thesis by (simp add: encode_rune_def)
  next
    case (two b s2)
    have "2 \<le> byte a - 0xC0" "byte a - 0xC0 < 32" "byte b - 0x80 < 64" using two by (auto simp: cont_byte_def)
    from encode2 [OF this] show ?thesis using two by (simp add: cont_byte_def)
  next
    case (three b c s3)
    have "r = ((byte a - 0xE0) * 64 + (byte b - 0x80)) * 64 + (byte c - 0x80)" using three(7) by (simp add: algebra_simps)
    moreover have "0x80 \<le> byte b" "byte b \<le> 0xBF" "byte a = 0xE0 \<longrightarrow> 0xA0 \<le> byte b"
      using second_byte_bounds [OF three(4)] by auto
    moreover from this have "byte a - 0xE0 < 16" "byte b - 0x80 < 64" "byte c - 0x80 < 64"
      "byte a - 0xE0 = 0 \<longrightarrow> 32 \<le> byte b - 0x80" using three by (auto simp: cont_byte_def)
    ultimately show ?thesis using encode3 [of "byte a - 0xE0" "byte b - 0x80" "byte c - 0x80"] three
      by (simp add: cont_byte_def)
  next
    case (four b c d s4)
    have "r = (((byte a - 0xF0) * 64 + (byte b - 0x80)) * 64 + (byte c - 0x80)) * 64 + (byte d - 0x80)"
      using four(8) by (simp add: algebra_simps)
    moreover have "0x80 \<le> byte b" "byte b \<le> 0xBF" "byte a = 0xF0 \<longrightarrow> 0x90 \<le> byte b"
      using second_byte_bounds [OF four(4)] by auto
    moreover from this have "byte a - 0xF0 < 5" "byte b - 0x80 < 64" "byte c - 0x80 < 64" "byte d - 0x80 < 64"
      "byte a - 0xF0 = 0 \<longrightarrow> 16 \<le> byte b - 0x80" using four by (auto simp: cont_byte_def)
    ultimately show ?thesis using encode4 [of "byte a - 0xF0" "byte b - 0x80" "byte c - 0x80" "byte d - 0x80"] four
      by (simp add: cont_byte_def)
qed

lemma decode_facts:
  assumes "decode_rune (a # s) = (r, w)" "\<not> (w = 1 \<and> r = rune_error)"
  shows "w = 1 \<and> r = byte a \<and> r < 0x80
     \<or> 2 \<le> w \<and> 0x80 \<le> r \<and> r < 16 ^ 8 \<and> (\<forall>c \<in> set (take w (a # s)). 0x80 \<le> byte c)"
  using assms
proof (cases rule: decode_cases)
  case one
  then show ?thesis by simp
next
  case (two b s2)
  define x y where xy: "x = byte a - 0xC0" "y = byte b - 0x80"
  have "2 \<le> x" "x < 32" "y < 64" using two(2-4) by (auto simp: xy cont_byte_def)
  moreover have "r = x * 64 + y" using two(6) by (simp add: xy)
  ultimately have "0x80 \<le> r" "r < 16 ^ 8" by simp_all
  then show ?thesis using two by (simp add: cont_byte_def)
next
  case (three b c s3)
  note sb = second_byte_bounds [OF three(4)]
  define x y z where xyz: "x = byte a - 0xE0" "y = byte b - 0x80" "z = byte c - 0x80"
  have "x < 16" "y < 64" "z < 64" "x = 0 \<longrightarrow> 32 \<le> y" using three(2,3,5) sb by (auto simp: xyz cont_byte_def)
  moreover have "r = x * 4096 + y * 64 + z" using three(7) by (simp only: xyz)
  ultimately have "0x80 \<le> r" "r < 16 ^ 8" by auto
  then show ?thesis using three(1,2,5,6) sb(1) by (simp add: cont_byte_def)
next
  case (four b c d s4)
  note sb = second_byte_bounds [OF four(4)]
  define x y z v where xyz: "x = byte a - 0xF0" "y = byte b - 0x80" "z = byte c - 0x80" "v = byte d - 0x80"
  have "x < 5" "y < 64" "z < 64" "v < 64" "x = 0 \<longrightarrow> 16 \<le> y" using four(2,3,5,6) sb by (auto simp: xyz cont_byte_def)
  moreover have "r = x * 262144 + y * 4096 + z * 64 + v" using four(8) by (simp only: xyz)
  ultimately have "0x80 \<le> r" "r < 16 ^ 8" by auto
  then show ?thesis using four(1,2,5,6,7) sb(1) by (simp add: cont_byte_def)
qed

lemma read_literal:
  "\<forall>c \<in> set xs. c \<noteq> CHR 0x22 \<and> c \<noteq> backslash \<Longrightarrow>
     read_quoted (xs @ u) = map_option (apfst (append xs)) (read_quoted u)"
proof (induction xs)
  case Nil
  then show ?case by (cases "read_quoted u") auto
next
  case (Cons x xs)
  then have "read_quoted ((x # xs) @ u) = map_option (apfst (Cons x)) (map_option (apfst (append xs)) (read_quoted u))"
    by simp
  then show ?case by (cases "read_quoted u") (simp_all only: option.map apfst_conv append.simps prod.collapse split_paired_all)
qed

lemma read_letter:
  "k \<notin> set ''xuU'' \<Longrightarrow> read_quoted (backslash # k # u) = map_option (apfst (Cons (letter_escape k))) (read_quoted u)"
  by simp

lemma read_hex:
  "n < 256 \<Longrightarrow> read_quoted (backslash # CHR ''x'' # hex_digits 2 n @ u) = map_option (apfst (Cons (char_of n))) (read_quoted u)"
  "n < 65536 \<Longrightarrow> read_quoted (backslash # CHR ''u'' # hex_digits 4 n @ u) = map_option (apfst (append (encode_rune n))) (read_quoted u)"
  "n < 4294967296 \<Longrightarrow> read_quoted (backslash # CHR ''U'' # hex_digits 8 n @ u) = map_option (apfst (append (encode_rune n))) (read_quoted u)"
  using hex_value_digits [of n 2] hex_value_digits [of n 4] hex_value_digits [of n 8]
  by (simp_all del: hex_digits.simps)

lemma append_one: "append [a] = Cons a"
  by (rule ext) simp

text \<open>The letters that follow a backslash.\<close>

lemma letters:
  "letter_escape CHR 0x22 = CHR 0x22" "letter_escape backslash = backslash"
  "letter_escape CHR ''a'' = char_of (7 :: nat)" "letter_escape CHR ''b'' = char_of (8 :: nat)"
  "letter_escape CHR ''f'' = char_of (12 :: nat)" "letter_escape CHR ''n'' = char_of (10 :: nat)"
  "letter_escape CHR ''r'' = char_of (13 :: nat)" "letter_escape CHR ''t'' = char_of (9 :: nat)"
  "letter_escape CHR ''v'' = char_of (11 :: nat)"
  by code_simp+

lemma read_low:
  assumes "r < 0x80"
  shows "read_quoted (quote_rune upper r 1 (char_of r # s) @ u) = map_option (apfst (Cons (char_of r))) (read_quoted u)"
proof -
  consider (mark) "r = 0x22 \<or> r = 0x5C" | (letter) "r \<in> {7, 8, 9, 10, 11, 12, 13}"
    | (hex) "r \<noteq> 0x22" "r \<noteq> 0x5C" "r \<notin> {7, 8, 9, 10, 11, 12, 13}" "r < 0x20 \<or> r = 0x7F"
    | (plain) "r \<noteq> 0x22" "r \<noteq> 0x5C" "0x20 \<le> r" "r < 0x7F" using assms by fastforce
  then show ?thesis
  proof cases
    case mark
    then have "quote_rune upper r 1 (char_of r # s) = [backslash, char_of r]" by (auto simp: quote_rune_def)
    moreover have "char_of (0x22 :: nat) = CHR 0x22" "char_of (0x5C :: nat) = backslash" by code_simp+
    then have "char_of r \<in> {CHR 0x22, backslash}" using mark by auto
    ultimately show ?thesis using letters(1,2) by auto
  next
    case letter
    then obtain k where k: "quote_rune upper r 1 (char_of r # s) = [backslash, k]" "k \<in> set ''abfnrtv''" "letter_escape k = char_of r"
      using letters(3-) that by (elim insertE emptyE) (auto simp: quote_rune_def is_print_def)
    have "read_quoted (backslash # k # u) = map_option (apfst (Cons (letter_escape k))) (read_quoted u)"
      by (rule read_letter) (use k(2) in auto)
    then show ?thesis using k(1,3) by simp
  next
    case hex
    then have "quote_rune upper r 1 (char_of r # s) = [backslash, CHR ''x''] @ hex_digits 2 r"
      using assms by (auto simp: quote_rune_def is_print_def)
    then show ?thesis using read_hex(1) [of r u] assms by (simp del: hex_digits.simps)
  next
    case plain
    then have "quote_rune upper r 1 (char_of r # s) = [char_of r]" by (simp add: quote_rune_def is_print_def)
    moreover have "char_of r \<noteq> CHR 0x22" "char_of r \<noteq> backslash"
      using plain(1,2) assms byte_char_of [of r] by (auto simp: byte_def dest!: arg_cong [of _ _ "of_char :: char \<Rightarrow> nat"])
    ultimately show ?thesis by simp
  qed
qed

lemma read_quote_rune:
  assumes "decode_rune (a # s) = (r, w)"
  shows "read_quoted (quote_rune upper r w (a # s) @ u) = map_option (apfst (append (take w (a # s)))) (read_quoted u)"
proof (cases "w = 1 \<and> r = rune_error")
  case True
  then have "quote_rune upper r w (a # s) = [backslash, CHR ''x''] @ hex_digits 2 (byte a)" "take w (a # s) = [a]"
    by (simp_all add: quote_rune_def)
  then show ?thesis using read_hex(1) [OF byte_less, of a u] by (simp only: append_one char_of_byte append.simps)
next
  case False
  note enc = encode_decode [OF assms False] and f = decode_facts [OF assms False]
  consider (low) "w = 1" "r = byte a" "r < 0x80" | (high) "2 \<le> w" "0x80 \<le> r" "r < 16 ^ 8" "\<forall>c \<in> set (take w (a # s)). 0x80 \<le> byte c"
    using f by blast
  then show ?thesis
  proof cases
    case high
    have "read_quoted (take w (a # s) @ u) = map_option (apfst (append (take w (a # s)))) (read_quoted u)"
      using high(4) by (intro read_literal) (auto simp: byte_def)
    moreover have "quote_rune upper r w (a # s) = (if is_print upper r then take w (a # s)
        else if r < 0x10000 then [backslash, CHR ''u''] @ hex_digits 4 r else [backslash, CHR ''U''] @ hex_digits 8 r)"
      using high(1,2) by (simp add: quote_rune_def)
    ultimately show ?thesis using read_hex(2,3) [of r u] high(3) enc by simp
  next
    case low
    then have "a = char_of r" by simp
    with low show ?thesis using read_low [OF low(3), of upper s u] by (simp add: append_one)
  qed
qed

lemma decode_takes:
  assumes "decode_rune (a # s) = (r, w)"
  shows "take w (a # s) @ drop (w - 1) s = a # s"
proof -
  have "1 \<le> w" using assms by (auto simp: decode_rune_def Let_def split: list.splits if_splits)
  then have "drop (w - 1) s = drop w (a # s)" by (cases w) simp_all
  then show ?thesis by (simp only: append_take_drop_id)
qed

text \<open>A quoted string is read back, whatever its bytes are and wherever it stands.\<close>

lemma read_quote_runes: "read_quoted (quote_runes upper s @ CHR 0x22 # u) = Some (s, u)"
proof (induction upper s rule: quote_runes.induct)
  case (2 upper a s)
  obtain r w where d: "decode_rune (a # s) = (r, w)" by fastforce
  have "read_quoted (quote_runes upper (a # s) @ CHR 0x22 # u)
      = map_option (apfst (append (take w (a # s)))) (read_quoted (quote_runes upper (drop (w - 1) s) @ CHR 0x22 # u))"
    using read_quote_rune [OF d] by (simp add: d)
  also have "\<dots> = Some (take w (a # s) @ drop (w - 1) s, u)"
    using "2.IH" [OF d [symmetric]] by simp
  finally show ?case by (simp only: decode_takes [OF d])
qed simp

lemma go_quote_inj: "go_quote upper s @ u = go_quote upper t @ v \<Longrightarrow> s = t \<and> u = v"
proof -
  assume "go_quote upper s @ u = go_quote upper t @ v"
  then have "quote_runes upper s @ CHR 0x22 # u = quote_runes upper t @ CHR 0x22 # v" by (simp add: go_quote_def)
  then have "Some (s, u) = Some (t, v)" by (simp only: read_quote_runes [symmetric, of _ _ upper])
  then show "s = t \<and> u = v" by simp
qed

end
