(* ===== verification/ExampleService.thy ===== *)
theory ExampleService
  imports DynamicResolution RegisterConcurrency GoQuote
begin

text \<open>
  The demonstration program \<open>services/main.go\<close>: a service that registers itself through the library,
  watches the service it depends on, answers \<open>/ping\<close> by calling it and \<open>/whoami\<close> with what it knows. The
  environment is a function from names to values and the HTTP client a function from the URL to the body
  read or the error's text. The program's own logger calls are kept; the sockets of the HTTP server and the
  signals are not modelled.
\<close>

section \<open>The program\<close>

definition getenv :: "env \<Rightarrow> string \<Rightarrow> string \<Rightarrow> string" where
  "getenv env key dflt = (let v = env key in if v \<noteq> [] then v else dflt)"

definition demo_name :: "env \<Rightarrow> string" where
  "demo_name env = getenv env ''SERVICE_NAME'' ''svc-a''"

definition demo_listen :: "env \<Rightarrow> string" where
  "demo_listen env = '':'' @ getenv env ''SD_ADVERTISE_PORT'' (getenv env ''SD_INTERNAL_PORT'' ''8080'')"

definition demo_id :: "string \<Rightarrow> string" where
  "demo_id name = name @ ''-1''"

definition demo_service :: "string \<Rightarrow> service" where
  "demo_service name =
     empty_service\<lparr>sID := demo_id name, sName := name,
       sHealthCheck := Some \<lparr>hcHTTP = [], hcInterval = [], hcTimeout = [], hcPath = [], hcTTL = ''15s''\<rparr>\<rparr>"

text \<open>The running program: its configuration, its manager, its resolver, the goroutine of RegisterAsync, its log.\<close>

record 'r demo =
  dmName :: string
  dmNext :: string
  dmListen :: string
  dmConfig :: config
  dmManager :: "'r manager"
  dmResolver :: "dynamic_resolver option"
  dmThreads :: "reg_thread list"
  dmLog :: "slog_call list"

definition init_failed :: "go_error \<Rightarrow> slog_call" where
  "init_failed e =
     \<lparr>slMethod = ErrorContext, slMsg = ''init service discovery'', slArgs = [AStr ''error'', AErr e]\<rparr>"

definition resolver_failed :: "string \<Rightarrow> go_error \<Rightarrow> slog_call" where
  "resolver_failed nxt e =
     \<lparr>slMethod = ErrorContext, slMsg = ''start dynamic resolver'',
      slArgs = [AStr ''next'', AStr nxt, AStr ''error'', AErr e]\<rparr>"

definition service_up :: "string \<Rightarrow> string \<Rightarrow> string \<Rightarrow> slog_call" where
  "service_up name listen nxt =
     \<lparr>slMethod = InfoContext, slMsg = ''demo service up'',
      slArgs = [AStr ''name'', AStr name, AStr ''listen'', AStr listen, AStr ''next'', AStr nxt]\<rparr>"

text \<open>\<open>main\<close> up to its wait for a signal; the left side of the sum is its last words before exit status 1.\<close>

definition demo_start ::
    "'r registry_ops \<Rightarrow> (config \<Rightarrow> go_error + 'r) \<Rightarrow> logger \<Rightarrow> env \<Rightarrow> slog_call + 'r demo" where
  "demo_start ops mk lg env =
     (let name = demo_name env; nxt = env ''NEXT''; cfg = ConfigFromEnv env in
      case New mk cfg [Some (WithLogger lg)] of
        Inl e \<Rightarrow> Inl (init_failed e)
      | Inr m \<Rightarrow>
          let ths = (if Enabled (mConfig m) then [new_reg_thread (demo_service name) False] else []);
              (dr, ls, mo) =
                (if nxt \<noteq> []
                 then (case WatchResolve ops Background nxt [] [] (Some m) of
                         (Inl e, mo) \<Rightarrow> (None, [resolver_failed nxt e], mo)
                       | (Inr dr, mo) \<Rightarrow> (Some dr, [], mo))
                 else (None, [], Some m))
          in Inr \<lparr>dmName = name, dmNext = nxt, dmListen = demo_listen env, dmConfig = cfg,
                  dmManager = (case mo of None \<Rightarrow> m | Some m1 \<Rightarrow> m1), dmResolver = dr, dmThreads = ths,
                  dmLog = ls @ [service_up name (demo_listen env) nxt]\<rparr>)"

text \<open>
  The handler \<open>/ping\<close>. \<open>NewRequestWithContext\<close> fails where the URL does not parse; its error is dropped and
  \<open>Do\<close> dereferences the nil request.
\<close>

record http_response =
  rsStatus :: int
  rsBody :: string

datatype ping_result = Reply http_response | Panicked

definition http_error :: "string \<Rightarrow> int \<Rightarrow> http_response" where
  "http_error t code = \<lparr>rsStatus = code, rsBody = t @ [CHR 0x0A]\<rparr>"

definition ping :: "(string \<Rightarrow> string + string) \<Rightarrow> 'r demo \<Rightarrow> ping_result" where
  "ping http d =
     (if dmNext d = [] then Reply \<lparr>rsStatus = 200, rsBody = dmName d\<rparr>
      else
        let addr = Address (dmResolver d) in
        if addr = []
        then Reply (http_error (''downstream '' @ dmNext d @ '' not resolved yet'') 503)
        else
          let url = ''http://'' @ addr @ ''/ping'' in
          case url_parse url of
            None \<Rightarrow> Panicked
          | Some _ \<Rightarrow>
              (case http url of
                 Inl t \<Rightarrow> Reply (http_error (''call '' @ dmNext d @ '': '' @ t) 502)
               | Inr body \<Rightarrow> Reply \<lparr>rsStatus = 200, rsBody = dmName d @ '' -> '' @ body\<rparr>))"

text \<open>The handler \<open>/whoami\<close>; \<open>upper\<close> says which runes above Latin-1 \<open>%q\<close> prints.\<close>

definition whoami :: "(nat \<Rightarrow> bool) \<Rightarrow> 'r demo \<Rightarrow> string" where
  "whoami upper d =
     ''service='' @ dmName d @ '' listen='' @ dmListen d @ '' next='' @ go_quote upper (dmNext d)
       @ '' prefer_view='' @ PreferView (dmConfig d) @ '' next_addr='' @ go_quote upper (Address (dmResolver d))
       @ [CHR 0x0A]"

text \<open>The routes of the server, for a path that is already clean.\<close>

definition demo_handle :: "(nat \<Rightarrow> bool) \<Rightarrow> (string \<Rightarrow> string + string) \<Rightarrow> string \<Rightarrow> 'r demo \<Rightarrow> ping_result" where
  "demo_handle upper http path d =
     (if path = ''/ping'' then ping http d
      else if path = ''/whoami'' then Reply \<lparr>rsStatus = 200, rsBody = whoami upper d\<rparr>
      else Reply (http_error ''404 page not found'' 404))"

text \<open>What the goroutine of the server logs when \<open>ListenAndServe\<close> returns; the program runs on.\<close>

definition ErrServerClosed :: go_error where
  "ErrServerClosed = Foreign ''http: Server closed''"

definition server_returns :: "go_error option \<Rightarrow> 'r demo \<Rightarrow> 'r demo" where
  "server_returns err d =
     (case err of
        None \<Rightarrow> d
      | Some e \<Rightarrow>
          if e = ErrServerClosed then d
          else d\<lparr>dmLog := dmLog d @
                 [\<lparr>slMethod = ErrorContext, slMsg = ''http server'', slArgs = [AStr ''error'', AErr e]\<rparr>]\<rparr>)"

text \<open>The shutdown after a signal.\<close>

definition demo_stop :: "'r registry_ops \<Rightarrow> 'r demo \<Rightarrow> 'r demo" where
  "demo_stop ops d =
     (let dr = Stop (dmResolver d);
          m1 = snd (Manager_Deregister ops (WithTimeout Background (5 * second)) (demo_id (dmName d))
                      (Some (dmManager d)));
          m2 = snd (Manager_Close ops m1)
      in d\<lparr>dmManager := (case m2 of None \<Rightarrow> dmManager d | Some m \<Rightarrow> m), dmResolver := dr\<rparr>)"

section \<open>Lemmas\<close>

text \<open>Without \<open>WithWorkload\<close> the workload is the configured one.\<close>

lemma withDefaults_fields [simp]:
  "Workload (withDefaults c) = Workload c" "PreferView (withDefaults c) = PreferView c"
  by (simp_all add: withDefaults_def parseAdvertiseAddrs_def Let_def split: prod.splits)

lemma New_without_workload:
  "New mk c [Some (WithLogger l)] = New mk c [Some (WithLogger l), Some (WithWorkload (Workload c))]"
  by (simp add: New_def Let_def withDefaults_valid WithLogger_def WithWorkload_def split: sum.splits)

lemma demo_started:
  assumes "demo_start ops mk lg env = Inr d"
  obtains m where "New mk (ConfigFromEnv env) [Some (WithLogger lg), Some (WithWorkload (Workload (ConfigFromEnv env)))] = Inr m"
    "mConfig (dmManager d) = mConfig m" "dmName d = demo_name env" "dmNext d = env ''NEXT''" "dmListen d = demo_listen env"
    "env ''NEXT'' = [] \<Longrightarrow> dmResolver d = None \<and> dmManager d = m"
    "\<And>r. env ''NEXT'' \<noteq> [] \<Longrightarrow> fst (WatchResolve ops Background (env ''NEXT'') [] (views []) (Some m)) = Inr r
       \<Longrightarrow> dmResolver d = Some r"
proof -
  let ?c = "ConfigFromEnv env" and ?n = "env ''NEXT''"
  obtain m where m: "New mk ?c [Some (WithLogger lg)] = Inr m" "dmName d = demo_name env" "dmNext d = ?n"
    "dmListen d = demo_listen env"
    using assms by (auto simp: demo_start_def Let_def split: sum.splits prod.splits)
  obtain res mo where w: "WatchResolve ops Background ?n [] [] (Some m) = (res, mo)" by fastforce
  have "mConfig (or_self m mo) = mConfig m"
    using plain_WatchResolve [of ops m Background ?n "[]" "[]"] w by (simp add: plain_step_def)
  then have "mConfig (dmManager d) = mConfig m"
    using assms m(1) w by (auto simp: demo_start_def Let_def or_self_def split: if_splits option.splits sum.splits)
  moreover have "?n = [] \<Longrightarrow> dmResolver d = None \<and> dmManager d = m"
    "\<And>r. ?n \<noteq> [] \<Longrightarrow> fst (WatchResolve ops Background ?n [] (views []) (Some m)) = Inr r \<Longrightarrow> dmResolver d = Some r"
    using assms m(1) w by (auto simp: demo_start_def Let_def views_def)
  ultimately show thesis using that m by (simp add: New_without_workload)
qed

text \<open>What the configuration of a service whose internal address is a plain host advertises.\<close>

lemma split_twice:
  assumes "plain_host h" shows "splitAdvertised h s p = (h, s, p)"
  by (simp add: splitAdvertised_def split_plain_host [OF assms])

lemma parse_internal:
  assumes "plain_host (AdvertiseInternalAddr c)"
  shows "AdvertiseInternalAddr (parseAdvertiseAddrs c) = AdvertiseInternalAddr c"
    "AdvertiseInternalPort (parseAdvertiseAddrs c) = AdvertiseInternalPort c"
  by (simp_all add: parseAdvertiseAddrs_def Let_def split_twice [OF assms] split: prod.splits)

lemma internal_config:
  assumes "plain_host (env ''SD_INTERNAL_ADDRESS'')"
  shows "AdvertiseInternalAddr (withDefaults (ConfigFromEnv env)) = env ''SD_INTERNAL_ADDRESS''"
    "AdvertiseInternalPort (withDefaults (ConfigFromEnv env)) = firstEnvInt env 0 [''SD_INTERNAL_PORT'']"
proof -
  have e: "firstEnv env [] [''SD_INTERNAL_ADDRESS''] = env ''SD_INTERNAL_ADDRESS''" by (simp add: Let_def)
  have c: "AdvertiseInternalAddr (ConfigFromEnv env) = env ''SD_INTERNAL_ADDRESS''"
    "AdvertiseInternalPort (ConfigFromEnv env) = firstEnvInt env 0 [''SD_INTERNAL_PORT'']"
    unfolding ConfigFromEnv_def by (simp_all only: parse_internal assms e config.select_convs)
  show "AdvertiseInternalAddr (withDefaults (ConfigFromEnv env)) = env ''SD_INTERNAL_ADDRESS''"
    "AdvertiseInternalPort (withDefaults (ConfigFromEnv env)) = firstEnvInt env 0 [''SD_INTERNAL_PORT'']"
    unfolding withDefaults_def using c assms parse_internal by simp_all
qed

lemma config_simple:
  "Enabled (ConfigFromEnv env) = anyEnvTrue env [''SD_ENABLED'', ''SERVICE_DISCOVERY_ENABLED'']"
  "PreferView (ConfigFromEnv env) = parsePreferView (env ''SD_PREFER_VIEW'')"
  "Workload (ConfigFromEnv env) = firstEnv env [] [''SD_WORKLOAD'', ''WORKLOAD_ID'']"
  by (simp_all only: ConfigFromEnv_def parseAdvertiseAddrs_def Let_def case_prod_unfold config.simps)

text \<open>A demo service with an internal address is always registered, at that address and port.\<close>

lemma demo_prepares:
  assumes "AdvertiseInternalAddr (mConfig m) \<noteq> []"
  shows "\<exists>svc. fst (prepareRegister (demo_service n) m) = Inr svc"
proof -
  have "isl (ttlWithDefaults ''15s'') = False" by code_simp
  then obtain t where "ttlWithDefaults ''15s'' = Inr t" by (cases "ttlWithDefaults ''15s''") auto
  with assms show ?thesis
    by (auto simp: prepareRegister_def Let_def advertised_ends applyHealthCheck_def tagWorkload_def
        advertised_frame demo_service_def)
qed

lemma internal_endpoint:
  assumes "AdvertiseInternalAddr cfg \<noteq> []" "AdvertiseInternalPort cfg \<noteq> 0"
  shows "\<exists>s. EndpointFor (advertised cfg svc) View_Internal
     = Inr \<lparr>eAddress = AdvertiseInternalAddr cfg, ePort = AdvertiseInternalPort cfg, eScheme = s\<rparr>"
  using assms by (simp add: EndpointFor_def advertised_ends)

text \<open>WatchResolve seeded by a hit.\<close>

lemma watch_resolve_hit:
  assumes "Enabled (mConfig m)" "mRegistry m = Some r" "mPreferView m = v" "v \<noteq> []"
    and "opResolve ops (WithTimeout c (mSeedTimeout m)) n (workloadTag m) r = (Inr svc, r1)"
    and "opWatch ops c n r1 = ((ch, None), r2)" "EndpointFor svc v = Inr ep"
  shows "\<exists>dr. fst (WatchResolve ops c n f (views []) (Some m)) = Inr dr \<and> Address (Some dr) = Endpoint_Addr ep"
proof -
  let ?c = "WithTimeout c (mSeedTimeout m)"
  obtain m1 where cr: "call_resolve ops ?c n (workloadTag m) m = (Inr svc, m1)"
    and m1: "mRegistry m1 = Some r1" "mConfig m1 = mConfig m"
    using assms(2,5) by (simp add: call_resolve_def)
  obtain m2 where d: "resolveEndpointDirect ops ?c n v f m = (Inr (Endpoint_Addr ep), m2)"
    using assms(1,7) cr by (simp add: resolveEndpointDirect_def)
  have m2: "mRegistry m2 = Some r1" "Enabled (mConfig m2)"
    using direct_seed(2,3) [OF assms(1) cr, of v f] d m1 assms(1) by simp_all
  have dv: "default_view m (new_dynamic f []) = (new_dynamic f [])\<lparr>drView := v\<rparr>"
    using assms(3) by (simp add: default_view_def new_dynamic_def)
  have v: "drView ((new_dynamic f [])\<lparr>drView := v\<rparr>) = v" by simp
  show ?thesis
    using watch_start [OF m2(2,1) assms(6), of "dr_store (Endpoint_Addr ep) [] ((new_dynamic f [])\<lparr>drView := v\<rparr>)"]
    by (simp add: WatchResolve_def Let_def views_def dv v assms(1) d case_prod_unfold dr_store_def Address_def)
qed

lemma consul_hit:
  assumes "apHealth api (crClient r) (queryOpts (Some r) c) n tag True (crServer r) = (Inr ([e], i), s)"
  shows "\<exists>r1. consul_Resolve api c n tag (Some r) = (Inr (serviceFromEntry e), Some r1)"
  using assms by (simp add: consul_Resolve_def nextIndex_def Let_def)

lemma backend_fields:
  assumes "consul_backend api dc s cfg = Inr ro"
  shows "\<exists>r. ro = Some r \<and> crServer r = s \<and> \<not> crClosed r"
proof -
  obtain r where r: "newConsulRegistry api dc s cfg = Inr r" "ro = Some r"
    using assms by (auto simp: consul_backend_def split: sum.splits)
  have "crServer r = s \<and> \<not> crClosed r"
    using r(1)
    by (cases "apNewClient api (newTunedConfig dc cfg True)"; cases "apNewClient api (newTunedConfig dc cfg False)")
      (auto simp: newConsulRegistry_def)
  with r(2) show ?thesis by blast
qed

text \<open>The ports a configuration reads are 64-bit integers.\<close>

lemma firstEnvInt_range: "int64_range d \<Longrightarrow> int64_range (firstEnvInt env d ks)"
  by (induction ks) (auto simp: Let_def dest: atoi_range split: option.splits)

lemma parse_port_range: "int64_range (AdvertisePort c) \<Longrightarrow> int64_range (AdvertisePort (parseAdvertiseAddrs c))"
  by (auto simp: parseAdvertiseAddrs_def splitAdvertised_def Let_def dest: atoi_range split: prod.splits option.splits)

lemma config_port_range: "int64_range (AdvertisePort (withDefaults (ConfigFromEnv env)))"
proof -
  have z: "int64_range 0" by (simp add: int64_range_def)
  have "int64_range (AdvertisePort (ConfigFromEnv env))"
    unfolding ConfigFromEnv_def
    by (rule parse_port_range, unfold config.select_convs) (rule firstEnvInt_range [OF z])
  then show ?thesis unfolding withDefaults_def by (intro parse_port_range) simp
qed

lemma internal_port:
  assumes "env ''SD_INTERNAL_PORT'' = itoa n" "int64_range n"
  shows "firstEnvInt env 0 [''SD_INTERNAL_PORT''] = n"
proof -
  have "itoa n \<noteq> []" using atoi_itoa [OF assms(2)] by (auto simp: atoi_def)
  then show ?thesis using assms by (simp add: Let_def atoi_itoa)
qed

lemma ping_url:
  assumes "plain_host h" "0 \<le> n"
  shows "url_parse (''http://'' @ (h @ '':'' @ itoa n) @ ''/ping'') \<noteq> None"
proof -
  have d: "itoa n \<noteq> []" "list_all is_digit (itoa n)" using assms(2) nat_str_digits [of "nat n"] by (auto simp: itoa_def)
  have "list_all lower_alpha ''http''" "plain_path ''/ping''" by code_simp+
  from url_parse_path [OF _ this(1) assms(1) d this(2)] show ?thesis by simp
qed

text \<open>
  The shutdown: the watch of the downstream is cancelled, then the instance leaves the catalog under the id it
  was registered with, then the backend is closed.
\<close>

lemma demo_stop_shuts_down:
  assumes "Enabled (mConfig (dmManager d))" "mRegistry (dmManager d) = Some r" "mCloseErr (dmManager d) = None"
  shows "mRegistry (dmManager (demo_stop ops d)) = Some (after_close ops
       (after_request ops (ReqDeregister (WithTimeout Background (5 * second)) (sID (demo_service (dmName d)))) r))
     \<and> mClosed (dmManager (demo_stop ops d))
     \<and> (\<forall>dr. dmResolver (demo_stop ops d) = Some dr \<longrightarrow> drCancel dr \<in> {None, Some True})"
proof -
  let ?c = "WithTimeout Background (5 * second)" and ?id = "demo_id (dmName d)" and ?m = "dmManager d"
  have dereg: "snd (Manager_Deregister ops ?c ?id (Some ?m))
      = Some (?m\<lparr>mRegistry := Some (after_request ops (ReqDeregister ?c ?id) r)\<rparr>)"
    using assms(1,2) by (simp add: Manager_Deregister_def split: prod.splits)
  have "dmManager (demo_stop ops d) = close_registry ops (close_locked
      (?m\<lparr>mRegistry := Some (after_request ops (ReqDeregister ?c ?id) r)\<rparr>))"
    using close_parts [of "?m\<lparr>mRegistry := Some (after_request ops (ReqDeregister ?c ?id) r)\<rparr>" ops] assms(3)
    unfolding demo_stop_def Let_def dereg by simp
  moreover have "sID (demo_service n) = demo_id n" for n by (simp add: demo_service_def)
  moreover have "dmResolver (demo_stop ops d) = Stop (dmResolver d)" by (simp add: demo_stop_def)
  ultimately show ?thesis
    by (auto simp: close_registry_def close_locked_def stop_resolvers_fields Stop_def split: option.splits)
qed

text \<open>
  What \<open>/whoami\<close> quotes can be read off its line, whatever bytes the environment and the catalog hold: two
  instances with the same name, port and view give the same line only if they have the same downstream
  and the same cached address for it.
\<close>

lemma whoami_tells:
  assumes "whoami upper d = whoami upper d'" "dmName d = dmName d'" "dmListen d = dmListen d'"
    and "PreferView (dmConfig d) = PreferView (dmConfig d')"
  shows "dmNext d = dmNext d' \<and> Address (dmResolver d) = Address (dmResolver d')"
proof -
  have "go_quote upper (dmNext d) @ '' prefer_view='' @ PreferView (dmConfig d) @ '' next_addr=''
        @ go_quote upper (Address (dmResolver d)) @ [CHR 0x0A]
      = go_quote upper (dmNext d') @ '' prefer_view='' @ PreferView (dmConfig d') @ '' next_addr=''
        @ go_quote upper (Address (dmResolver d')) @ [CHR 0x0A]"
    using assms by (simp add: whoami_def)
  from go_quote_inj [OF this] assms(4)
  have "dmNext d = dmNext d'" "go_quote upper (Address (dmResolver d)) @ [CHR 0x0A] = go_quote upper (Address (dmResolver d')) @ [CHR 0x0A]"
    by simp_all
  then show ?thesis using go_quote_inj by blast
qed

end
