(* ===== verification/ExampleNetwork.thy ===== *)
theory ExampleNetwork
  imports ExampleService RegisterInterleavings
begin

text \<open>
  Services of the example program together, through a catalog: one registers itself in the background, its
  first heartbeat makes it pass, and another one, which depends on it, resolves its address and calls it.
\<close>

section \<open>The catalog\<close>

text \<open>
  What an agent answers while it can be reached, over what its catalog lists: the registrations, each with
  whether its check passes. A registration replaces the one with its id; an update of the TTL check of
  a listed service makes it pass; a query for the passing instances of a name, with a tag or without, finds
  the listed ones and changes nothing.
\<close>

definition with_tag :: "string \<Rightarrow> registration \<Rightarrow> bool" where
  "with_tag tag reg \<longleftrightarrow> tag = [] \<or> tag \<in> set (rgTags reg)"

definition catalog_laws :: "'c consul_api \<Rightarrow> ('c \<Rightarrow> (registration \<times> bool) list) \<Rightarrow> bool" where
  "catalog_laws api listed \<longleftrightarrow>
     (\<forall>cl c reg s. \<not> ctxDone c \<longrightarrow> fst (apRegister api cl c reg s) = None
        \<and> (\<exists>b. listed (snd (apRegister api cl c reg s)) = filter (\<lambda>x. rgID (fst x) \<noteq> rgID reg) (listed s) @ [(reg, b)]))
     \<and> (\<forall>cl c i nt s. \<not> ctxDone c \<longrightarrow> i \<in> rgID ` fst ` set (listed s) \<longrightarrow>
          fst (apUpdateTTL api cl c (ttlCheckID i) nt HealthPassing s) = None
          \<and> listed (snd (apUpdateTTL api cl c (ttlCheckID i) nt HealthPassing s))
            = map (\<lambda>(reg, b). (reg, b \<or> rgID reg = i)) (listed s))
     \<and> (\<forall>cl q n tag p s. listed (snd (apHealth api cl q n tag p s)) = listed s)
     \<and> (\<forall>cl q n tag s. \<not> ctxDone (qoCtx q) \<longrightarrow>
          (\<exists>es i. fst (apHealth api cl q n tag True s) = Inr (es, i)
             \<and> list_all2 entry_reflects es
                 (map fst (filter (\<lambda>(reg, b). b \<and> rgName reg = n \<and> with_tag tag reg) (listed s)))))"

lemma catalog_registers:
  assumes "catalog_laws api listed" "\<not> ctxDone c"
  shows "fst (apRegister api cl c reg s) = None"
    "\<exists>b. listed (snd (apRegister api cl c reg s)) = filter (\<lambda>x. rgID (fst x) \<noteq> rgID reg) (listed s) @ [(reg, b)]"
  using assms by (simp_all add: catalog_laws_def)

lemma catalog_passes:
  assumes "catalog_laws api listed" "\<not> ctxDone c" "i \<in> rgID ` fst ` set (listed s)"
  shows "fst (apUpdateTTL api cl c (ttlCheckID i) nt HealthPassing s) = None"
    "listed (snd (apUpdateTTL api cl c (ttlCheckID i) nt HealthPassing s))
      = map (\<lambda>(reg, b). (reg, b \<or> rgID reg = i)) (listed s)"
  using assms by (simp_all add: catalog_laws_def)

lemma catalog_reads: "catalog_laws api listed \<Longrightarrow> listed (snd (apHealth api cl q n tag p s)) = listed s"
  by (simp add: catalog_laws_def)

text \<open>A query that finds one registration.\<close>

lemma catalog_finds:
  assumes "catalog_laws api listed" "\<not> ctxDone (qoCtx q)"
    and "filter (\<lambda>(reg, b). b \<and> rgName reg = n \<and> with_tag tag reg) (listed s) = [(reg, b)]"
  shows "\<exists>e i. fst (apHealth api cl q n tag True s) = Inr ([e], i) \<and> entry_reflects e reg"
proof -
  obtain es i where "fst (apHealth api cl q n tag True s) = Inr (es, i)" "list_all2 entry_reflects es [reg]"
    using assms unfolding catalog_laws_def by (metis (no_types, lifting) fst_conv list.simps(8,9))
  then show ?thesis by (auto simp: list_all2_Cons2)
qed

section \<open>A registration lists the service\<close>

text \<open>Register on a listening agent: the service is listed, and the first heartbeat makes it pass.\<close>

lemma register_lists:
  assumes laws: "catalog_laws api listed" and "\<not> ctxDone c" and "\<not> crClosed r"
    and ttl: "sHealthCheck svc = Some hc" "hcTTL hc \<noteq> []"
  shows "\<exists>r'. consul_Register api c svc (Some r) = (None, Some r')
     \<and> listed (crServer r') = map (\<lambda>(reg, b). (reg, b \<or> rgID reg = sID svc))
         (filter (\<lambda>x. rgID (fst x) \<noteq> sID svc) (listed (crServer r))) @ [(registrationFor svc, True)]"
proof -
  let ?reg = "registrationFor svc"
  have id: "rgID ?reg = sID svc" using consul_codec.write_id by blast
  have hc: "sHealthCheck (normalizeEndpoints svc) = Some hc" using ttl(1) by (simp add: normalizeEndpoints_def)
  obtain s1 where s1: "apRegister api (crClient r) c ?reg (crServer r) = (None, s1)"
    using catalog_registers(1) [OF laws assms(2)] by (metis prod.collapse)
  then obtain b where b: "listed s1 = filter (\<lambda>x. rgID (fst x) \<noteq> sID svc) (listed (crServer r)) @ [(?reg, b)]"
    using catalog_registers(2) [OF laws assms(2), of "crClient r" ?reg "crServer r"] id by auto
  have up: "fst (apUpdateTTL api (crClient r) c' (ttlCheckID (sID svc)) hb_note HealthPassing s1) = None"
    "listed (snd (apUpdateTTL api (crClient r) c' (ttlCheckID (sID svc)) hb_note HealthPassing s1))
      = map (\<lambda>(reg, b). (reg, b \<or> rgID reg = sID svc)) (listed s1)" if "\<not> ctxDone c'" for c'
    using catalog_passes [OF laws that, of "sID svc" s1] b id by auto
  show ?thesis
    using s1 hc ttl(2) assms(3) up b id
    by (simp add: consul_Register_def Let_def startHeartbeat_def heartbeat_pass_def heartbeat_commit_def hb_ctx_def
        cr_log_def cancel_ctx_def case_prod_unfold split: option.split)
qed

section \<open>A service of the example, running\<close>

text \<open>Starting a resolver asks the backend only to resolve and to watch.\<close>

lemma direct_keeps:
  assumes "\<And>c n t r. P r \<Longrightarrow> P (snd (opResolve ops c n t r))" "mRegistry m = Some r" "P r"
  shows "\<exists>r'. mRegistry (snd (resolveEndpointDirect ops c n v f m)) = Some r' \<and> P r'"
    "mWorkload (snd (resolveEndpointDirect ops c n v f m)) = mWorkload m"
  using assms(2,3) assms(1) [OF assms(3), of c n "workloadTag m"]
  by (cases "opResolve ops c n (workloadTag m) r"; auto simp: resolveEndpointDirect_def call_resolve_def log_fallback_def log_degraded_def m_log_def
      split: sum.splits)+

lemma start_keeps:
  assumes "\<And>c n r. P r \<Longrightarrow> P (snd (opWatch ops c n r))" "mRegistry m = Some r" "P r"
  shows "\<exists>r'. mRegistry (snd (startResolverWatch ops c dr n m)) = Some r' \<and> P r'"
    "mWorkload (snd (startResolverWatch ops c dr n m)) = mWorkload m"
  using assms(2,3) assms(1) [OF assms(3), of c n]
  by (cases "opWatch ops c n r"; auto simp: startResolverWatch_def call_watch_def Let_def split: option.splits)+

lemma watch_resolve_keeps:
  assumes "\<And>c n t r. P r \<Longrightarrow> P (snd (opResolve ops c n t r))" "\<And>c n r. P r \<Longrightarrow> P (snd (opWatch ops c n r))"
    and "mRegistry m = Some r" "P r"
  shows "\<exists>m' r'. snd (WatchResolve ops c n f os (Some m)) = Some m' \<and> mWorkload m' = mWorkload m
     \<and> mRegistry m' = Some r' \<and> P r'"
proof -
  let ?dr = "default_view m (apply_resolver_options os (new_dynamic f []))"
    and ?c = "if Enabled (mConfig m) then WithTimeout c (mSeedTimeout m) else c"
  obtain seed m1 where d: "resolveEndpointDirect ops ?c n (drView ?dr) f m = (seed, m1)" by fastforce
  obtain r1 where m1: "mRegistry m1 = Some r1" "P r1" "mWorkload m1 = mWorkload m"
    using direct_keeps [of P ops, OF assms(1,3,4)] d by (metis snd_conv)
  have go: "\<exists>m' r'. snd (startResolverWatch ops c dr n m2) = m' \<and> mWorkload m' = mWorkload m
      \<and> mRegistry m' = Some r' \<and> P r'" if "mRegistry m2 = Some r1" "mWorkload m2 = mWorkload m" for dr m2
    using start_keeps [of P ops, OF assms(2) that(1) m1(2)] that(2) by metis
  show ?thesis
    using d m1 go
    by (auto simp: WatchResolve_def Let_def case_prod_unfold m_log_def split: sum.splits)
qed

lemma demo_running:
  fixes api :: "'c consul_api"
  assumes "demo_start (consul_ops api) (consul_backend api dc s) lg env = Inr p"
    and "env ''SD_ENABLED'' = ''true''" "catalog_laws api listed"
  obtains r where "dmThreads p = [new_reg_thread (demo_service (demo_name env)) False]"
    "Enabled (mConfig (dmManager p))" "\<not> mBaseDone (dmManager p)" "mWorkload (dmManager p) = Workload (ConfigFromEnv env)"
    "mRegistry (dmManager p) = Some (Some r)" "listed (crServer r) = listed s" "\<not> crClosed r"
proof -
  let ?c = "ConfigFromEnv env" and ?n = "env ''NEXT''" and ?ops = "consul_ops api"
  define P :: "'c consul_registry option \<Rightarrow> bool" where "P ro \<longleftrightarrow> (\<exists>r. ro = Some r \<and> listed (crServer r) = listed s \<and> \<not> crClosed r)" for ro
  have en: "Enabled ?c" using assms(2) by (simp add: config_simple(1))
  from demo_started [OF assms(1)] obtain m where m: "New (consul_backend api dc s) ?c
      [Some (WithLogger lg), Some (WithWorkload (Workload ?c))] = Inr m" .
  note f = New_fields [OF m]
  have keep: "P (snd (opResolve ?ops c n t r))" "P (snd (opWatch ?ops c n r))" if "P r" for c n t r
    using that catalog_reads [OF assms(3)]
    unfolding P_def by (auto simp: consul_ops_def consul_Resolve_def consul_Watch_def Let_def case_prod_unfold split: sum.splits)
  obtain r where r: "mRegistry m = Some r" "P r"
    unfolding P_def using f(11) [OF en] backend_fields by metis
  obtain m' r' where w: "snd (WatchResolve ?ops Background ?n [] [] (Some m)) = Some m'" "mWorkload m' = mWorkload m"
    "mRegistry m' = Some r'" "P r'"
  proof -
    have "\<exists>m' r'. snd (WatchResolve ?ops Background ?n [] [] (Some m)) = Some m' \<and> mWorkload m' = mWorkload m
        \<and> mRegistry m' = Some r' \<and> P r'"
      by (rule watch_resolve_keeps [of P]) (use keep r in auto)
    then show thesis using that by blast
  qed
  have core: "mBaseDone m' = mBaseDone m" "mConfig m' = mConfig m"
    using plain_WatchResolve [of ?ops m Background ?n "[]" "[]"] w(1) by (simp_all add: plain_step_def or_self_def mgr_core_def)
  have p: "dmThreads p = [new_reg_thread (demo_service (demo_name env)) False]" "dmManager p \<in> {m, m'}"
    using assms(1) m w(1) en f(6)
    by (auto simp: demo_start_def Let_def New_without_workload case_prod_unfold split: if_splits sum.splits)
  obtain ro where ro: "mRegistry (dmManager p) = Some ro" "P ro" using p(2) w(3,4) r by auto
  then obtain r1 where "ro = Some r1" "listed (crServer r1) = listed s" "\<not> crClosed r1" unfolding P_def by blast
  with ro(1) p w(2) core f(6,7,10) en show thesis by (intro that [of r1]) auto
qed

text \<open>
  A goroutine of RegisterAsync on its own, its first call of Register succeeding: it tests the base context,
  calls, and has ended.
\<close>

lemma async_run:
  assumes "\<not> mBaseDone m" "Manager_Register ops Background svc (Some m) = (None, Some m')"
  defines "s0 \<equiv> \<lparr>ryMgr = m, ryThreads = [new_reg_thread svc False]\<rparr>"
  shows "\<exists>u. reach (threads_step ops) s0 u \<and> (\<nexists>v. threads_step ops u v)"
    "reach (threads_step ops) s0 u \<Longrightarrow> (\<nexists>v. threads_step ops u v) \<Longrightarrow>
       ryMgr u = m' \<and> map rtPc (ryThreads u) = [RegEnd Registered]"
    "f 0 = s0 \<Longrightarrow> \<exists>i. \<not> threads_step ops (f i) (f (Suc i))"
proof -
  let ?t = "new_reg_thread svc False" and ?step = "threads_step ops"
  let ?t1 = "?t\<lparr>rtPc := RegCall 0\<rparr>" and ?t2 = "?t\<lparr>rtPc := RegEnd Registered, rtTries := [None]\<rparr>"
  let ?s1 = "\<lparr>ryMgr = m, ryThreads = [?t1]\<rparr>" and ?s2 = "\<lparr>ryMgr = m', ryThreads = [?t2]\<rparr>"
  have reg: "Manager_Register ops (reg_ctx ?t1) (rtSvc ?t1) (Some m) = (None, Some m')"
    using assms(2) by (simp add: reg_ctx_def new_reg_thread_def Background_def)
  have only: "reg_move ops (?t, m) (t, q) \<Longrightarrow> t = ?t1 \<and> q = m" "reg_move ops (?t1, m) (t, q) \<Longrightarrow> t = ?t2 \<and> q = m'"
    "\<not> reg_move ops (?t2, m') (t, q)" for t q
    using reg assms(1) by (auto simp: new_reg_thread_def log_registered_def elim!: reg_moveE)
  have goes: "reg_move ops (?t, m) (?t1, m)" "reg_move ops (?t1, m) (?t2, m')"
    using reg_move.test_open [of ?t 0 m ops] call_returns [of ?t1 0 ops m None m'] reg assms(1)
    by (simp_all add: new_reg_thread_def after_attempt_def log_registered_def)
  have steps: "?step s0 ?s1" "?step ?s1 ?s2"
    using threads_step.intros [of 0 s0 ops ?t1 m] threads_step.intros [of 0 ?s1 ops ?t2 m'] goes by (simp_all add: s0_def)
  have succ: "?step s0 u \<Longrightarrow> u = ?s1" "?step ?s1 u \<Longrightarrow> u = ?s2" "\<not> ?step ?s2 u" for u
    using only by (auto simp: s0_def elim!: threads_step.cases)
  show "\<exists>u. reach ?step s0 u \<and> (\<nexists>v. ?step u v)"
    using reach.step [where step = ?step, OF reach.step [where step = ?step, OF reach.refl steps(1)] steps(2)] succ(3) by blast
  show "\<exists>i. \<not> ?step (f i) (f (Suc i))" if "f 0 = s0"
  proof (rule ccontr)
    assume "\<nexists>i. \<not> ?step (f i) (f (Suc i))"
    then have run: "?step (f i) (f (Suc i))" for i by blast
    have "f 1 = ?s1" using run [of 0] that succ(1) by simp
    then have "f 2 = ?s2" using run [of 1] succ(2) by (simp add: numeral_2_eq_2)
    then show False using run [of 2] succ(3) by simp
  qed
  assume "reach ?step s0 u" "\<nexists>v. ?step u v"
  have "s = s0 \<Longrightarrow> w \<in> {s0, ?s1, ?s2}" if "reach ?step s w" for s w
    using that by (induction rule: reach.induct) (use succ in auto)
  then have "u \<in> {s0, ?s1, ?s2}" using \<open>reach ?step s0 u\<close> by blast
  then show "ryMgr u = m' \<and> map rtPc (ryThreads u) = [RegEnd Registered]" using steps \<open>\<nexists>v. ?step u v\<close> by auto
qed

text \<open>What the service of the example is prepared to: its name, its tag, a health check with a TTL.\<close>

lemma demo_prepared:
  assumes "fst (prepareRegister (demo_service n) m) = Inr svc"
  shows "\<exists>hc. sHealthCheck svc = Some hc \<and> hcTTL hc \<noteq> []" "sName svc = n" "sID svc = demo_id n"
    "sTags svc = (if mWorkload m = [] then [] else [''workload='' @ mWorkload m])"
proof -
  let ?a = "tagWorkload (mWorkload m) (advertised (mConfig m) (demo_service n))"
  have app: "fst (applyHealthCheck ?a m) = Inr svc" using prepared_shape [OF assms] by blast
  obtain h where svc: "svc = ?a\<lparr>sHealthCheck := h\<rparr>" using applyHealthCheck_frame [OF app] by blast
  show "sName svc = n" "sID svc = demo_id n" "sTags svc = (if mWorkload m = [] then [] else [''workload='' @ mWorkload m])"
    by (simp_all add: svc tagWorkload_def advertised_frame demo_service_def empty_service_def)
  have "(case ttlWithDefaults ''15s'' of Inl _ \<Rightarrow> False | Inr t \<Rightarrow> t \<noteq> [])" by code_simp
  then show "\<exists>hc. sHealthCheck svc = Some hc \<and> hcTTL hc \<noteq> []"
    using app
    by (auto simp: applyHealthCheck_def tagWorkload_def advertised_frame demo_service_def split: sum.splits if_splits)
qed

text \<open>
  The goroutine that registers the instance has come to its end, with nobody else at the manager. The catalog
  then lists the instance, alone of its name, as passing.
\<close>

definition async_ended :: "'c consul_api \<Rightarrow> 'c consul_registry option demo \<Rightarrow> 'c consul_registry option reg_sys \<Rightarrow> bool" where
  "async_ended api p u \<longleftrightarrow>
     reach (threads_step (consul_ops api)) \<lparr>ryMgr = dmManager p, ryThreads = dmThreads p\<rparr> u
     \<and> (\<nexists>v. threads_step (consul_ops api) u v)"

lemma demo_registers:
  assumes up: "demo_start (consul_ops api) (consul_backend api dc s) lg env = Inr p" "env ''SD_ENABLED'' = ''true''"
    and laws: "catalog_laws api listed"
    and prep: "fst (prepareRegister (demo_service (demo_name env)) (dmManager p)) = Inr svc"
    and alone: "\<forall>x \<in> set (listed s). rgName (fst x) = demo_name env \<longrightarrow> rgID (fst x) = demo_id (demo_name env)"
  shows "\<exists>u. async_ended api p u"
    "f 0 = \<lparr>ryMgr = dmManager p, ryThreads = dmThreads p\<rparr> \<Longrightarrow> \<exists>i. \<not> threads_step (consul_ops api) (f i) (f (Suc i))"
    "async_ended api p u \<Longrightarrow> map rtPc (ryThreads u) = [RegEnd Registered]
       \<and> (\<exists>r. mRegistry (ryMgr u) = Some (Some r) \<and>
            (\<forall>tag \<in> {[], workloadTag (dmManager p)}.
               filter (\<lambda>(reg, b). b \<and> rgName reg = demo_name env \<and> with_tag tag reg) (listed (crServer r))
                 = [(registrationFor svc, True)]))"
proof -
  let ?n = "demo_name env" and ?ops = "consul_ops api"
  obtain r where p: "dmThreads p = [new_reg_thread (demo_service ?n) False]" "Enabled (mConfig (dmManager p))"
    "\<not> mBaseDone (dmManager p)" "mRegistry (dmManager p) = Some (Some r)" "listed (crServer r) = listed s" "\<not> crClosed r"
    by (rule demo_running [OF up laws]) (rule that)
  note sv = demo_prepared [OF prep]
  obtain hc where hc: "sHealthCheck svc = Some hc" "hcTTL hc \<noteq> []" using sv(1) by blast
  have bg: "\<not> ctxDone Background" by (simp add: Background_def)
  obtain r' where r': "consul_Register api Background svc (Some r) = (None, Some r')"
    "listed (crServer r') = map (\<lambda>(reg, b). (reg, b \<or> rgID reg = sID svc))
         (filter (\<lambda>x. rgID (fst x) \<noteq> sID svc) (listed s)) @ [(registrationFor svc, True)]"
    using register_lists [OF laws bg p(6) hc] p(5) by auto
  obtain m' where m': "Manager_Register ?ops Background (demo_service ?n) (Some (dmManager p)) = (None, Some m')"
    "mRegistry m' = Some (Some r')"
    using register_reaches [OF p(2,4) prep, of ?ops Background] r'(1) by (auto simp: consul_ops_def)
  note run = async_run [OF p(3) m'(1), folded p(1)]
  show "\<exists>u. async_ended api p u" using run(1) by (simp add: async_ended_def)
  show "f 0 = \<lparr>ryMgr = dmManager p, ryThreads = dmThreads p\<rparr> \<Longrightarrow> \<exists>i. \<not> threads_step ?ops (f i) (f (Suc i))"
    by (rule run(3))
  have tag: "with_tag t (registrationFor svc)" if "t \<in> {[], workloadTag (dmManager p)}" for t
    using that sv(4) consul_codec.write_id [of svc] by (auto simp: with_tag_def workloadTag_def)
  have none: "filter (\<lambda>(reg, b). b \<and> rgName reg = ?n \<and> with_tag t reg)
      (map (\<lambda>(reg, b). (reg, b \<or> rgID reg = sID svc)) (filter (\<lambda>x. rgID (fst x) \<noteq> sID svc) (listed s))) = []" for t
    using alone sv(3) by (auto simp: filter_empty_conv)
  assume "async_ended api p u"
  then have "ryMgr u = m'" "map rtPc (ryThreads u) = [RegEnd Registered]" using run(2) by (simp_all add: async_ended_def)
  then show "map rtPc (ryThreads u) = [RegEnd Registered] \<and> (\<exists>r. mRegistry (ryMgr u) = Some (Some r) \<and>
      (\<forall>tag \<in> {[], workloadTag (dmManager p)}.
         filter (\<lambda>(reg, b). b \<and> rgName reg = ?n \<and> with_tag tag reg) (listed (crServer r)) = [(registrationFor svc, True)]))"
    using m'(2) r'(2) none tag sv(2) consul_codec.write_id [of svc] by simp
qed

text \<open>The name a service is prepared with, for readers that query by it.\<close>

lemma prepared_name:
  assumes "fst (prepareRegister s m) = Inr svc" shows "rgName (registrationFor svc) = sName s"
proof -
  let ?a = "tagWorkload (mWorkload m) (advertised (mConfig m) s)"
  have app: "fst (applyHealthCheck ?a m) = Inr svc" using prepared_shape [OF assms] by blast
  obtain h where "svc = ?a\<lparr>sHealthCheck := h\<rparr>" using applyHealthCheck_frame [OF app] by blast
  then show ?thesis using consul_codec.write_id [of svc] by (simp add: tagWorkload_def advertised_frame)
qed

section \<open>One service reaches the next\<close>

text \<open>What a reader of the catalog gets for a listed instance whose internal address is a plain host.\<close>

lemma provider_endpoint:
  assumes up: "demo_start ops mk lg env = Inr p"
    and h: "plain_host (env ''SD_INTERNAL_ADDRESS'')" and port: "env ''SD_INTERNAL_PORT'' = itoa n" "0 < n" "n < 2 ^ 63"
    and adv: "env ''SD_ADVERTISE_PORT'' \<in> {[], itoa n}"
  shows "\<exists>svc sch. fst (prepareRegister (demo_service (dmName p)) (dmManager p)) = Inr svc
       \<and> (\<forall>e. entry_reflects e (registrationFor svc) \<longrightarrow> EndpointFor (serviceFromEntry e) View_Internal
            = Inr \<lparr>eAddress = env ''SD_INTERNAL_ADDRESS'', ePort = n, eScheme = sch\<rparr>)"
    "dmListen p = '':'' @ itoa n" "dmName p = demo_name env" "dmName p \<noteq> []"
proof -
  let ?h = "env ''SD_INTERNAL_ADDRESS''" and ?svc0 = "demo_service (dmName p)" and ?c = "mConfig (dmManager p)"
  have n: "int64_range n" using port(2,3) by (simp add: int64_range_def)
  have nn: "itoa n \<noteq> []" using atoi_itoa [OF n] by (auto simp: atoi_def)
  from demo_started [OF up] obtain m where m: "New mk (ConfigFromEnv env)
      [Some (WithLogger lg), Some (WithWorkload (Workload (ConfigFromEnv env)))] = Inr m"
    "?c = mConfig m" "dmListen p = demo_listen env" "dmName p = demo_name env" .
  show "dmListen p = '':'' @ itoa n" using port(1) adv nn by (auto simp: m(3) demo_listen_def getenv_def Let_def)
  show "dmName p = demo_name env" by (rule m(4))
  show "dmName p \<noteq> []" by (simp add: m(4) demo_name_def getenv_def Let_def)
  have c: "?c = withDefaults (ConfigFromEnv env)" using m(2) New_fields(6) [OF m(1)] by simp
  have cfg: "AdvertiseInternalAddr ?c = ?h" "AdvertiseInternalPort ?c = n"
    using internal_config [of env, OF h] internal_port [of env, OF port(1) n] by (simp_all only: c)
  have ne: "?h \<noteq> []" using h by (simp add: plain_host_def)
  obtain svc where svc: "fst (prepareRegister ?svc0 (dmManager p)) = Inr svc"
    using demo_prepares [of "dmManager p" "dmName p"] cfg(1) ne by auto
  have "int64_range (sPort ?svc0)" by (simp add: demo_service_def empty_service_def int64_range_def)
  moreover have "int64_range (AdvertisePort ?c)" "int64_range (AdvertiseInternalPort ?c)"
    using config_port_range n by (simp_all add: c cfg(2) [unfolded c])
  ultimately show "\<exists>svc sch. fst (prepareRegister ?svc0 (dmManager p)) = Inr svc
       \<and> (\<forall>e. entry_reflects e (registrationFor svc) \<longrightarrow> EndpointFor (serviceFromEntry e) View_Internal
            = Inr \<lparr>eAddress = ?h, ePort = n, eScheme = sch\<rparr>)"
    using prepared_read [OF svc] svc internal_endpoint [of ?c ?svc0] cfg ne port(2) by auto
qed

text \<open>The tag an instance reads under, and the tag it is registered with, if it has a workload.\<close>

definition demo_tag :: "env \<Rightarrow> string" where
  "demo_tag env = (let w = Workload (ConfigFromEnv env) in if w = [] then [] else ''workload='' @ w)"

text \<open>An instance that starts where the catalog lists one passing instance of the service it depends on.\<close>

lemma consumer_address:
  assumes down: "demo_start (consul_ops api) (consul_backend api dc s) lg env = Inr d"
    and env: "env ''SD_ENABLED'' = ''true''" "env ''SD_PREFER_VIEW'' = ''internal''" "env ''NEXT'' \<noteq> []"
    and laws: "catalog_laws api listed"
    and lists: "filter (\<lambda>(reg, b). b \<and> rgName reg = env ''NEXT'' \<and> with_tag (demo_tag env) reg) (listed s) = [(reg, True)]"
    and ep: "\<And>e. entry_reflects e reg \<Longrightarrow> EndpointFor (serviceFromEntry e) View_Internal = Inr ep"
  shows "Address (dmResolver d) = Endpoint_Addr ep" "dmNext d = env ''NEXT''"
proof -
  let ?n = "env ''NEXT''"
  from demo_started [OF down] obtain m where m: "New (consul_backend api dc s) (ConfigFromEnv env)
      [Some (WithLogger lg), Some (WithWorkload (Workload (ConfigFromEnv env)))] = Inr m"
    "dmNext d = ?n"
    "\<And>r. ?n \<noteq> [] \<Longrightarrow> fst (WatchResolve (consul_ops api) Background ?n [] (views []) (Some m)) = Inr r
       \<Longrightarrow> dmResolver d = Some r" by metis
  show "dmNext d = ?n" by (rule m(2))
  note f = New_fields [OF m(1)]
  let ?c = "WithTimeout Background (mSeedTimeout m)"
  have en: "Enabled (ConfigFromEnv env)" using env(1) by (simp add: config_simple(1))
  obtain r where r: "mRegistry m = Some (Some r)" "crServer r = s" using f(11) [OF en] backend_fields by metis
  have "parsePreferView ''internal'' = View_Internal" by code_simp
  then have view: "mPreferView m = View_Internal" using f(9) env(2) by (simp add: config_simple(2))
  have "0 < mSeedTimeout m" using defaults_are_usable f(8) by simp
  then have "\<not> ctxDone (qoCtx (queryOpts (Some r) ?c))" by (simp add: queryOpts_def WithTimeout_def Background_def)
  moreover have tag: "workloadTag m = demo_tag env" by (simp add: workloadTag_def demo_tag_def f(7))
  ultimately obtain e i where e: "fst (apHealth api (crClient r) (queryOpts (Some r) ?c) ?n (workloadTag m) True s) = Inr ([e], i)"
    "entry_reflects e reg" using catalog_finds [OF laws _ lists, of _ "crClient r"] by metis
  obtain r1 where hit: "consul_Resolve api ?c ?n (workloadTag m) (Some r) = (Inr (serviceFromEntry e), Some r1)"
    using consul_hit [of api r ?c ?n "workloadTag m" e i] e(1) r(2) by (metis prod.collapse)
  let ?r2 = "Some (r1\<lparr>crWatches := crWatches r1 @ [?n]\<rparr>)"
  have en': "Enabled (mConfig m)" using en f(6) by simp
  have res: "opResolve (consul_ops api) ?c ?n (workloadTag m) (Some r) = (Inr (serviceFromEntry e), Some r1)"
    by (simp add: consul_ops_def hit)
  have watch: "opWatch (consul_ops api) Background ?n (Some r1) = ((LiveChan, None), ?r2)"
    by (simp add: consul_ops_def consul_Watch_def)
  obtain dr where "fst (WatchResolve (consul_ops api) Background ?n [] (views []) (Some m)) = Inr dr"
    "Address (Some dr) = Endpoint_Addr ep"
    using watch_resolve_hit [OF en' r(1) view _ res watch ep [OF e(2)]] by auto
  then show "Address (dmResolver d) = Endpoint_Addr ep" using m(3) env(3) by simp
qed

lemma ping_at:
  assumes "Address (dmResolver d) = h @ '':'' @ itoa n" "dmNext d \<noteq> []" "plain_host h" "0 < n"
  shows "ping http d = (case http (''http://'' @ h @ '':'' @ itoa n @ ''/ping'') of
      Inl t \<Rightarrow> Reply (http_error (''call '' @ dmNext d @ '': '' @ t) 502)
    | Inr body \<Rightarrow> Reply \<lparr>rsStatus = 200, rsBody = dmName d @ '' -> '' @ body\<rparr>)"
proof -
  have "url_parse (''http://'' @ (h @ '':'' @ itoa n) @ ''/ping'') \<noteq> None" using ping_url [OF assms(3)] assms(4) by simp
  then have "ping http d = (case http (''http://'' @ (h @ '':'' @ itoa n) @ ''/ping'') of
      Inl t \<Rightarrow> Reply (http_error (''call '' @ dmNext d @ '': '' @ t) 502)
    | Inr body \<Rightarrow> Reply \<lparr>rsStatus = 200, rsBody = dmName d @ '' -> '' @ body\<rparr>)"
    using assms(2) by (auto simp only: ping_def assms(1) Let_def split: option.splits) auto
  then show ?thesis by simp
qed

text \<open>
  C3. The composition the library is for: an enabled instance of the example program whose environment
  names an internal address (a plain host) and port, and no other advertised port, registers itself through its
  RegisterAsync goroutine, which ends, and ends as registered, under every schedule of its steps; an instance
  started after that, which prefers the internal view and depends on the first, then calls exactly the
  address and port the first one listens on, and relays what it gets. Its knowledge of the first comes from the
  catalog alone. The catalog is one that keeps \<open>catalog_laws\<close> (the agent can be reached, a registration is
  listed, an update of its TTL check makes it pass, queries by name and tag find what is listed and passing);
  it lists no other instance of the first one's name; nothing but the goroutine acts on the first one's manager
  while it registers; and the reader's workload is the first one's, or none.
\<close>

theorem demo_reaches_downstream:
  assumes "demo_start (consul_ops api) (consul_backend api dc s) lg env = Inr p" and "env ''SD_ENABLED'' = ''true''"
    and "plain_host (env ''SD_INTERNAL_ADDRESS'')" "env ''SD_INTERNAL_PORT'' = itoa n" "0 < n" "n < 2 ^ 63"
    and "env ''SD_ADVERTISE_PORT'' \<in> {[], itoa n}"
    and "catalog_laws api listed"
    and "\<forall>x \<in> set (listed s). rgName (fst x) = dmName p \<longrightarrow> rgID (fst x) = demo_id (dmName p)"
    and "env' ''SD_ENABLED'' = ''true''" "env' ''SD_PREFER_VIEW'' = ''internal''" "env' ''NEXT'' = dmName p"
    and "Workload (ConfigFromEnv env') \<in> {[], Workload (ConfigFromEnv env)}"
  shows "(\<exists>u. async_ended api p u)
     \<and> (\<forall>f. f 0 = \<lparr>ryMgr = dmManager p, ryThreads = dmThreads p\<rparr> \<longrightarrow>
          (\<exists>i. \<not> threads_step (consul_ops api) (f i) (f (Suc i))))
     \<and> (\<forall>u. async_ended api p u \<longrightarrow> map rtPc (ryThreads u) = [RegEnd Registered]
          \<and> (\<exists>r. mRegistry (ryMgr u) = Some (Some r)
               \<and> (\<forall>dc' lg' d http. demo_start (consul_ops api) (consul_backend api dc' (crServer r)) lg' env' = Inr d \<longrightarrow>
                    Address (dmResolver d) = env ''SD_INTERNAL_ADDRESS'' @ dmListen p
                    \<and> ping http d =
                        (case http (''http://'' @ env ''SD_INTERNAL_ADDRESS'' @ dmListen p @ ''/ping'') of
                           Inl t \<Rightarrow> Reply (http_error (''call '' @ dmName p @ '': '' @ t) 502)
                         | Inr body \<Rightarrow> Reply \<lparr>rsStatus = 200, rsBody = dmName d @ '' -> '' @ body\<rparr>))))"
proof -
  let ?h = "env ''SD_INTERNAL_ADDRESS''"
  note p = provider_endpoint [of _ _ _ env, OF assms(1,3-7)]
  obtain svc sch where svc: "fst (prepareRegister (demo_service (demo_name env)) (dmManager p)) = Inr svc"
    and ep: "\<And>e. entry_reflects e (registrationFor svc) \<Longrightarrow>
      EndpointFor (serviceFromEntry e) View_Internal = Inr \<lparr>eAddress = ?h, ePort = n, eScheme = sch\<rparr>"
    using p(1,3) by auto
  note reg = demo_registers [OF assms(1,2,8) svc assms(9) [unfolded p(3)]]
  obtain "mWorkload (dmManager p) = Workload (ConfigFromEnv env)" by (rule demo_running [OF assms(1,2,8)])
  then have tag: "demo_tag env' \<in> {[], workloadTag (dmManager p)}"
    using assms(13) by (auto simp: demo_tag_def workloadTag_def Let_def)
  have nxt: "env' ''NEXT'' \<noteq> []" using p(4) assms(12) by simp
  have reach: "Address (dmResolver d) = ?h @ dmListen p \<and> ping http d =
      (case http (''http://'' @ ?h @ dmListen p @ ''/ping'') of
         Inl t \<Rightarrow> Reply (http_error (''call '' @ dmName p @ '': '' @ t) 502)
       | Inr body \<Rightarrow> Reply \<lparr>rsStatus = 200, rsBody = dmName d @ '' -> '' @ body\<rparr>)"
    if down: "demo_start (consul_ops api) (consul_backend api dc' s') lg' env' = Inr d"
    and lists: "filter (\<lambda>(reg, b). b \<and> rgName reg = demo_name env \<and> with_tag (demo_tag env') reg) (listed s')
        = [(registrationFor svc, True)]" for dc' s' lg' d http
  proof -
    note c = consumer_address [of _ _ _ _ env', OF down assms(10,11) nxt assms(8) lists [folded p(3) assms(12)] ep]
    have "Address (dmResolver d) = ?h @ '':'' @ itoa n" using c(1) by (simp add: Endpoint_Addr_def host_port_def)
    moreover have "dmNext d = dmName p" "dmNext d \<noteq> []" using c(2) assms(12) nxt by simp_all
    ultimately show ?thesis using ping_at [of d, OF _ _ assms(3,5)] p(2) by (simp cong: sum.case_cong)
  qed
  have "\<exists>r. mRegistry (ryMgr u) = Some (Some r) \<and> (\<forall>dc' lg' d http.
        demo_start (consul_ops api) (consul_backend api dc' (crServer r)) lg' env' = Inr d \<longrightarrow>
        Address (dmResolver d) = ?h @ dmListen p \<and> ping http d =
          (case http (''http://'' @ ?h @ dmListen p @ ''/ping'') of
             Inl t \<Rightarrow> Reply (http_error (''call '' @ dmName p @ '': '' @ t) 502)
           | Inr body \<Rightarrow> Reply \<lparr>rsStatus = 200, rsBody = dmName d @ '' -> '' @ body\<rparr>))"
    if "async_ended api p u" for u
    using reg(3) [OF that] reach tag by blast
  with reg show ?thesis by blast
qed

text \<open>An agent with such a catalog, and the environments of \<open>docker-compose.yml\<close>.\<close>

definition catalog_api :: "(registration \<times> bool) list consul_api" where
  "catalog_api =
     \<lparr>apNewClient = \<lambda>_. None,
      apRegister = \<lambda>_ c reg l.
        if ctxDone c then (Some ''context canceled'', l)
        else (None, filter (\<lambda>x. rgID (fst x) \<noteq> rgID reg) l @ [(reg, False)]),
      apDeregister = \<lambda>_ c i l.
        if ctxDone c then (Some ''context canceled'', l) else (None, filter (\<lambda>x. rgID (fst x) \<noteq> i) l),
      apUpdateTTL = \<lambda>_ c check _ status l.
        if ctxDone c then (Some ''context canceled'', l)
        else if check \<notin> set (map (ttlCheckID \<circ> rgID \<circ> fst) l) then (Some ''Unknown check'', l)
        else (None, map (\<lambda>(reg, b). (reg, if ttlCheckID (rgID reg) = check then status = HealthPassing else b)) l),
      apHealth = \<lambda>_ q name tag passing l.
        if ctxDone (qoCtx q) then (Inl ''context canceled'', l)
        else (Inr (map (entry_of \<circ> fst)
                     (filter (\<lambda>(reg, b). (b \<or> \<not> passing) \<and> rgName reg = name \<and> with_tag tag reg) l), 1), l)\<rparr>"

lemma catalog_api_laws: "catalog_laws catalog_api (\<lambda>l. l)"
  by (auto simp: catalog_laws_def catalog_api_def ttlCheckID_def list_all2_map1 list_all2_map2 list_all2_same
      entry_of_reflects case_prod_unfold)

definition env_of :: "(string \<times> string) list \<Rightarrow> env" where
  "env_of kvs k = (case map_of kvs k of None \<Rightarrow> [] | Some v \<Rightarrow> v)"

definition compose_b :: env where
  "compose_b = env_of
     [(''SERVICE_NAME'', ''svc-b''), (''NEXT'', ''svc-c''), (''SD_ENABLED'', ''true''),
      (''SD_ADDRESS'', ''consul:8500''), (''SD_EXTERNAL_ADDRESS'', ''svc-b''), (''SD_EXTERNAL_PORT'', ''8082''),
      (''SD_INTERNAL_ADDRESS'', ''svc-b''), (''SD_INTERNAL_PORT'', ''8082''), (''SD_PREFER_VIEW'', ''internal'')]"

definition compose_c :: env where
  "compose_c = env_of
     [(''SERVICE_NAME'', ''svc-c''), (''SD_ENABLED'', ''true''), (''SD_ADDRESS'', ''consul:8500''),
      (''SD_INTERNAL_ADDRESS'', ''svc-c''), (''SD_INTERNAL_PORT'', ''8083'')]"

lemma compose_values:
  "compose_c ''SD_INTERNAL_ADDRESS'' = ''svc-c''" "compose_c ''SD_INTERNAL_PORT'' = itoa 8083"
  "compose_c ''SD_ADVERTISE_PORT'' = []" "compose_c ''NEXT'' = []" "demo_name compose_c = ''svc-c''"
  "compose_b ''SD_ENABLED'' = ''true''" "compose_b ''SD_PREFER_VIEW'' = ''internal''" "compose_b ''NEXT'' = ''svc-c''"
  "demo_name compose_b = ''svc-b''" "demo_listen compose_c = '':8083''" "plain_host ''svc-c''"
  "compose_c ''SD_ENABLED'' = ''true''" "firstEnv compose_b [] [''SD_WORKLOAD'', ''WORKLOAD_ID''] = []"
  by code_simp+

lemma New_starts: "mk (withDefaults c) = Inr r \<Longrightarrow> \<exists>m. New mk c [Some (WithLogger l)] = Inr m"
  by (simp add: New_def Let_def withDefaults_valid WithLogger_def split: option.splits)

lemma demo_starts:
  assumes "mk (withDefaults (ConfigFromEnv env)) = Inr r"
  shows "\<exists>d. demo_start ops mk l env = Inr d \<and> dmName d = demo_name env \<and> dmNext d = env ''NEXT''
     \<and> dmListen d = demo_listen env"
proof -
  obtain m where "New mk (ConfigFromEnv env) [Some (WithLogger l)] = Inr m" using New_starts [of mk, OF assms] by blast
  then show ?thesis by (simp add: demo_start_def Let_def case_prod_unfold)
qed

lemma catalog_starts:
  "\<exists>d. demo_start (consul_ops catalog_api) (consul_backend catalog_api default_api_config s) l env = Inr d
     \<and> dmName d = demo_name env \<and> dmNext d = env ''NEXT'' \<and> dmListen d = demo_listen env"
proof -
  have "\<exists>r. consul_backend catalog_api default_api_config s (withDefaults (ConfigFromEnv env)) = Inr r"
    by (simp add: consul_backend_def newConsulRegistry_def catalog_api_def)
  then obtain r where "consul_backend catalog_api default_api_config s (withDefaults (ConfigFromEnv env)) = Inr r" ..
  then show ?thesis by (rule demo_starts)
qed

theorem demo_reaches_downstream_witness:
  "\<exists>p u r d. demo_start (consul_ops catalog_api) (consul_backend catalog_api default_api_config []) NilInterface compose_c = Inr p
     \<and> async_ended catalog_api p u \<and> mRegistry (ryMgr u) = Some (Some r)
     \<and> demo_start (consul_ops catalog_api) (consul_backend catalog_api default_api_config (crServer r)) NilInterface compose_b = Inr d
     \<and> ping (\<lambda>url. if url = ''http://svc-c:8083/ping'' then Inr ''svc-c'' else Inl ''refused'') d
       = Reply \<lparr>rsStatus = 200, rsBody = ''svc-b -> svc-c''\<rparr>"
proof -
  note cv = compose_values
  let ?http = "\<lambda>url. if url = ''http://svc-c:8083/ping'' then Inr ''svc-c'' else Inl ''refused''"
  obtain p where p: "demo_start (consul_ops catalog_api) (consul_backend catalog_api default_api_config []) NilInterface compose_c = Inr p"
    "dmName p = ''svc-c''" "dmListen p = '':8083''"
    using catalog_starts [of "[]" NilInterface compose_c] cv by auto
  have h: "plain_host (compose_c ''SD_INTERNAL_ADDRESS'')" "compose_c ''SD_ADVERTISE_PORT'' \<in> {[], itoa 8083}"
    "compose_b ''NEXT'' = dmName p" "Workload (ConfigFromEnv compose_b) \<in> {[], Workload (ConfigFromEnv compose_c)}"
    using cv p(2) by (simp_all only: config_simple insertI1)
  note reach = demo_reaches_downstream [OF p(1) cv(12) h(1) cv(2) _ _ h(2) catalog_api_laws _ cv(6,7) h(3,4)]
  obtain u r where u: "async_ended catalog_api p u" "mRegistry (ryMgr u) = Some (Some r)"
    "\<And>d. demo_start (consul_ops catalog_api) (consul_backend catalog_api default_api_config (crServer r)) NilInterface compose_b = Inr d
      \<Longrightarrow> ping ?http d = (case ?http (''http://'' @ compose_c ''SD_INTERNAL_ADDRESS'' @ dmListen p @ ''/ping'') of
            Inl t \<Rightarrow> Reply (http_error (''call '' @ dmName p @ '': '' @ t) 502)
          | Inr body \<Rightarrow> Reply \<lparr>rsStatus = 200, rsBody = dmName d @ '' -> '' @ body\<rparr>)"
    using reach by auto
  obtain d where d: "demo_start (consul_ops catalog_api) (consul_backend catalog_api default_api_config (crServer r)) NilInterface compose_b = Inr d"
    "dmName d = ''svc-b''"
    using catalog_starts [of "crServer r" NilInterface compose_b] cv by auto
  have "ping ?http d = Reply \<lparr>rsStatus = 200, rsBody = ''svc-b -> svc-c''\<rparr>" using u(3) [OF d(1)] d(2) p(3) cv(1) by simp
  with p(1) u(1,2) d(1) show ?thesis by blast
qed

section \<open>The chain\<close>

text \<open>The services of a chain with the address each is called at; a URL reaches the first that listens there.\<close>

fun network :: "(string \<times> 'r demo) list \<Rightarrow> string \<Rightarrow> string + string" where
  "network [] url = Inl ''connection refused''"
| "network ((a, d) # ds) url =
     (if url = ''http://'' @ a @ ''/ping''
      then (case ping (network ds) d of Reply r \<Rightarrow> Inr (rsBody r) | Panicked \<Rightarrow> Inl ''EOF'')
      else network ds url)"

text \<open>Each service of the chain has resolved the next.\<close>

fun linked :: "(string \<times> 'r demo) list \<Rightarrow> bool" where
  "linked ((a, d) # (b, d') # ds) \<longleftrightarrow>
     dmNext d \<noteq> [] \<and> Address (dmResolver d) = b \<and> b \<noteq> [] \<and> url_parse (''http://'' @ b @ ''/ping'') \<noteq> None
     \<and> linked ((b, d') # ds)"
| "linked ds \<longleftrightarrow> ds \<noteq> []"

lemma ping_relays:
  assumes "linked ((a, d) # (b, d') # ds)" "ping (network ds) d' = Reply r"
  shows "ping (network ((b, d') # ds)) d = Reply \<lparr>rsStatus = 200, rsBody = dmName d @ '' -> '' @ rsBody r\<rparr>"
  using assms by (auto simp: ping_def Let_def)

text \<open>
  One request walks the chain: when each service of a chain has resolved the next, a request to the first
  is answered with the names of all before the last, in order, and then whatever the last one answers;
  the status is the last one's own only in a chain of one, and 200 otherwise.
\<close>

lemma ping_walks_chain:
  fixes d :: "'r demo"
  assumes "linked (ads @ [(a, d)])" and "ping (network ([] :: (string \<times> 'r demo) list)) d = Reply r"
  shows "ping (network (tl (ads @ [(a, d)]))) (snd (hd (ads @ [(a, d)])))
     = Reply \<lparr>rsStatus = (if ads = [] then rsStatus r else 200),
              rsBody = concat (map (\<lambda>x. dmName (snd x) @ '' -> '') ads) @ rsBody r\<rparr>"
  using assms(1)
proof (induction ads)
  case Nil
  have "\<lparr>rsStatus = rsStatus r, rsBody = rsBody r\<rparr> = r" by simp
  with assms(2) show ?case by (simp only: append_Nil list.sel list.map concat.simps snd_conv if_P [OF HOL.refl])
next
  case (Cons x ads)
  obtain a0 d0 b d1 ds where s: "x = (a0, d0)" "ads @ [(a, d)] = (b, d1) # ds"
    by (cases x; cases "ads @ [(a, d)]") auto
  have l: "linked ((a0, d0) # (b, d1) # ds)" using Cons.prems s by simp
  then have "linked (ads @ [(a, d)])" using s(2) by simp
  from Cons.IH [OF this] have "ping (network ds) d1 = Reply \<lparr>rsStatus = (if ads = [] then rsStatus r else 200),
      rsBody = concat (map (\<lambda>x. dmName (snd x) @ '' -> '') ads) @ rsBody r\<rparr>" by (simp add: s(2))
  from ping_relays [OF l this] show ?case by (simp add: s del: network.simps)
qed

definition chained :: "string \<Rightarrow> string \<Rightarrow> string \<Rightarrow> nat demo" where
  "chained name nxt addr =
     \<lparr>dmName = name, dmNext = nxt, dmListen = [], dmConfig = enabled_config, dmManager = stub_manager,
      dmResolver = Some ((new_dynamic [] [])\<lparr>drSnapshot := Some (addr, [])\<rparr>), dmThreads = [], dmLog = []\<rparr>"

lemma compose_chain:
  "ping (network [(''svc-b:8082'', chained ''svc-b'' ''svc-c'' ''svc-c:8083''), (''svc-c:8083'', chained ''svc-c'' [] [])])
     (chained ''svc-a'' ''svc-b'' ''svc-b:8082'')
   = Reply \<lparr>rsStatus = 200, rsBody = ''svc-a -> svc-b -> svc-c''\<rparr>
   \<and> ping (network [(''svc-b:8082'', chained ''svc-b'' ''svc-c'' [])]) (chained ''svc-a'' ''svc-b'' ''svc-b:8082'')
   = Reply \<lparr>rsStatus = 200, rsBody = ''svc-a -> downstream svc-c not resolved yet'' @ [CHR 0x0A]\<rparr>"
proof
  let ?a = "chained ''svc-a'' ''svc-b'' ''svc-b:8082''" and ?b = "chained ''svc-b'' ''svc-c'' ''svc-c:8083''"
    and ?c = "chained ''svc-c'' [] []" and ?b' = "chained ''svc-b'' ''svc-c'' []"
  have urls: "url_parse ''http://svc-b:8082/ping'' \<noteq> None" "url_parse ''http://svc-c:8083/ping'' \<noteq> None"
    by code_simp+
  note ev = chained_def new_dynamic_def Address_def
  have l: "linked ([(''svc-a:8081'', ?a), (''svc-b:8082'', ?b)] @ [(''svc-c:8083'', ?c)])"
    "linked ([(''svc-a:8081'', ?a)] @ [(''svc-b:8082'', ?b')])"
    using urls by (simp_all add: ev)
  have r: "ping (network ([] :: (string \<times> nat demo) list)) ?c = Reply \<lparr>rsStatus = 200, rsBody = ''svc-c''\<rparr>"
    "ping (network ([] :: (string \<times> nat demo) list)) ?b' = Reply \<lparr>rsStatus = 503, rsBody = ''downstream svc-c not resolved yet'' @ [CHR 0x0A]\<rparr>"
    by (simp_all add: ping_def ev http_error_def)
  show "ping (network [(''svc-b:8082'', ?b), (''svc-c:8083'', ?c)]) ?a
      = Reply \<lparr>rsStatus = 200, rsBody = ''svc-a -> svc-b -> svc-c''\<rparr>"
    using ping_walks_chain [OF l(1) r(1)] by (simp add: ev)
  show "ping (network [(''svc-b:8082'', ?b')]) ?a
      = Reply \<lparr>rsStatus = 200, rsBody = ''svc-a -> downstream svc-c not resolved yet'' @ [CHR 0x0A]\<rparr>"
    using ping_walks_chain [OF l(2) r(2)] by (simp add: ev)
qed

end
