(* ===== verification/SnapshotReads.thy ===== *)
theory SnapshotReads
  imports DynamicResolution Reachability
begin

text \<open>
  A caller of a dynamic resolver (\<open>resolver.go\<close>) against its update loop. The snapshot is one atomic pointer
  to an immutable pair; \<open>Address\<close> and \<open>Scheme\<close> each load it once, and a caller that needs both calls one after
  the other, in either order, while the loop stores new pairs.
\<close>

section \<open>The caller and the update loop\<close>

text \<open>
  What the caller has loaded, each with the number of updates before it; \<open>rdPast\<close> records the snapshot after
  each update, the seed first.
\<close>

record reading =
  rdDr :: dynamic_resolver
  rdAddr :: "(string \<times> nat) option"
  rdScheme :: "(string \<times> nat) option"
  rdPast :: "(string \<times> string) option list"

definition updates_made :: "reading \<Rightarrow> nat" where
  "updates_made s = length (rdPast s) - 1"

inductive read_step :: "'r registry_ops \<Rightarrow> string \<Rightarrow> string \<Rightarrow> reading \<Rightarrow> reading \<Rightarrow> bool" for ops name tag where
  updates:
    "resolver_update ops c name tag (rdDr s, r) = ((dr, r'), ls) \<Longrightarrow>
     read_step ops name tag s (s\<lparr>rdDr := dr, rdPast := rdPast s @ [drSnapshot dr]\<rparr>)"
| loads_address:
    "rdAddr s = None \<Longrightarrow>
     read_step ops name tag s (s\<lparr>rdAddr := Some (Address (Some (rdDr s)), updates_made s)\<rparr>)"
| loads_scheme:
    "rdScheme s = None \<Longrightarrow>
     read_step ops name tag s (s\<lparr>rdScheme := Some (Scheme (Some (rdDr s)), updates_made s)\<rparr>)"

inductive_cases read_stepE: "read_step ops name tag s u"

abbreviation read_reach :: "'r registry_ops \<Rightarrow> string \<Rightarrow> string \<Rightarrow> reading \<Rightarrow> reading \<Rightarrow> bool" where
  "read_reach ops name tag \<equiv> reach (read_step ops name tag)"

definition start_reading :: "dynamic_resolver \<Rightarrow> reading" where
  "start_reading dr = \<lparr>rdDr = dr, rdAddr = None, rdScheme = None, rdPast = [drSnapshot dr]\<rparr>"

section \<open>The invariant\<close>

text \<open>What may be published: the seed, the fallback, an endpoint the backend answers under the resolver's view.\<close>

definition published_pairs ::
    "'r registry_ops \<Rightarrow> string \<Rightarrow> string \<Rightarrow> dynamic_resolver \<Rightarrow> (string \<times> string) option set" where
  "published_pairs ops name tag dr =
     {drSnapshot dr} \<union> (if drFallback dr = [] then {} else {Some (drFallback dr, drFallbackScheme dr)})
     \<union> {Some (Endpoint_Addr ep, eScheme ep) | c r svc ep.
          fst (opResolve ops c name tag r) = Inr svc \<and> EndpointFor svc (drView dr) = Inr ep}"

definition read_ok :: "(string \<times> string \<Rightarrow> string) \<Rightarrow> (string \<times> nat) option \<Rightarrow> (string \<times> string) option list \<Rightarrow> bool" where
  "read_ok f x ps \<longleftrightarrow> (\<forall>v i. x = Some (v, i) \<longrightarrow> i < length ps \<and> (\<forall>p. ps ! i = Some p \<longrightarrow> v = f p))"

definition reading_ok :: "'r registry_ops \<Rightarrow> string \<Rightarrow> string \<Rightarrow> dynamic_resolver \<Rightarrow> reading \<Rightarrow> bool" where
  "reading_ok ops name tag dr s \<longleftrightarrow>
     rdPast s \<noteq> [] \<and> last (rdPast s) = drSnapshot (rdDr s) \<and> None \<notin> set (rdPast s)
     \<and> set (rdPast s) \<subseteq> published_pairs ops name tag dr
     \<and> drView (rdDr s) = drView dr \<and> drFallback (rdDr s) = drFallback dr
     \<and> drFallbackScheme (rdDr s) = drFallbackScheme dr
     \<and> read_ok fst (rdAddr s) (rdPast s) \<and> read_ok snd (rdScheme s) (rdPast s)"

lemma read_ok_append: "read_ok f x ps \<Longrightarrow> read_ok f x (ps @ qs)"
  by (auto simp: read_ok_def nth_append)

lemma read_ok_now:
  assumes "ps \<noteq> []" "last ps = Some p" "v = f p" shows "read_ok f (Some (v, length ps - Suc 0)) ps"
  using assms by (simp add: read_ok_def last_conv_nth)

lemma absorb_published:
  assumes "v \<in> published_pairs ops name tag dr" "fst (opResolve ops c name tag r) = res"
  shows "dyn_absorb (drView dr) (drFallback dr, drFallbackScheme dr) res v \<in> published_pairs ops name tag dr"
proof (cases res)
  case (Inl e)
  then show ?thesis using assms(1) by (cases "drFallback dr = []") (simp_all add: published_pairs_def)
next
  case (Inr svc)
  then show ?thesis using assms unfolding published_pairs_def by (cases "EndpointFor svc (drView dr)") auto
qed

lemma absorb_some: "v \<noteq> None \<Longrightarrow> dyn_absorb view fb res v \<noteq> None"
  by (cases res) (auto split: sum.splits)

lemma snapshot_now:
  assumes "reading_ok ops name tag dr s"
  obtains p where "drSnapshot (rdDr s) = Some p" "last (rdPast s) = Some p" "rdPast s \<noteq> []"
  using assms unfolding reading_ok_def by (metis last_in_set not_Some_eq)

lemma read_step_ok:
  assumes "read_step ops name tag s u" "reading_ok ops name tag dr s" shows "reading_ok ops name tag dr u"
  using assms(1)
proof cases
  case (updates c r dr' r' ls)
  obtain p where p: "drSnapshot (rdDr s) = Some p" "last (rdPast s) = Some p" "rdPast s \<noteq> []"
    using snapshot_now [OF assms(2)] .
  obtain res where res: "opResolve ops c name tag r = (res, r')" and
    d: "dr' = (rdDr s)\<lparr>drSnapshot := dyn_absorb (drView dr) (drFallback dr, drFallbackScheme dr) res (Some p)\<rparr>"
  proof -
    obtain res q where q: "opResolve ops c name tag r = (res, q)" by fastforce
    have "drView (rdDr s) = drView dr" "drFallback (rdDr s) = drFallback dr" "drFallbackScheme (rdDr s) = drFallbackScheme dr"
      using assms(2) by (simp_all add: reading_ok_def)
    then show thesis using resolver_update_step [OF q, of "rdDr s"] updates(2) p(1) q that by simp
  qed
  let ?v = "dyn_absorb (drView dr) (drFallback dr, drFallbackScheme dr) res (Some p)"
  have "Some p \<in> published_pairs ops name tag dr" using assms(2) p last_in_set [OF p(3)] by (auto simp: reading_ok_def)
  then have "?v \<in> published_pairs ops name tag dr" by (rule absorb_published [where c = c and r = r]) (simp add: res)
  moreover have "None \<noteq> ?v" by (rule not_sym, rule absorb_some) simp
  ultimately show ?thesis using assms(2) unfolding updates(1) reading_ok_def by (simp add: d read_ok_append)
next
  case loads_address
  obtain p where "drSnapshot (rdDr s) = Some p" "last (rdPast s) = Some p" "rdPast s \<noteq> []"
    using snapshot_now [OF assms(2)] .
  then have "read_ok fst (Some (Address (Some (rdDr s)), updates_made s)) (rdPast s)"
    by (auto simp: Address_def updates_made_def intro!: read_ok_now split: prod.split)
  with assms(2) show ?thesis unfolding loads_address(1) reading_ok_def by simp
next
  case loads_scheme
  obtain p where "drSnapshot (rdDr s) = Some p" "last (rdPast s) = Some p" "rdPast s \<noteq> []"
    using snapshot_now [OF assms(2)] .
  then have "read_ok snd (Some (Scheme (Some (rdDr s)), updates_made s)) (rdPast s)"
    by (auto simp: Scheme_def updates_made_def intro!: read_ok_now split: prod.split)
  with assms(2) show ?thesis unfolding loads_scheme(1) reading_ok_def by simp
qed

interpretation reading: step_system "read_step ops name tag" "reading_ok ops name tag dr" for ops name tag dr
  by unfold_locales (rule read_step_ok)

lemma start_reading_ok: "drSnapshot dr = Some p \<Longrightarrow> reading_ok ops name tag dr (start_reading dr)"
  by (simp add: reading_ok_def start_reading_def published_pairs_def read_ok_def)

section \<open>Two schedules\<close>

text \<open>The scheme is loaded before an update and the address after it, or the other way round.\<close>

lemma torn_runs:
  assumes "drSnapshot dr = Some (a, s)" and "opResolve ops c name tag r = (Inr svc, r')"
    and "EndpointFor svc (drView dr) = Inr ep"
  defines "d \<equiv> dr\<lparr>drSnapshot := Some (Endpoint_Addr ep, eScheme ep)\<rparr>"
    and "past \<equiv> [Some (a, s), Some (Endpoint_Addr ep, eScheme ep)]"
  shows "read_reach ops name tag (start_reading dr)
      \<lparr>rdDr = d, rdAddr = Some (Endpoint_Addr ep, 1), rdScheme = Some (s, 0), rdPast = past\<rparr>"
    "read_reach ops name tag (start_reading dr)
      \<lparr>rdDr = d, rdAddr = Some (a, 0), rdScheme = Some (eScheme ep, 1), rdPast = past\<rparr>"
proof -
  note go = reach.step [where step = "read_step ops name tag"]
  obtain ls where up: "resolver_update ops c name tag (dr, r) = ((d, r'), ls)"
    using resolver_update_step [OF assms(2), of dr] assms(3) by (cases "resolver_update ops c name tag (dr, r)") (simp add: d_def)
  have start: "start_reading dr = \<lparr>rdDr = dr, rdAddr = None, rdScheme = None, rdPast = [Some (a, s)]\<rparr>"
    by (simp add: start_reading_def assms(1))
  have s1: "read_step ops name tag (start_reading dr) ((start_reading dr)\<lparr>rdScheme := Some (s, 0)\<rparr>)"
    and a1: "read_step ops name tag (start_reading dr) ((start_reading dr)\<lparr>rdAddr := Some (a, 0)\<rparr>)"
    using read_step.loads_scheme [of "start_reading dr" ops name tag] read_step.loads_address [of "start_reading dr" ops name tag]
    by (simp_all add: start updates_made_def Scheme_def Address_def assms(1))
  have s2: "read_step ops name tag ((start_reading dr)\<lparr>rdScheme := Some (s, 0)\<rparr>)
      \<lparr>rdDr = d, rdAddr = None, rdScheme = Some (s, 0), rdPast = past\<rparr>"
    and a2: "read_step ops name tag ((start_reading dr)\<lparr>rdAddr := Some (a, 0)\<rparr>)
      \<lparr>rdDr = d, rdAddr = Some (a, 0), rdScheme = None, rdPast = past\<rparr>"
    using read_step.updates [of ops c name tag "(start_reading dr)\<lparr>rdScheme := Some (s, 0)\<rparr>" r d r' ls]
      read_step.updates [of ops c name tag "(start_reading dr)\<lparr>rdAddr := Some (a, 0)\<rparr>" r d r' ls] up
    by (simp_all add: start past_def d_def)
  have s3: "read_step ops name tag \<lparr>rdDr = d, rdAddr = None, rdScheme = Some (s, 0), rdPast = past\<rparr>
      \<lparr>rdDr = d, rdAddr = Some (Endpoint_Addr ep, 1), rdScheme = Some (s, 0), rdPast = past\<rparr>"
    and a3: "read_step ops name tag \<lparr>rdDr = d, rdAddr = Some (a, 0), rdScheme = None, rdPast = past\<rparr>
      \<lparr>rdDr = d, rdAddr = Some (a, 0), rdScheme = Some (eScheme ep, 1), rdPast = past\<rparr>"
    using read_step.loads_address [of "\<lparr>rdDr = d, rdAddr = None, rdScheme = Some (s, 0), rdPast = past\<rparr>" ops name tag]
      read_step.loads_scheme [of "\<lparr>rdDr = d, rdAddr = Some (a, 0), rdScheme = None, rdPast = past\<rparr>" ops name tag]
    by (simp_all add: updates_made_def Scheme_def Address_def d_def past_def)
  show "read_reach ops name tag (start_reading dr) \<lparr>rdDr = d, rdAddr = Some (Endpoint_Addr ep, 1), rdScheme = Some (s, 0), rdPast = past\<rparr>"
    by (rule go [OF go [OF go [OF reach.refl s1] s2] s3])
  show "read_reach ops name tag (start_reading dr) \<lparr>rdDr = d, rdAddr = Some (a, 0), rdScheme = Some (eScheme ep, 1), rdPast = past\<rparr>"
    by (rule go [OF go [OF go [OF reach.refl a1] a2] a3])
qed

text \<open>A resolver of the internal view whose instance moves from an https endpoint to an http one.\<close>

definition moving :: dynamic_resolver where
  "moving = (new_dynamic [] [])\<lparr>drView := View_Internal, drSnapshot := Some (''old:8443'', ''https'')\<rparr>"

lemma moving_seed: "drSnapshot moving = Some (''old:8443'', ''https'')"
  by (simp add: moving_def)

lemma moving_answer: "opResolve (stub_ops dual_service) Background ''a'' [] 0 = (Inr dual_service, 1)"
  by (simp add: stub_ops_def)

lemma moving_endpoint:
  "EndpointFor dual_service (drView moving) = Inr \<lparr>eAddress = ''a.svc'', ePort = 8080, eScheme = ''http''\<rparr>"
  by (simp add: moving_def EndpointFor_def dual_service_def)

lemma moving_address: "Endpoint_Addr \<lparr>eAddress = ''a.svc'', ePort = 8080, eScheme = ''http''\<rparr> = ''a.svc:8080''"
  by code_simp

section \<open>Properties\<close>

text \<open>
  C17. What a caller loads from a dynamic resolver was published whole: whatever the update loop does meanwhile,
  each load yields its component of the pair that was current at that moment, a pair is the seed, the
  fallback, or address and scheme of one endpoint the backend answered, and two loads with no update
  between them belong to one pair.
\<close>

theorem snapshot_reads_published:
  assumes "drSnapshot dr = Some seed" and "read_reach ops name tag (start_reading dr) u"
  shows "(\<forall>a i. rdAddr u = Some (a, i) \<longrightarrow> i < length (rdPast u) \<and> (\<exists>s. rdPast u ! i = Some (a, s)))
     \<and> (\<forall>s i. rdScheme u = Some (s, i) \<longrightarrow> i < length (rdPast u) \<and> (\<exists>a. rdPast u ! i = Some (a, s)))
     \<and> (\<forall>a s i. rdAddr u = Some (a, i) \<and> rdScheme u = Some (s, i) \<longrightarrow> Some (a, s) \<in> set (rdPast u))
     \<and> (\<forall>p \<in> set (rdPast u). p = Some seed \<or> p = Some (drFallback dr, drFallbackScheme dr)
          \<or> (\<exists>c r svc ep. fst (opResolve ops c name tag r) = Inr svc \<and> EndpointFor svc (drView dr) = Inr ep
               \<and> p = Some (Endpoint_Addr ep, eScheme ep)))"
proof -
  have ok: "reading_ok ops name tag dr u"
    using reading.reach_inv [OF assms(2) start_reading_ok [OF assms(1)]] .
  have full: "\<exists>p. rdPast u ! i = Some p" if "i < length (rdPast u)" for i
    using ok nth_mem [OF that] unfolding reading_ok_def by (metis not_None_eq)
  have addr: "i < length (rdPast u) \<and> (\<exists>s. rdPast u ! i = Some (a, s))" if "rdAddr u = Some (a, i)" for a i
    using ok that full [of i] by (auto simp: reading_ok_def read_ok_def)
  have scheme: "i < length (rdPast u) \<and> (\<exists>a. rdPast u ! i = Some (a, s))" if "rdScheme u = Some (s, i)" for s i
    using ok that full [of i] by (auto simp: reading_ok_def read_ok_def)
  have pair: "Some (a, s) \<in> set (rdPast u)" if "rdAddr u = Some (a, i)" "rdScheme u = Some (s, i)" for a s i
    using addr [OF that(1)] scheme [OF that(2)] by (metis nth_mem option.inject prod.inject)
  have "p = Some seed \<or> p = Some (drFallback dr, drFallbackScheme dr)
      \<or> (\<exists>c r svc ep. fst (opResolve ops c name tag r) = Inr svc \<and> EndpointFor svc (drView dr) = Inr ep
           \<and> p = Some (Endpoint_Addr ep, eScheme ep))" if "p \<in> set (rdPast u)" for p
  proof -
    have "p \<in> published_pairs ops name tag dr" using ok that by (auto simp: reading_ok_def)
    then show ?thesis using assms(1) by (cases "drFallback dr = []") (auto simp: published_pairs_def)
  qed
  with addr scheme pair show ?thesis by blast
qed

theorem snapshot_reads_published_witness:
  "\<exists>u. read_reach (stub_ops dual_service) ''a'' [] (start_reading moving) u
     \<and> rdAddr u = Some (''a.svc:8080'', 1) \<and> rdScheme u = Some (''https'', 0)
     \<and> (\<exists>s. rdPast u ! 1 = Some (''a.svc:8080'', s))"
proof -
  note run = torn_runs(1) [OF moving_seed moving_answer moving_endpoint, unfolded moving_address]
  show ?thesis using snapshot_reads_published [OF moving_seed run] run by (intro exI) auto
qed

text \<open>
  C35. But the two components a caller needs can tear: from any snapshot and any answer of the backend under
  the resolver's view, there is a schedule in which a caller gets the new address with the old scheme, and
  one in which it gets the old address with the new scheme; where both have changed, neither pair was ever
  published.
\<close>

theorem address_and_scheme_tear:
  assumes "drSnapshot dr = Some (a, s)" and "opResolve ops c name tag r = (Inr svc, r')"
    and "EndpointFor svc (drView dr) = Inr ep"
  shows "\<exists>u v. read_reach ops name tag (start_reading dr) u \<and> read_reach ops name tag (start_reading dr) v
     \<and> map_option fst (rdAddr u) = Some (Endpoint_Addr ep) \<and> map_option fst (rdScheme u) = Some s
     \<and> map_option fst (rdAddr v) = Some a \<and> map_option fst (rdScheme v) = Some (eScheme ep)
     \<and> (a \<noteq> Endpoint_Addr ep \<and> s \<noteq> eScheme ep \<longrightarrow>
          Some (Endpoint_Addr ep, s) \<notin> set (rdPast u) \<and> Some (a, eScheme ep) \<notin> set (rdPast v))"
proof -
  note runs = torn_runs [OF assms]
  show ?thesis by (rule exI, rule exI, rule conjI [OF runs(1)], rule conjI [OF runs(2)]) auto
qed

theorem address_and_scheme_tear_witness:
  "\<exists>u. read_reach (stub_ops dual_service) ''a'' [] (start_reading moving) u
     \<and> map_option fst (rdScheme u) = Some ''https'' \<and> map_option fst (rdAddr u) = Some ''a.svc:8080''
     \<and> Some (''a.svc:8080'', ''https'') \<notin> set (rdPast u)"
  using address_and_scheme_tear [OF moving_seed moving_answer moving_endpoint] by (auto simp: moving_address)

end
