(* ===== verification/Spec2Isabelle.thy ===== *)
theory Spec2Isabelle
  imports DynamicResolution HeartbeatConcurrency ConsulResolve ResolverInterleavings
    CellReads WatchDelivery RegisterInterleavings ExampleNetwork SnapshotReads
begin

text \<open>
  A model of \<open>lib-service-discovery\<close>, a Go library through which a service registers itself in a
  service registry (Consul by default) and finds the addresses of others. All its implementation
  files are modelled, and the example program \<open>services/main.go\<close> but for its sockets and signals; \<open>doc.go\<close>
  is the package comment.

  \<^bold>\<open>The program.\<close> A \<open>Manager\<close> (\<open>manager.go\<close>) is built by \<open>New\<close> from a \<open>Config\<close> (\<open>config.go\<close>, loaded
  from the environment and completed by defaults) and options. It holds a \<open>Registry\<close> backend
  (\<open>types.go\<close>); the one the library brings is the Consul backend of \<open>consul.go\<close>. \<open>Register\<close> derives the
  endpoints of the service from the configuration, tags it with the workload, prepares the health
  check and hands it to the backend, which writes the endpoints into the catalog entry's Meta and, for
  a TTL check, starts a heartbeat goroutine. The \<open>Resolve\<close> family reads a cache per service name
  (\<open>managed_resolver.go\<close>): the first lookup of a name seeds the cell with one Resolve of the backend
  and starts a watch; from then on a goroutine re-resolves on every event of the watch and stores,
  clears or keeps. \<open>WatchResolve\<close> and \<open>WatchResolveService\<close> (\<open>resolver.go\<close>) give the caller an
  auto-refreshing resolver of its own. \<open>Close\<close> cancels the base context of all watches, drains the
  resolvers and closes the backend, which stops the heartbeats.

  \<^bold>\<open>Which theory models what.\<close>
  \<^item> \<open>Prelude\<close>: durations, 64-bit wrap-around, string maps, the collection \<open>inv_intros\<close>.
  \<^item> \<open>GoStrings\<close>, \<open>GoTime\<close>, \<open>GoUrl\<close>: the functions of Go's \<open>strings\<close>, \<open>strconv\<close>, \<open>time\<close> and \<open>net/url\<close>
    packages the library calls, on byte strings, with their overflow checks and error cases. \<open>GoQuote\<close>:
    \<open>strconv.Quote\<close>, with which the example program prints, and a reader that inverts it; the print table
    of \<open>strconv\<close> above ASCII is its parameter \<open>upper\<close>.
  \<^item> \<open>Types\<close> (\<open>types.go\<close>): errors as the datatype \<open>go_error\<close> with \<open>errors.Is\<close>, endpoints, services, events,
    endpoint views, the write-path normalisation.
  \<^item> \<open>Logger\<close> (\<open>logger.go\<close>): the slog adapter; \<open>Config\<close> (\<open>config.go\<close>).
  \<^item> \<open>Registry\<close> (the interface in \<open>types.go\<close>): a backend is a state \<open>'r\<close> and the record \<open>registry_ops\<close> of
    its operations, each returning Go's result and the next state; contexts, channels, log calls.
    The locales \<open>stateful_registry\<close> and \<open>background_registry\<close> are what the manager relies on.
  \<^item> \<open>ConsulCodec\<close> (\<open>serviceMeta\<close>, \<open>serviceFromEntry\<close> and around them), \<open>ConsulRegistry\<close> (the operations of
    \<open>consulRegistry\<close>), \<open>ConsulHeartbeats\<close> (its heartbeat invariant, and the interpretation of
    \<open>background_registry\<close>), \<open>ConsulWatch\<close> (\<open>watchLoop\<close>), \<open>ConsulResolve\<close> (\<open>Resolve\<close>, \<open>nextIndex\<close>).
  \<^item> \<open>ManagedResolver\<close> (\<open>managed_resolver.go\<close>, and the \<open>Manager\<close> record), \<open>Manager\<close> (\<open>manager.go\<close>),
    \<open>DynamicResolver\<close> (\<open>resolver.go\<close>).
  \<^item> \<open>ManagerLifecycle\<close>: every public call and every watch event as one step \<open>mgr_after\<close> of a manager,
    and the invariant \<open>mgr_inv\<close>; \<open>ManagerCalls\<close> and \<open>DynamicResolution\<close>: what the calls answer.
  \<^item> \<open>Reachability\<close>: reachable states of a step relation and the locales \<open>step_system\<close>,
    \<open>measured_system\<close> and \<open>ranked_system\<close>. On it the models of concurrency: \<open>HeartbeatConcurrency\<close>
    (\<open>startHeartbeat\<close> against \<open>Close\<close>, \<open>Deregister\<close> and the tickers), \<open>ResolverConcurrency\<close> with
    \<open>ResolverInterleavings\<close> (\<open>managedResolverFor\<close>, the seed inside \<open>once.Do\<close>, the watch loops and \<open>Close\<close>, on
    shared resolver objects), and \<open>WatchPipeline\<close> with \<open>WatchDelivery\<close> (\<open>watchLoop\<close> and an update loop as two
    goroutines with the channel of 16 events between them and the context that ends both), and
    \<open>RegisterConcurrency\<close> with \<open>RegisterInterleavings\<close> (the goroutines of \<open>RegisterAsync\<close> against \<open>Close\<close>, the
    cancellation of their contexts and the other users of the backend). \<open>CellReads\<close> is about the atomic
    loads and stores of one cache cell, \<open>SnapshotReads\<close> about a caller's separate loads of the snapshot of
    a dynamic resolver while its update loop runs.
  \<^item> \<open>ExampleService\<close> (\<open>services/main.go\<close>): the start of the example program, its log, its routes with the
    handlers \<open>/ping\<close> and \<open>/whoami\<close>, the end of its server, its shutdown. \<open>ExampleNetwork\<close>: two of them that
    find each other through a catalog, from the goroutine that registers the one to the request of the other,
    and the chain of such services.
  \<^item> this theory: properties of the write path, the watch pipeline and the consumers' caches together.

  \<^bold>\<open>How the code is represented.\<close> A struct is a record with the fields of the struct; a pointer that may
  be nil an \<open>option\<close>, so a method on a nil receiver is its \<open>None\<close> case. A Go error result is an
  \<open>option\<close> or the left of a sum; \<open>fmt.Errorf\<close> keeps its format, the wrapped error and the operands; a
  run-time panic is the error \<open>Panic\<close>. State is passed explicitly. A context is what a call sees of it
  (done, deadline); the contexts a component creates are a list of cancelled flags, its goroutines a
  list that names their context, so that a goroutine is live while its context is not cancelled.
  Logging appends to a trace. A loop that waits for its environment runs against a script: the turns
  of \<open>watchLoop\<close> (what each poll returned, whether a sleep or a send was cut short), the attempts of
  \<open>RegisterAsync\<close>, what a \<open>select\<close> yields in the update loops; theorems quantify over all scripts. The
  Consul SDK is a parameter: the record \<open>consul_api\<close> of the calls the library makes. What is assumed of
  it is named where it is used: \<open>entry_reflects\<close> (a catalog entry carries what was registered),
  \<open>agent_laws\<close> (what the agent answers to an update of a check it knows or does not know) and
  \<open>catalog_laws\<close> (what an agent that can be reached lists after a registration and a passing check, and
  finds by name and tag); \<open>agent_api\<close> and \<open>catalog_api\<close> are agents that keep them. A panic of the backend's
  Resolve unwinds its caller: in an update loop it ends the loop, in the seed inside \<open>once.Do\<close> it leaves the
  resolver without a watch. There the model keeps the panic as the seed's error, so that the lookup itself and
  those after it report it (or take their fallback), where the code unwinds the first and finds an empty cell
  later.

  \<^bold>\<open>What the lemmas show.\<close> For the Consul backend: the codec round trip and its exact domain; the
  heartbeat invariant (one live heartbeat per service, none after \<open>Close\<close>) kept by every operation and
  every interleaving; the watch publishes the snapshots whose index advanced; backoff bounds. For the
  manager: registration depends on the configuration only; the cache is a fold of the backend's
  answers; the resolve family answers from the cache, fails open, and is inert after \<open>Close\<close>; \<open>Close\<close>
  leaves nothing running. For the program as a whole: a service that is configured by its environment
  registers itself and is reached by another one at the address it listens on, through the catalog alone; the
  consumers of a watch follow a registration, whatever they were seeded with; the quoted fields \<open>/whoami\<close> prints can be
  read back. For the concurrency:
  single flight per name, \<open>Close\<close> is final, no lookup is stuck, an undisturbed lookup is the sequential one
  and an undisturbed \<open>RegisterAsync\<close> the loop of \<open>Manager\<close>, reads of a cell linearise, every load of a
  snapshot is one that was published; the events of a watch
  reach its update loop in order and without loss, a watch that is not cancelled can always catch up, and
  a cancelled one ends under every schedule (\<open>run_out\<close> goes down with every step); an asynchronous
  registration is paced under every schedule and ends once the manager is closed (\<open>all_left\<close> goes down).
  Some theorems record behaviour the comments in the code do not expect: the departure of the last
  instance, the overflow of the round-robin cursor, a phantom endpoint, the race of \<open>Deregister\<close>, a
  registration that outlives \<open>Close\<close>, a stale seed error, an address and a scheme loaded one after the other that
  belong to different endpoints.

  \<^bold>\<open>Integers, fuel and termination.\<close> Go's \<open>int\<close> and \<open>time.Duration\<close> are \<open>int\<close> where the code does no
  arithmetic that could leave 64 bits, with \<open>wrap64\<close> where it does (the poll deadline, the backoff
  shift), and the round-robin cursor is a \<open>64 word\<close>. All functions are total. Four helpers take fuel:
  \<open>duration_items\<close> and \<open>ipv6_fields\<close> get the length of their input, of which every turn consumes at
  least one character; \<open>up_shift\<close> and \<open>down_shift\<close>, which scale a fraction to 53 bits, get 200, more
  than the 53 + 64 places a quotient of 64-bit operands can be away from it. The recursion of every other loop is structural.

  \<^bold>\<open>Not modelled.\<close> \<open>doc.go\<close> is a comment. Of \<open>services/main.go\<close>, the sockets of the HTTP server, its drain at
  \<open>Shutdown\<close> and the delivery of signals; its HTTP client is a function. Inside the Consul SDK and
  \<open>lib-observability\<close> (transport, panic recovery of \<open>SafeGo\<close>) nothing is modelled, nor the aliasing of a
  caller's \<open>Tags\<close> slice; the pipeline of \<open>WatchPipeline\<close> is for a backend whose Resolve does not panic, and
  \<open>live_watch\<close> counts the watches of the resolver map, not those of \<open>WatchResolve\<close> and \<open>Watch\<close>, which run on
  their callers' contexts. Nor is real time: a sleep is a duration that was asked for, a ticker any number of ticks.
\<close>

section \<open>Properties across components\<close>

text \<open>A reader of the sink is given this endpoint under this view.\<close>

fun serves :: "endpoint_view \<Rightarrow> endpoint \<Rightarrow> sink \<Rightarrow> bool" where
  "serves v ep (Managed mr) \<longleftrightarrow> (\<exists>svc. mr_service mr = Some svc \<and> EndpointFor svc v = Inr ep)"
| "serves v ep (Dynamic dr) \<longleftrightarrow> Address (Some dr) = Endpoint_Addr ep \<and> Scheme (Some dr) = eScheme ep"

text \<open>The view a reader of the sink chooses: any, for a managed cache; its own, for a dynamic resolver.\<close>

fun reads_under :: "endpoint_view \<Rightarrow> sink \<Rightarrow> bool" where
  "reads_under v (Managed mr) \<longleftrightarrow> True"
| "reads_under v (Dynamic dr) \<longleftrightarrow> drView dr = v"

lemma absorb_reads_under [simp]: "reads_under v (sink_absorb res k) = reads_under v k"
  by (cases k) simp_all

lemma absorbs_reads_under: "reads_under v (fold sink_absorb rs k) = reads_under v k"
  by (induction rs arbitrary: k) simp_all

lemma absorb_serves:
  assumes "EndpointFor svc v = Inr ep" "reads_under v k" shows "serves v ep (sink_absorb (Inr svc) k)"
proof (cases k)
  case (Managed mr)
  then show ?thesis using assms by (simp add: cell.update_def mr_store_def mr_service_def)
next
  case (Dynamic dr)
  then show ?thesis using assms by (simp add: Address_def Scheme_def)
qed

lemma last_answer_serves:
  assumes "EndpointFor svc v = Inr ep" "reads_under v k" "rs \<noteq> []" "last rs = Inr svc"
  shows "serves v ep (fold sink_absorb rs k)"
proof -
  obtain qs where "rs = qs @ [Inr svc]" using assms(3,4) by (metis append_butlast_last_id)
  then show ?thesis using absorb_serves [OF assms(1)] assms(2) by (simp add: absorbs_reads_under)
qed

text \<open>
  The Consul backend in a state in which its server lists this entry as the only healthy instance of the
  name with the tag, for a query under this context.
\<close>

definition lists_only ::
    "'c consul_api \<Rightarrow> string \<Rightarrow> string \<Rightarrow> service_entry \<Rightarrow> ctx \<Rightarrow> 'c consul_registry option \<Rightarrow> bool" where
  "lists_only api name tag e c ro \<longleftrightarrow>
     (\<exists>r i s. ro = Some r \<and> apHealth api (crClient r) (queryOpts ro c) name tag True (crServer r) = (Inr ([e], i), s))"

lemma listed_answer: "lists_only api name tag e c ro \<Longrightarrow> fst (opResolve (consul_ops api) c name tag ro) = Inr (serviceFromEntry e)"
  by (auto simp: lists_only_def consul_ops_def dest!: consul_hit)

text \<open>
  C4. Consumers of the Consul backend follow a registration: once a re-resolution finds the entry of what an
  instance has registered as the only healthy one, whatever the consumer was seeded with and whatever
  answers came before, it is given the endpoint the instance's configuration advertises, through a managed
  cache and through a dynamic resolver alike, however the goroutines of the watch interleave. And while
  the watch is not cancelled, one published event that has not been answered yet is enough: with the
  catalog listing the entry, the two loops can get there without any further reply of the watched catalog.
  (Ports are 64-bit integers.)
\<close>

theorem consumers_follow_registration:
  assumes "fst (prepareRegister sv m) = Inr svc" and "entry_reflects e (registrationFor svc)"
    and "int64_range (sPort sv)" and "int64_range (AdvertisePort (mConfig m))"
    and "int64_range (AdvertiseInternalPort (mConfig m))"
    and "EndpointFor (advertised (mConfig m) sv) v = Inr ep"
    and "pipe_reach (consul_ops api) name tag (start_pipe k) s" and "reads_under v k"
  shows "(\<forall>c ro. lists_only api name tag e c ro \<and> ppAnswers s \<noteq> []
          \<and> last (ppAnswers s) = fst (opResolve (consul_ops api) c name tag ro) \<longrightarrow> serves v ep (ppSink s))
     \<and> (\<forall>ro. lists_only api name tag e Background ro \<and> \<not> ppDone s
          \<and> length (ppAnswers s) < length (concat (published 0 (ppReplies s))) \<longrightarrow>
          (\<exists>u. pipe_reach (consul_ops api) name tag s u \<and> \<not> ppDone u \<and> ppReplies u = ppReplies s
             \<and> serves v ep (ppSink u)))"
proof (intro conjI allI impI)
  have ep: "EndpointFor (serviceFromEntry e) v = Inr ep" using prepared_read [OF assms(1-5)] assms(6) by simp
  have serve: "serves v ep (ppSink u)"
    if "upd_ok (consul_ops api) name tag k u" "ppAnswers u \<noteq> []" "last (ppAnswers u) = Inr (serviceFromEntry e)" for u
    using last_answer_serves [OF ep assms(8) that(2,3)] that(1) by (simp add: upd_ok_def)
  show "serves v ep (ppSink s)" if "lists_only api name tag e c ro \<and> ppAnswers s \<noteq> []
      \<and> last (ppAnswers s) = fst (opResolve (consul_ops api) c name tag ro)" for c ro
  proof (rule serve)
    show "upd_ok (consul_ops api) name tag k s" using reach_pipe_inv [OF assms(7)] unfolding pipe_inv_def by blast
    show "ppAnswers s \<noteq> []" "last (ppAnswers s) = Inr (serviceFromEntry e)" using that listed_answer by metis+
  qed
  fix ro assume l: "lists_only api name tag e Background ro \<and> \<not> ppDone s
      \<and> length (ppAnswers s) < length (concat (published 0 (ppReplies s)))"
  then obtain u where u: "pipe_reach (consul_ops api) name tag s u" "\<not> ppDone u" "ppReplies u = ppReplies s"
    "ppTaken u = feed (ppReplies s)" "ppUpd u \<noteq> Resolving" "upd_ok (consul_ops api) name tag k u"
    "answered_by (consul_ops api) name tag ro s u"
    using drains [OF assms(7), of ro] by blast
  obtain as where as: "ppAnswers u = ppAnswers s @ as" "set as \<subseteq> {Inr (serviceFromEntry e)}"
    using u(7) listed_answer l unfolding answered_by_def by metis
  have "length (ppAnswers u) = length (concat (published 0 (ppReplies s)))"
    using u(4-6) by (simp add: upd_ok_def feed_def length_concat comp_def)
  then have "as \<noteq> []" using l as(1) by auto
  then have "last as \<in> {Inr (serviceFromEntry e)}" using as(2) last_in_set by blast
  then have "last (ppAnswers u) = Inr (serviceFromEntry e)" using as(1) \<open>as \<noteq> []\<close> by simp
  then show "\<exists>u. pipe_reach (consul_ops api) name tag s u \<and> \<not> ppDone u \<and> ppReplies u = ppReplies s \<and> serves v ep (ppSink u)"
    using serve [OF u(6)] u(1-3) as(1) \<open>as \<noteq> []\<close> by (intro exI [of _ u]) simp
qed

text \<open>An instance whose consumers were seeded with an address it has left.\<close>

definition stale_sink :: sink where
  "stale_sink = Dynamic ((new_dynamic [] [])\<lparr>drView := View_External, drSnapshot := Some (''left:80'', [])\<rparr>)"

theorem consumers_follow_registration_witness:
  "\<exists>svc u. fst (prepareRegister http_service config_manager) = Inr svc
     \<and> pipe_reach (consul_ops catalog_api) ''a'' []
          (polled stale_sink [entry_of (registrationFor svc)] 7) u
     \<and> (\<exists>dr. ppSink u = Dynamic dr \<and> Address (Some dr) = ''a.example.com:443'')"
proof -
  obtain svc where svc: "fst (prepareRegister http_service config_manager) = Inr svc" using http_prepared by blast
  let ?e = "entry_of (registrationFor svc)" and ?ep = "\<lparr>eAddress = ''a.example.com'', ePort = 443, eScheme = []\<rparr>"
  let ?ops = "consul_ops catalog_api" and ?s = "polled stale_sink [entry_of (registrationFor svc)] 7"
  have ep: "EndpointFor (advertised (mConfig config_manager) http_service) View_External = Inr ?ep"
    by (simp add: EndpointFor_def advertised_ends config_manager_def enabled_config_def zero_config_def
        http_service_def empty_service_def)
  have ranges: "int64_range (sPort http_service)" "int64_range (AdvertisePort (mConfig config_manager))"
    "int64_range (AdvertiseInternalPort (mConfig config_manager))"
    by (simp_all add: http_service_def empty_service_def int64_range_def config_manager_def enabled_config_def zero_config_def)
  have "rgName (registrationFor svc) = ''a''" using prepared_name [OF svc] by (simp add: http_service_def)
  moreover obtain r where "newConsulRegistry catalog_api default_api_config [(registrationFor svc, True)] zero_config = Inr r"
    "crServer r = [(registrationFor svc, True)]"
    by (simp add: newConsulRegistry_def catalog_api_def)
  ultimately have l: "lists_only catalog_api ''a'' [] ?e Background (Some r)"
    by (simp add: lists_only_def catalog_api_def with_tag_def queryOpts_def Background_def)
  have s: "pipe_reach ?ops ''a'' [] (start_pipe stale_sink) ?s" by (rule polled_reach) simp
  have ready: "\<not> ppDone ?s \<and> length (ppAnswers ?s) < length (concat (published 0 (ppReplies ?s)))"
    by (simp add: polled_def start_pipe_def)
  have view: "reads_under View_External stale_sink" by (simp add: stale_sink_def)
  obtain u where u: "pipe_reach ?ops ''a'' [] ?s u" "serves View_External ?ep (ppSink u)"
    using consumers_follow_registration [OF svc entry_of_reflects ranges ep s view] ready l by blast
  have "pipe_reach ?ops ''a'' [] (start_pipe stale_sink) u" by (rule reach_trans [OF s u(1)])
  then have "\<exists>dr. ppSink u = Dynamic dr"
    using reach_pipe_inv [of ?ops "''a''" "[]" stale_sink u] by (auto simp: pipe_inv_def upd_ok_def stale_sink_def dynamic_sink)
  moreover have "Endpoint_Addr ?ep = ''a.example.com:443''" by code_simp
  ultimately show ?thesis using svc u by (intro exI [of _ svc] exI [of _ u]) auto
qed

text \<open>
  C34. The departure of the last instance goes unnoticed: when a poll answers with an empty list,
  the watch emits no event for it, so the managed cache that is driven by the events is exactly
  what it was before, and keeps serving the instance that has left.
\<close>

theorem last_departure_is_missed:
  assumes "tnResult t = Inr ([], i)"
  shows "events_of (fst (watchLoop r wc name (ts @ [t]))) = events_of (fst (watchLoop r wc name ts))
     \<and> runManagedUpdates ops c name tag
         (map Received (events_of (fst (watchLoop r wc name (ts @ [t]))))) s
       = runManagedUpdates ops c name tag (map Received (events_of (fst (watchLoop r wc name ts)))) s"
  using empty_snapshot_no_events [OF assms, of r wc name ts] by simp

theorem last_departure_is_missed_witness:
  "view_of (fst (fst (runManagedUpdates (stub_ops ttl_service) Background ''a'' []
      (map Received (events_of (fst (watchLoop open_registry Background ''a''
        ([calm (Inr ([healthy_entry ''1''], 7))] @ [calm (Inr ([], 8))]))))) (new_resolver, 0))))
   = Serving ttl_service"
proof -
  have "runManagedUpdates (stub_ops ttl_service) Background ''a'' []
      (map Received (events_of (fst (watchLoop open_registry Background ''a''
        ([calm (Inr ([healthy_entry ''1''], 7))] @ [calm (Inr ([], 8))]))))) (new_resolver, 0)
    = runManagedUpdates (stub_ops ttl_service) Background ''a'' []
      (map Received (events_of (fst (watchLoop open_registry Background ''a''
        [calm (Inr ([healthy_entry ''1''], 7))])))) (new_resolver, 0)"
  proof -
    have t: "tnResult (calm (Inr ([], 8))) = Inr ([], 8)" by (simp add: calm_def)
    show ?thesis by (rule conjunct2 [OF last_departure_is_missed [OF t]])
  qed
  then show ?thesis
    by (simp add: watchLoop_def watch_turn_def calm_def managed_update_def stub_ops_def view_of_def
        mr_service_def mr_store_def)
qed

end
